(* ===== verification/Async_Prelude.thy ===== *)
theory Async_Prelude
  imports Main "HOL-Library.Word" "HOL-Library.Sublist" "HOL-Library.Multiset"
begin

text \<open>
  Shared vocabulary of the development: coroutine handles, the undefined behaviours a C++ operation
  can run into, event sequences of a component with their logs, and the conservation interface
  \<open>fifo_component\<close> that every first-in-first-out queue of the runtime implements.
\<close>

section \<open>Handles and undefined behaviour\<close>

text \<open>A coroutine frame is named by its address; \<open>std::coroutine_handle<>\<close> is such an address or null.\<close>

type_synonym coro = nat
type_synonym handle = "coro option"

text \<open>\<open>std::function\<close> may hold a target or be empty.\<close>

type_synonym 'fn func = "'fn option"

text \<open>
  What the C++ abstract machine leaves undefined and the code could run into, and the end of the process
  by a failed \<open>assert\<close>. An operation that can reach one of these returns it as the left value of a sum.
\<close>

datatype ub =
    Null_dereference
  | Use_after_free coro
  | Not_suspended coro
  | Empty_optional
  | Signed_overflow
  | Assertion_failed

section \<open>Lemma collections\<close>

text \<open>\<open>async_ops\<close> collects the defining equations that component proofs unfold.\<close>

named_theorems async_ops

section \<open>Components driven by a sequence of events\<close>

text \<open>
  Operations of a mutex-protected object are atomic, so an execution with any number of threads is a
  sequence of operations. \<open>run_events\<close> is the state after such a sequence, \<open>log_events\<close> the
  concatenation of what the single operations output.
\<close>

fun run_events :: "('s \<Rightarrow> 'e \<Rightarrow> 's) \<Rightarrow> 's \<Rightarrow> 'e list \<Rightarrow> 's" where
  "run_events step s [] = s"
| "run_events step s (e # es) = run_events step (step s e) es"

fun log_events :: "('s \<Rightarrow> 'e \<Rightarrow> 's) \<Rightarrow> ('s \<Rightarrow> 'e \<Rightarrow> 'a list) \<Rightarrow> 's \<Rightarrow> 'e list \<Rightarrow> 'a list" where
  "log_events step out s [] = []"
| "log_events step out s (e # es) = out s e @ log_events step out (step s e) es"

lemma run_events_append:
  "run_events step s (es @ fs) = run_events step (run_events step s es) fs"
  by (induction es arbitrary: s) auto

lemma log_events_append:
  "log_events step out s (es @ fs) =
     log_events step out s es @ log_events step out (run_events step s es) fs"
  by (induction es arbitrary: s) auto

lemma run_events_invariant:
  assumes "\<And>s e. I s \<Longrightarrow> I (step s e)" and "I s"
  shows "I (run_events step s es)"
  using assms(2) by (induction es arbitrary: s) (auto intro: assms(1))

lemma log_events_all:
  assumes "\<And>s e. I s \<Longrightarrow> I (step s e)" and "\<And>s e x. I s \<Longrightarrow> x \<in> set (out s e) \<Longrightarrow> P x"
    and "I s"
  shows "\<forall>x \<in> set (log_events step out s es). P x"
  using assms(3) by (induction es arbitrary: s) (auto intro: assms(1) dest: assms(2))

section \<open>Conservation: the contract of every queue of the runtime\<close>

text \<open>
  A component takes work in (\<open>accepted\<close>) and hands work out (\<open>served\<close>); \<open>contents\<close> is what
  it holds. One law, checked for a single operation: what is served, followed by what is held
  afterwards, is what was held before followed by what was accepted. Everything a client relies on
  (order, no loss, no duplication) follows for whole executions.
\<close>

locale fifo_component =
  fixes step :: "'s \<Rightarrow> 'e \<Rightarrow> 's"
    and accepted :: "'s \<Rightarrow> 'e \<Rightarrow> 'a list"
    and served :: "'s \<Rightarrow> 'e \<Rightarrow> 'a list"
    and contents :: "'s \<Rightarrow> 'a list"
  assumes conserve: "served s e @ contents (step s e) = contents s @ accepted s e"
begin

lemma conserve_run:
  "log_events step served s es @ contents (run_events step s es) =
     contents s @ log_events step accepted s es"
proof (induction es arbitrary: s)
  case Nil
  show ?case by simp
next
  case (Cons e es)
  have "log_events step served s (e # es) @ contents (run_events step s (e # es)) =
      served s e @ (log_events step served (step s e) es
        @ contents (run_events step (step s e) es))"
    by simp
  also have "\<dots> = (served s e @ contents (step s e)) @ log_events step accepted (step s e) es"
    by (simp add: Cons.IH)
  also have "\<dots> = contents s @ log_events step accepted s (e # es)"
    by (simp add: conserve)
  finally show ?case .
qed

lemma served_prefix:
  "contents s = [] \<Longrightarrow>
   prefix (log_events step served s es) (log_events step accepted s es)"
  using conserve_run [of s es] by (metis append_Nil prefixI)

lemma served_nth:
  assumes "contents s = []" and "i < length (log_events step served s es)"
  shows "log_events step served s es ! i = log_events step accepted s es ! i"
  using conserve_run [of s es] assms by (metis append_Nil nth_append)

lemma balance:
  "contents s = [] \<Longrightarrow>
   length (log_events step accepted s es) =
     length (log_events step served s es) + length (contents (run_events step s es))"
  using conserve_run [of s es] by (metis append_Nil length_append)

lemma drained_served:
  "contents s = [] \<Longrightarrow> contents (run_events step s es) = [] \<Longrightarrow>
   log_events step served s es = log_events step accepted s es"
  using conserve_run [of s es] by simp

end

text \<open>
  The weaker contract for components that hand work out in another order than they took it (workers
  that run concurrently, timers ordered by deadline): nothing lost, nothing twice.
\<close>

locale bag_component =
  fixes step :: "'s \<Rightarrow> 'e \<Rightarrow> 's"
    and accepted :: "'s \<Rightarrow> 'e \<Rightarrow> 'a list"
    and served :: "'s \<Rightarrow> 'e \<Rightarrow> 'a list"
    and bag :: "'s \<Rightarrow> 'a multiset"
  assumes bag_conserve: "mset (served s e) + bag (step s e) = bag s + mset (accepted s e)"
begin

lemma bag_conserve_run:
  "mset (log_events step served s es) + bag (run_events step s es) =
     bag s + mset (log_events step accepted s es)"
proof (induction es arbitrary: s)
  case (Cons e es)
  have "mset (log_events step served s (e # es)) + bag (run_events step s (e # es)) =
      mset (served s e) + (bag (step s e) + mset (log_events step accepted (step s e) es))"
    by (simp add: Cons.IH [symmetric] add.assoc)
  also have "\<dots> = bag s + mset (log_events step accepted s (e # es))"
    by (simp add: bag_conserve add.assoc [symmetric])
  finally show ?case .
qed simp

lemma served_at_most_accepted:
  "bag s = {#} \<Longrightarrow>
   mset (log_events step served s es) \<subseteq># mset (log_events step accepted s es)"
  using bag_conserve_run [of s es] by (metis add_0 mset_subset_eq_add_left)

end

sublocale fifo_component \<subseteq> bag_component step accepted served "\<lambda>s. mset (contents s)"
  by unfold_locales (metis conserve mset_append)

end
