(* ===== verification/Async_Error.thy ===== *)
theory Async_Error
  imports Async_Prelude
begin

text \<open>
  Error codes of the runtime (\<open>include/vix/async/core/error.hpp\<close>): the enumeration \<open>errc\<close>, its
  category with the message table, and \<open>std::error_code\<close> values; and the exceptions that travel
  through \<open>std::exception_ptr\<close>.
\<close>

section \<open>The enumeration\<close>

datatype errc =
    errc_ok
  | errc_invalid_argument
  | errc_not_ready
  | errc_timeout
  | errc_canceled
  | errc_closed
  | errc_overflow
  | errc_stopped
  | errc_queue_full
  | errc_rejected
  | errc_not_supported

text \<open>The underlying type is \<open>std::uint8_t\<close>; enumerators count up from \<open>ok = 0\<close>.\<close>

type_synonym u8 = "8 word"

fun errc_underlying :: "errc \<Rightarrow> u8" where
  "errc_underlying errc_ok = 0"
| "errc_underlying errc_invalid_argument = 1"
| "errc_underlying errc_not_ready = 2"
| "errc_underlying errc_timeout = 3"
| "errc_underlying errc_canceled = 4"
| "errc_underlying errc_closed = 5"
| "errc_underlying errc_overflow = 6"
| "errc_underlying errc_stopped = 7"
| "errc_underlying errc_queue_full = 8"
| "errc_underlying errc_rejected = 9"
| "errc_underlying errc_not_supported = 10"

text \<open>
  \<open>static_cast<errc>(c)\<close> converts the \<open>int\<close> to the underlying type first, so only the value modulo
  256 matters; a value with no enumerator is \<open>None\<close>.
\<close>

definition errc_enumerators :: "errc list" where
  "errc_enumerators =
     [errc_ok, errc_invalid_argument, errc_not_ready, errc_timeout, errc_canceled, errc_closed,
      errc_overflow, errc_stopped, errc_queue_full, errc_rejected, errc_not_supported]"

definition errc_cast :: "int \<Rightarrow> errc option" where
  "errc_cast c = find (\<lambda>e. errc_underlying e = word_of_int c) errc_enumerators"

section \<open>The category\<close>

fun errc_text :: "errc \<Rightarrow> string" where
  "errc_text errc_ok = ''ok''"
| "errc_text errc_invalid_argument = ''invalid argument''"
| "errc_text errc_not_ready = ''not ready''"
| "errc_text errc_timeout = ''timeout''"
| "errc_text errc_canceled = ''canceled''"
| "errc_text errc_closed = ''closed''"
| "errc_text errc_overflow = ''overflow''"
| "errc_text errc_stopped = ''stopped''"
| "errc_text errc_queue_full = ''queue full''"
| "errc_text errc_rejected = ''rejected''"
| "errc_text errc_not_supported = ''not supported''"

definition error_category_message :: "int \<Rightarrow> string" where
  "error_category_message c =
     (case errc_cast c of Some e \<Rightarrow> errc_text e | None \<Rightarrow> ''unknown error'')"

text \<open>
  Error codes pair an \<open>int\<close> with a category. The library's own category is \<open>Async_category\<close>;
  \<open>Foreign_category\<close> stands for those of the operating system and of Asio.
\<close>

datatype category = Async_category | Foreign_category nat

definition error_category_name :: "category \<Rightarrow> string option" where
  "error_category_name c = (case c of Async_category \<Rightarrow> Some ''async'' | Foreign_category _ \<Rightarrow> None)"

record error_code =
  ec_value :: int
  ec_category :: category

definition make_error_code :: "errc \<Rightarrow> error_code" where
  "make_error_code e = \<lparr>ec_value = uint (errc_underlying e), ec_category = Async_category\<rparr>"

text \<open>\<open>std::error_code::operator bool\<close>: set when the value is not zero.\<close>

definition ec_is_error :: "error_code \<Rightarrow> bool" where
  "ec_is_error ec \<longleftrightarrow> ec_value ec \<noteq> 0"

section \<open>Exceptions\<close>

text \<open>The exceptions the library throws, and those of user code by a tag.\<close>

datatype exn =
    System_error error_code
  | Runtime_error string
  | User_exception string

section \<open>Lemmas\<close>

lemma errc_underlying_inj: "errc_underlying a = errc_underlying b \<longleftrightarrow> a = b"
  by (cases a; cases b) simp_all

lemma errc_cast_underlying [simp]: "errc_cast (uint (errc_underlying e)) = Some e"
  by (cases e) (simp_all add: errc_cast_def errc_enumerators_def)

lemma errc_text_inj: "errc_text a = errc_text b \<longleftrightarrow> a = b"
  by (cases a; cases b) simp_all

lemma errc_text_known: "errc_text e \<noteq> ''unknown error''"
  by (cases e) simp_all

lemma errc_cast_mod: "errc_cast c = errc_cast (c mod 256)"
proof -
  have "(word_of_int c :: u8) = word_of_int (c mod 256)"
    by (simp add: word_of_int_eq_iff take_bit_eq_mod)
  then show ?thesis by (simp add: errc_cast_def)
qed

section \<open>Properties\<close>

text \<open>
  Error codes identify their errors. The message of the code made from an enumerator is the text of
  that enumerator, different enumerators have different messages (none of them the text for unknown
  values), a code counts as an error exactly if it is not \<open>ok\<close>, and a message depends on the value
  modulo 256 only.
\<close>
lemma error_code_messages:
  "error_category_message (ec_value (make_error_code e)) = errc_text e \<and>
   errc_text e \<noteq> ''unknown error'' \<and>
   (error_category_message (ec_value (make_error_code a)) =
      error_category_message (ec_value (make_error_code b)) \<longleftrightarrow> a = b) \<and>
   (ec_is_error (make_error_code e) \<longleftrightarrow> e \<noteq> errc_ok) \<and>
   error_category_message c = error_category_message (c mod 256)"
proof -
  have "error_category_message (ec_value (make_error_code x)) = errc_text x" for x
    by (simp add: error_category_message_def make_error_code_def)
  moreover have "error_category_message c = error_category_message (c mod 256)"
    unfolding error_category_message_def by (subst errc_cast_mod) (rule refl)
  moreover have "ec_is_error (make_error_code e) \<longleftrightarrow> e \<noteq> errc_ok"
    by (cases e) (simp_all add: ec_is_error_def make_error_code_def)
  ultimately show ?thesis by (simp only: errc_text_inj errc_text_known) simp
qed

end
