(* ===== verification/Async_Monitor.thy ===== *)
theory Async_Monitor
  imports Async_Prelude
begin

text \<open>
  A mutex, a condition variable and the threads that wait on it: the concurrency skeleton shared by
  \<open>scheduler::run\<close>, \<open>thread_pool::worker_loop\<close> and \<open>timer::timer_loop\<close>, whose loops all start with
  \<open>cv_.wait(lock, pred)\<close>. The step relation has the granularity at which wake-ups can get lost: a
  waiter evaluates the predicate while it holds the mutex and goes to sleep in a later step; a writer
  updates the data in one step and notifies in a later one. The locales \<open>monitor_work\<close> and
  \<open>monitor_discipline\<close> state what the code has to respect, and show that then no wake-up is lost.
\<close>

section \<open>State and steps\<close>

text \<open>
  \<open>Awake\<close>: outside the mutex, going to evaluate the predicate (again); \<open>Checked\<close>: holds the mutex
  and found the predicate false; \<open>Asleep\<close>: inside the wait, mutex released; \<open>Exited\<close>: left the loop.
\<close>

datatype waiter = Awake | Checked | Asleep | Exited

text \<open>\<open>owed_one\<close> and \<open>owed_all\<close> count the \<open>notify_one\<close>/\<open>notify_all\<close> calls writers still have to make.\<close>

record 'd monitor =
  mdata :: 'd
  pcs :: "nat \<Rightarrow> waiter"
  owed_one :: nat
  owed_all :: nat

text \<open>
  What the code around the monitor does: the wait predicate, the critical section that follows the
  wait (new data, and whether the thread leaves its loop), and the updates other threads make: under
  the mutex followed by \<open>notify_one\<close>, under the mutex followed by \<open>notify_all\<close>, without the mutex
  followed by \<open>notify_all\<close>, and without the mutex and without notifying anybody.
\<close>

record 'd monitor_code =
  threads :: nat
  wait_pred :: "'d \<Rightarrow> bool"
  critical :: "'d \<Rightarrow> 'd \<times> bool"
  write_one :: "'d \<Rightarrow> 'd \<Rightarrow> bool"
  write_all :: "'d \<Rightarrow> 'd \<Rightarrow> bool"
  write_unlocked :: "'d \<Rightarrow> 'd \<Rightarrow> bool"
  write_silent :: "'d \<Rightarrow> 'd \<Rightarrow> bool"

definition lock_free :: "'d monitor_code \<Rightarrow> 'd monitor \<Rightarrow> bool" where
  "lock_free c m \<longleftrightarrow> (\<forall>t < threads c. pcs m t \<noteq> Checked)"

definition some_thread :: "'d monitor_code \<Rightarrow> 'd monitor \<Rightarrow> waiter \<Rightarrow> bool" where
  "some_thread c m w \<longleftrightarrow> (\<exists>t < threads c. pcs m t = w)"

definition monitor_start :: "'d \<Rightarrow> 'd monitor" where
  "monitor_start d = \<lparr>mdata = d, pcs = (\<lambda>_. Awake), owed_one = 0, owed_all = 0\<rparr>"

inductive monitor_step :: "'d monitor_code \<Rightarrow> 'd monitor \<Rightarrow> 'd monitor \<Rightarrow> bool" for c where
  enter:
    "\<lbrakk>t < threads c; pcs m t = Awake; lock_free c m; wait_pred c (mdata m);
      critical c (mdata m) = (d', leaves)\<rbrakk> \<Longrightarrow>
     monitor_step c m
       (m\<lparr>mdata := d', pcs := (pcs m)(t := if leaves then Exited else Awake)\<rparr>)"
| check:
    "\<lbrakk>t < threads c; pcs m t = Awake; lock_free c m; \<not> wait_pred c (mdata m)\<rbrakk> \<Longrightarrow>
     monitor_step c m (m\<lparr>pcs := (pcs m)(t := Checked)\<rparr>)"
| sleep:
    "\<lbrakk>t < threads c; pcs m t = Checked\<rbrakk> \<Longrightarrow>
     monitor_step c m (m\<lparr>pcs := (pcs m)(t := Asleep)\<rparr>)"
| update_one:
    "\<lbrakk>lock_free c m; write_one c (mdata m) d'\<rbrakk> \<Longrightarrow>
     monitor_step c m (m\<lparr>mdata := d', owed_one := Suc (owed_one m)\<rparr>)"
| update_all:
    "\<lbrakk>lock_free c m; write_all c (mdata m) d'\<rbrakk> \<Longrightarrow>
     monitor_step c m (m\<lparr>mdata := d', owed_all := Suc (owed_all m)\<rparr>)"
| update_unlocked:
    "write_unlocked c (mdata m) d' \<Longrightarrow>
     monitor_step c m (m\<lparr>mdata := d', owed_all := Suc (owed_all m)\<rparr>)"
| update_silent:
    "write_silent c (mdata m) d' \<Longrightarrow> monitor_step c m (m\<lparr>mdata := d'\<rparr>)"
| notify_one_wakes:
    "\<lbrakk>owed_one m = Suc k; t < threads c; pcs m t = Asleep\<rbrakk> \<Longrightarrow>
     monitor_step c m (m\<lparr>pcs := (pcs m)(t := Awake), owed_one := k\<rparr>)"
| notify_one_idle:
    "\<lbrakk>owed_one m = Suc k; \<not> some_thread c m Asleep\<rbrakk> \<Longrightarrow>
     monitor_step c m (m\<lparr>owed_one := k\<rparr>)"
| notify_all:
    "owed_all m = Suc k \<Longrightarrow>
     monitor_step c m
       (m\<lparr>pcs := (\<lambda>t. if pcs m t = Asleep then Awake else pcs m t), owed_all := k\<rparr>)"
| spurious:
    "\<lbrakk>t < threads c; pcs m t = Asleep\<rbrakk> \<Longrightarrow>
     monitor_step c m (m\<lparr>pcs := (pcs m)(t := Awake)\<rparr>)"

inductive monitor_reachable :: "'d monitor_code \<Rightarrow> 'd \<Rightarrow> 'd monitor \<Rightarrow> bool" for c d where
  start: "monitor_reachable c d (monitor_start d)"
| step: "monitor_reachable c d m \<Longrightarrow> monitor_step c m m' \<Longrightarrow> monitor_reachable c d m'"

text \<open>
  Nobody is going to look at the data again: somebody sleeps, no thread is awake or about to decide, and
  no notification is on its way. A wake-up is lost when the wait predicate holds in such a state.
\<close>

definition dormant :: "'d monitor_code \<Rightarrow> 'd monitor \<Rightarrow> bool" where
  "dormant c m \<longleftrightarrow>
     some_thread c m Asleep \<and> \<not> some_thread c m Awake \<and> \<not> some_thread c m Checked \<and>
     owed_one m = 0 \<and> owed_all m = 0"

definition lost_wakeup :: "'d monitor_code \<Rightarrow> 'd monitor \<Rightarrow> bool" where
  "lost_wakeup c m \<longleftrightarrow> dormant c m \<and> wait_pred c (mdata m)"

section \<open>The discipline\<close>

text \<open>
  For work that is announced by either notification: the predicate must not overlook it, updates outside
  the mutex must not create it, and a thread leaves only when none is left. What counts as work is said
  by the client, not read off the predicate.
\<close>

locale monitor_work =
  fixes c :: "'d monitor_code"
    and work :: "'d \<Rightarrow> bool"
  assumes pred_sees_work: "work d \<Longrightarrow> wait_pred c d"
    and unlocked_no_work: "write_unlocked c d d' \<or> write_silent c d d' \<Longrightarrow> work d' \<Longrightarrow> work d"
    and leaves_idle: "wait_pred c d \<Longrightarrow> critical c d = (d', True) \<Longrightarrow> \<not> work d'"
begin

definition sound :: "'d monitor \<Rightarrow> bool" where
  "sound m \<longleftrightarrow>
     (some_thread c m Checked \<longrightarrow> \<not> work (mdata m)) \<and>
     (work (mdata m) \<longrightarrow> some_thread c m Asleep \<longrightarrow>
        owed_one m > 0 \<or> owed_all m > 0 \<or> some_thread c m Awake)"

lemma sound_step: "monitor_step c m m' \<Longrightarrow> sound m \<Longrightarrow> sound m'"
proof (induction rule: monitor_step.induct)
  case (enter t m d' leaves)
  then have "leaves \<Longrightarrow> \<not> work d'" using leaves_idle [of "mdata m" d'] by simp
  with enter show ?case by (cases leaves) (auto simp: sound_def some_thread_def lock_free_def)
next
  case (check t m)
  then show ?case using pred_sees_work by (auto simp: sound_def some_thread_def)
next
  case (sleep t m)
  then have "\<not> work (mdata m)" by (auto simp: sound_def some_thread_def)
  with sleep show ?case by (auto simp: sound_def some_thread_def)
next
  case (update_unlocked m d')
  then show ?case using unlocked_no_work by (auto simp: sound_def some_thread_def)
next
  case (update_silent m d')
  then show ?case using unlocked_no_work by (auto simp: sound_def some_thread_def)
next
  case (notify_all m k)
  then show ?case by (auto simp: sound_def some_thread_def split: if_splits)
qed (auto simp: sound_def some_thread_def lock_free_def)

lemma reachable_sound: "monitor_reachable c d m \<Longrightarrow> sound m"
proof (induction rule: monitor_reachable.induct)
  case start
  show ?case by (simp add: sound_def monitor_start_def some_thread_def)
qed (rule sound_step)

lemma work_noticed: "monitor_reachable c d m \<Longrightarrow> work (mdata m) \<Longrightarrow> \<not> dormant c m"
  by (auto dest!: reachable_sound simp: sound_def dormant_def)

end

text \<open>
  A request to halt concerns every thread, so it must be made under the mutex and announced by
  \<open>notify_all\<close>.
\<close>

locale monitor_discipline = monitor_work +
  fixes halt :: "'a \<Rightarrow> bool"
  assumes pred_sees_halt: "halt d \<Longrightarrow> wait_pred c d"
    and unlocked_no_halt: "write_unlocked c d d' \<or> write_silent c d d' \<Longrightarrow> halt d' \<Longrightarrow> halt d"
    and one_keeps_running: "write_one c d d' \<Longrightarrow> halt d' \<Longrightarrow> halt d"
    and critical_halt: "critical c d = (d', b) \<Longrightarrow> halt d' \<Longrightarrow> halt d"
begin

definition heard :: "'a monitor \<Rightarrow> bool" where
  "heard m \<longleftrightarrow>
     (some_thread c m Checked \<longrightarrow> \<not> halt (mdata m)) \<and>
     (halt (mdata m) \<longrightarrow> some_thread c m Asleep \<longrightarrow> owed_all m > 0)"

lemma heard_step: "monitor_step c m m' \<Longrightarrow> heard m \<Longrightarrow> heard m'"
proof (induction rule: monitor_step.induct)
  case (enter t m d' leaves)
  then show ?case using critical_halt [of "mdata m" d' leaves]
    by (cases leaves) (auto simp: heard_def some_thread_def lock_free_def)
next
  case (check t m)
  then show ?case using pred_sees_halt by (auto simp: heard_def some_thread_def)
next
  case (sleep t m)
  then have "\<not> halt (mdata m)" by (auto simp: heard_def some_thread_def)
  with sleep show ?case by (auto simp: heard_def some_thread_def)
next
  case (update_one m d')
  then show ?case using one_keeps_running by (auto simp: heard_def some_thread_def lock_free_def)
next
  case (update_unlocked m d')
  then show ?case using unlocked_no_halt by (auto simp: heard_def some_thread_def)
next
  case (update_silent m d')
  then show ?case using unlocked_no_halt by (auto simp: heard_def some_thread_def)
next
  case (notify_all m k)
  then show ?case by (auto simp: heard_def some_thread_def split: if_splits)
qed (auto simp: heard_def some_thread_def lock_free_def)

lemma reachable_heard: "monitor_reachable c d m \<Longrightarrow> heard m"
proof (induction rule: monitor_reachable.induct)
  case start
  show ?case by (simp add: heard_def monitor_start_def some_thread_def)
qed (rule heard_step)

lemma halt_announced:
  "monitor_reachable c d m \<Longrightarrow> halt (mdata m) \<Longrightarrow> some_thread c m Asleep \<Longrightarrow> owed_all m > 0"
  by (auto dest!: reachable_heard simp: heard_def)

lemma halt_noticed: "monitor_reachable c d m \<Longrightarrow> halt (mdata m) \<Longrightarrow> \<not> dormant c m"
  using halt_announced by (auto simp: dormant_def)

end

end
