(* ===== verification/Async_Cancel.thy ===== *)
theory Async_Cancel
  imports Async_Error Async_Monitor
begin

text \<open>
  Cooperative cancellation (\<open>include/vix/async/core/cancel.hpp\<close>). The shared \<open>cancel_state\<close>
  objects live in a store; a \<open>cancel_source\<close> and its \<open>cancel_token\<close>s are references into it
  (\<open>std::shared_ptr\<close>, null for a default token). The interface \<open>cancel_view\<close> states what the
  awaitables of the timer, the thread pool and the network rely on: a token once seen cancelled stays
  cancelled.
\<close>

section \<open>State\<close>

record cancel_state =
  cancelled :: bool

record cancel_store =
  cancel_states :: "nat \<Rightarrow> cancel_state"
  next_state :: nat

record cancel_token =
  token_st :: "nat option"

record cancel_source =
  source_st :: "nat option"

definition cancel_store_init :: cancel_store where
  "cancel_store_init = \<lparr>cancel_states = (\<lambda>_. \<lparr>cancelled = False\<rparr>), next_state = 0\<rparr>"

section \<open>Operations\<close>

definition cancel_state_request_cancel :: "cancel_state \<Rightarrow> cancel_state" where
  "cancel_state_request_cancel st = st\<lparr>cancelled := True\<rparr>"

definition cancel_state_is_cancelled :: "cancel_state \<Rightarrow> bool" where
  "cancel_state_is_cancelled st = cancelled st"

definition cancel_token_default :: cancel_token where
  "cancel_token_default = \<lparr>token_st = None\<rparr>"

definition cancel_token_bound :: "nat option \<Rightarrow> cancel_token" where
  "cancel_token_bound st = \<lparr>token_st = st\<rparr>"

definition cancel_token_can_cancel :: "cancel_token \<Rightarrow> bool" where
  "cancel_token_can_cancel ct \<longleftrightarrow> token_st ct \<noteq> None"

definition cancel_token_is_cancelled :: "cancel_store \<Rightarrow> cancel_token \<Rightarrow> bool" where
  "cancel_token_is_cancelled m ct =
     (case token_st ct of Some a \<Rightarrow> cancel_state_is_cancelled (cancel_states m a) | None \<Rightarrow> False)"

text \<open>The constructor of \<open>cancel_source\<close> allocates a fresh, not cancelled state.\<close>

definition cancel_source_new :: "cancel_store \<Rightarrow> cancel_source \<times> cancel_store" where
  "cancel_source_new m =
     (\<lparr>source_st = Some (next_state m)\<rparr>,
      m\<lparr>cancel_states := (cancel_states m)(next_state m := \<lparr>cancelled = False\<rparr>),
        next_state := Suc (next_state m)\<rparr>)"

definition cancel_source_token :: "cancel_source \<Rightarrow> cancel_token" where
  "cancel_source_token src = cancel_token_bound (source_st src)"

definition cancel_source_request_cancel :: "cancel_source \<Rightarrow> cancel_store \<Rightarrow> cancel_store" where
  "cancel_source_request_cancel src m =
     (case source_st src of
        Some a \<Rightarrow>
          m\<lparr>cancel_states :=
              (cancel_states m)(a := cancel_state_request_cancel (cancel_states m a))\<rparr>
      | None \<Rightarrow> m)"

definition cancel_source_is_cancelled :: "cancel_store \<Rightarrow> cancel_source \<Rightarrow> bool" where
  "cancel_source_is_cancelled m src =
     (case source_st src of Some a \<Rightarrow> cancel_state_is_cancelled (cancel_states m a) | None \<Rightarrow> False)"

definition cancelled_ec :: error_code where
  "cancelled_ec = make_error_code errc_canceled"

lemmas cancel_defs [async_ops] =
  cancel_state_request_cancel_def cancel_state_is_cancelled_def cancel_token_default_def
  cancel_token_bound_def cancel_token_can_cancel_def cancel_token_is_cancelled_def
  cancel_source_new_def cancel_source_token_def cancel_source_request_cancel_def
  cancel_source_is_cancelled_def

section \<open>The store over time\<close>

text \<open>Threads change the store in two ways: a new source, a cancellation request.\<close>

inductive cancel_step :: "cancel_store \<Rightarrow> cancel_store \<Rightarrow> bool" where
  new_source: "cancel_source_new m = (src, m') \<Longrightarrow> cancel_step m m'"
| request: "cancel_step m (cancel_source_request_cancel src m)"

inductive_cases cancel_stepE: "cancel_step m m'"

text \<open>
  A token is bound to the store when its state has been allocated; every token a program holds is.
\<close>

definition token_bound_in :: "cancel_store \<Rightarrow> cancel_token \<Rightarrow> bool" where
  "token_bound_in m ct = (case token_st ct of Some a \<Rightarrow> a < next_state m | None \<Rightarrow> True)"

locale cancel_view =
  fixes is_cancelled :: "'m \<Rightarrow> 'tok \<Rightarrow> bool"
    and live :: "'m \<Rightarrow> 'tok \<Rightarrow> bool"
    and evolves :: "'m \<Rightarrow> 'm \<Rightarrow> bool"
  assumes live_step: "evolves m m' \<Longrightarrow> live m t \<Longrightarrow> live m' t"
    and cancelled_step: "evolves m m' \<Longrightarrow> live m t \<Longrightarrow> is_cancelled m t \<Longrightarrow> is_cancelled m' t"
begin

lemma live_steps: "evolves\<^sup>*\<^sup>* m m' \<Longrightarrow> live m t \<Longrightarrow> live m' t"
  by (induction rule: rtranclp_induct) (auto intro: live_step)

lemma cancelled_steps:
  "evolves\<^sup>*\<^sup>* m m' \<Longrightarrow> live m t \<Longrightarrow> is_cancelled m t \<Longrightarrow> is_cancelled m' t"
proof (induction rule: rtranclp_induct)
  case (step y z)
  then have "live y t" by (blast intro: live_steps)
  with step show ?case by (blast intro: cancelled_step)
qed

lemma not_cancelled_before:
  "evolves\<^sup>*\<^sup>* m m' \<Longrightarrow> live m t \<Longrightarrow> \<not> is_cancelled m' t \<Longrightarrow> \<not> is_cancelled m t"
  by (blast dest: cancelled_steps)

end

lemma token_bound_step: "cancel_step m m' \<Longrightarrow> token_bound_in m ct \<Longrightarrow> token_bound_in m' ct"
  by (auto elim!: cancel_stepE simp: token_bound_in_def cancel_defs split: option.splits)

lemma cancelled_step_store:
  "cancel_step m m' \<Longrightarrow> token_bound_in m ct \<Longrightarrow> cancel_token_is_cancelled m ct \<Longrightarrow>
   cancel_token_is_cancelled m' ct"
  by (auto elim!: cancel_stepE simp: token_bound_in_def cancel_defs split: option.splits)

interpretation cancel_memory: cancel_view cancel_token_is_cancelled token_bound_in cancel_step
  by unfold_locales (fact token_bound_step cancelled_step_store)+

section \<open>Lemmas\<close>

lemma request_cancel_token:
  "cancel_token_is_cancelled (cancel_source_request_cancel src m) ct \<longleftrightarrow>
     cancel_token_is_cancelled m ct \<or> (source_st src \<noteq> None \<and> token_st ct = source_st src)"
  by (auto simp: cancel_defs split: option.splits)

lemma new_source_token [simp]:
  "cancel_source_new m = (src, m') \<Longrightarrow> cancel_token_can_cancel (cancel_source_token src)"
  "cancel_source_new m = (src, m') \<Longrightarrow> \<not> cancel_token_is_cancelled m' (cancel_source_token src)"
  "cancel_source_new m = (src, m') \<Longrightarrow> token_bound_in m' (cancel_source_token src)"
  by (auto simp: cancel_defs token_bound_in_def)

lemma default_token_inert [simp]:
  "\<not> cancel_token_is_cancelled m cancel_token_default"
  "token_bound_in m cancel_token_default"
  by (auto simp: cancel_defs token_bound_in_def)

section \<open>Properties\<close>

text \<open>
  C39: A cancellation request reaches exactly the tokens of its source, and for good: right after the
  request a token is cancelled if and only if it was before or belongs to that source; and the tokens
  of that source stay cancelled whatever sources are created and whatever is requested later.
\<close>
theorem cancel_reaches_exactly_its_tokens:
  assumes "source_st src \<noteq> None" "token_bound_in m (cancel_source_token src)"
    and "cancel_step\<^sup>*\<^sup>* (cancel_source_request_cancel src m) m'"
  shows "(cancel_token_is_cancelled (cancel_source_request_cancel src m) ct \<longleftrightarrow>
      cancel_token_is_cancelled m ct \<or> token_st ct = source_st src) \<and>
    cancel_token_is_cancelled m' (cancel_source_token src) \<and> cancel_source_is_cancelled m' src"
proof -
  let ?t = "cancel_source_token src" and ?m = "cancel_source_request_cancel src m"
  have "token_bound_in ?m ?t" using token_bound_step [OF cancel_step.request assms(2)] .
  moreover have now: "cancel_token_is_cancelled ?m ?t"
    using assms(1) by (simp add: request_cancel_token cancel_source_token_def cancel_token_bound_def)
  ultimately have "cancel_token_is_cancelled m' ?t"
    using cancel_memory.cancelled_steps [OF assms(3)] by blast
  moreover have "cancel_source_is_cancelled m' src = cancel_token_is_cancelled m' ?t"
    by (simp add: cancel_source_token_def cancel_token_bound_def cancel_token_is_cancelled_def
        cancel_source_is_cancelled_def)
  ultimately show ?thesis using assms(1) by (simp add: request_cancel_token)
qed

theorem cancel_reaches_exactly_its_tokens_witness:
  "let (src, m) = cancel_source_new cancel_store_init;
       m' = snd (cancel_source_new (cancel_source_request_cancel src m))
   in cancel_token_is_cancelled m' (cancel_source_token src)"
proof -
  let ?src = "fst (cancel_source_new cancel_store_init)" and ?m = "snd (cancel_source_new cancel_store_init)"
  let ?m' = "snd (cancel_source_new (cancel_source_request_cancel ?src ?m))"
  have "cancel_step (cancel_source_request_cancel ?src ?m) ?m'"
    by (rule cancel_step.new_source [of _ "fst (cancel_source_new (cancel_source_request_cancel ?src ?m))"]) simp
  then have "cancel_step\<^sup>*\<^sup>* (cancel_source_request_cancel ?src ?m) ?m'" by (rule r_into_rtranclp)
  moreover have "source_st ?src \<noteq> None" "token_bound_in ?m (cancel_source_token ?src)"
    by (simp_all add: cancel_defs token_bound_in_def)
  ultimately have "cancel_token_is_cancelled ?m' (cancel_source_token ?src)"
    using cancel_reaches_exactly_its_tokens [of ?src ?m ?m'] by blast
  then show ?thesis by (simp add: case_prod_beta Let_def)
qed

end
