(* ===== verification/Async_Scheduler.thy ===== *)
theory Async_Scheduler
  imports Async_Cancel
begin

text \<open>
  The single-thread scheduler (\<open>include/vix/async/core/scheduler.hpp\<close>): two queues, the posting
  operations, the loop of \<open>run()\<close> and the stop flag. The record is extensible: its \<open>more\<close> part is
  whatever else the executed work items read and write.
\<close>

section \<open>State\<close>

record 'fn scheduler =
  handle_q :: "handle list"
  fn_q :: "'fn func list"
  stop_flag :: bool
  running :: bool

definition scheduler_init :: "'fn scheduler" where
  "scheduler_init = \<lparr>handle_q = [], fn_q = [], stop_flag = False, running = False\<rparr>"

section \<open>Operations\<close>

definition scheduler_post_fn :: "'fn func \<Rightarrow> ('fn, 'x) scheduler_scheme \<Rightarrow> ('fn, 'x) scheduler_scheme" where
  "scheduler_post_fn fn s = s\<lparr>fn_q := fn_q s @ [fn]\<rparr>"

definition scheduler_post :: "handle \<Rightarrow> ('fn, 'x) scheduler_scheme \<Rightarrow> ('fn, 'x) scheduler_scheme" where
  "scheduler_post h s = (if h = None then s else s\<lparr>handle_q := handle_q s @ [h]\<rparr>)"

definition scheduler_post_handle :: "handle \<Rightarrow> ('fn, 'x) scheduler_scheme \<Rightarrow> ('fn, 'x) scheduler_scheme" where
  "scheduler_post_handle h s = scheduler_post h s"

definition scheduler_stop :: "('fn, 'x) scheduler_scheme \<Rightarrow> ('fn, 'x) scheduler_scheme" where
  "scheduler_stop s = s\<lparr>stop_flag := True\<rparr>"

definition scheduler_reset :: "('fn, 'x) scheduler_scheme \<Rightarrow> ('fn, 'x) scheduler_scheme" where
  "scheduler_reset s = s\<lparr>stop_flag := False\<rparr>"

definition scheduler_is_running :: "('fn, 'x) scheduler_scheme \<Rightarrow> bool" where
  "scheduler_is_running s = running s"

definition scheduler_stop_requested :: "('fn, 'x) scheduler_scheme \<Rightarrow> bool" where
  "scheduler_stop_requested s = stop_flag s"

definition scheduler_pending_handles :: "('fn, 'x) scheduler_scheme \<Rightarrow> nat" where
  "scheduler_pending_handles s = length (handle_q s)"

definition scheduler_pending_functions :: "('fn, 'x) scheduler_scheme \<Rightarrow> nat" where
  "scheduler_pending_functions s = length (fn_q s)"

definition scheduler_pending :: "('fn, 'x) scheduler_scheme \<Rightarrow> nat" where
  "scheduler_pending s = length (handle_q s) + length (fn_q s)"

subsection \<open>The loop of \<open>run()\<close>\<close>

text \<open>
  One pass of the loop holds the mutex from the wait to the end of the block. \<open>Blocked\<close>: the wait
  predicate is false and the thread sleeps. \<open>Retry\<close>: the wait was left but no branch applied (the
  stop flag was reset in between).
\<close>

datatype 'fn choice =
    Blocked
  | Resume_handle handle
  | Call_function "'fn func"
  | Leave_loop
  | Retry

definition scheduler_wait_pred :: "('fn, 'x) scheduler_scheme \<Rightarrow> bool" where
  "scheduler_wait_pred s \<longleftrightarrow> stop_flag s \<or> handle_q s \<noteq> [] \<or> fn_q s \<noteq> []"

definition scheduler_select ::
  "('fn, 'x) scheduler_scheme \<Rightarrow> 'fn choice \<times> ('fn, 'x) scheduler_scheme" where
  "scheduler_select s =
     (case handle_q s of
        h # hs \<Rightarrow> (Resume_handle h, s\<lparr>handle_q := hs\<rparr>)
      | [] \<Rightarrow>
          (case fn_q s of
             f # fs \<Rightarrow> (Call_function f, s\<lparr>fn_q := fs\<rparr>)
           | [] \<Rightarrow> if stop_flag s then (Leave_loop, s) else (Retry, s)))"

definition scheduler_pick ::
  "('fn, 'x) scheduler_scheme \<Rightarrow> 'fn choice \<times> ('fn, 'x) scheduler_scheme" where
  "scheduler_pick s = (if scheduler_wait_pred s then scheduler_select s else (Blocked, s))"

text \<open>
  The whole loop on one thread. \<open>resume\<close> and \<open>call\<close> are the executed work: what resuming a
  coroutine, or calling a function, does to the scheduler and to the rest of the state. A function may
  throw; a resumed coroutine does not (its promise catches). The value is \<open>None\<close> when the loop never
  returns, in particular when it sleeps and nobody posts any more.
\<close>

partial_function (option) scheduler_run_loop ::
  "(coro \<Rightarrow> ('fn, 'x) scheduler_scheme \<Rightarrow> ('fn, 'x) scheduler_scheme) \<Rightarrow>
   ('fn \<Rightarrow> ('fn, 'x) scheduler_scheme \<Rightarrow> exn option \<times> ('fn, 'x) scheduler_scheme) \<Rightarrow>
   ('fn, 'x) scheduler_scheme \<Rightarrow> (exn option \<times> ('fn, 'x) scheduler_scheme) option" where
  "scheduler_run_loop resume call s =
     (case scheduler_pick s of
        (Blocked, s') \<Rightarrow> None
      | (Leave_loop, s') \<Rightarrow> Some (None, s')
      | (Retry, s') \<Rightarrow> scheduler_run_loop resume call s'
      | (Resume_handle h, s') \<Rightarrow>
          (case h of
             Some c \<Rightarrow> scheduler_run_loop resume call (resume c s')
           | None \<Rightarrow> scheduler_run_loop resume call s')
      | (Call_function f, s') \<Rightarrow>
          (case f of
             Some g \<Rightarrow>
               (case call g s' of
                  (Some ex, s'') \<Rightarrow> Some (Some ex, s'')
                | (None, s'') \<Rightarrow> scheduler_run_loop resume call s'')
           | None \<Rightarrow> scheduler_run_loop resume call s'))"

text \<open>
  \<open>run()\<close> raises \<open>running_\<close> before the loop and lowers it after; an exception that leaves the loop
  skips the second store.
\<close>

definition scheduler_run ::
  "(coro \<Rightarrow> ('fn, 'x) scheduler_scheme \<Rightarrow> ('fn, 'x) scheduler_scheme) \<Rightarrow>
   ('fn \<Rightarrow> ('fn, 'x) scheduler_scheme \<Rightarrow> exn option \<times> ('fn, 'x) scheduler_scheme) \<Rightarrow>
   ('fn, 'x) scheduler_scheme \<Rightarrow> (exn option \<times> ('fn, 'x) scheduler_scheme) option" where
  "scheduler_run resume call s =
     (case scheduler_run_loop resume call (s\<lparr>running := True\<rparr>) of
        None \<Rightarrow> None
      | Some (Some ex, s') \<Rightarrow> Some (Some ex, s')
      | Some (None, s') \<Rightarrow> Some (None, s'\<lparr>running := False\<rparr>))"

subsection \<open>The \<open>schedule()\<close> awaitable\<close>

text \<open>
  \<open>s\<close> is the awaitable's scheduler pointer. What happens to the awaiting coroutine: it is queued, or
  resumed on the spot when the pointer is null, or nothing happens (null handle).
\<close>

datatype suspend_outcome = Suspended | Resumed_inline coro

definition schedule_await_ready :: bool where
  "schedule_await_ready = False"

definition schedule_await_suspend ::
  "handle \<Rightarrow> ('fn, 'x) scheduler_scheme option \<Rightarrow>
   suspend_outcome \<times> ('fn, 'x) scheduler_scheme option" where
  "schedule_await_suspend h sp =
     (case sp of
        None \<Rightarrow> (case h of Some c \<Rightarrow> (Resumed_inline c, None) | None \<Rightarrow> (Suspended, None))
      | Some s \<Rightarrow> (Suspended, Some (scheduler_post_handle h s)))"

definition scheduler_schedule ::
  "('fn, 'x) scheduler_scheme \<Rightarrow> ('fn, 'x) scheduler_scheme option" where
  "scheduler_schedule s = Some s"

lemmas scheduler_ops [async_ops] =
  scheduler_post_fn_def scheduler_post_def scheduler_post_handle_def scheduler_stop_def
  scheduler_reset_def scheduler_wait_pred_def scheduler_select_def scheduler_pick_def

section \<open>Executions: any interleaving of posts, picks and stop requests\<close>

datatype 'fn scheduler_event =
    Post_event handle
  | Post_fn_event "'fn func"
  | Pick_event
  | Stop_event
  | Reset_event

fun scheduler_step :: "'fn scheduler \<Rightarrow> 'fn scheduler_event \<Rightarrow> 'fn scheduler" where
  "scheduler_step s (Post_event h) = scheduler_post h s"
| "scheduler_step s (Post_fn_event f) = scheduler_post_fn f s"
| "scheduler_step s Pick_event = snd (scheduler_pick s)"
| "scheduler_step s Stop_event = scheduler_stop s"
| "scheduler_step s Reset_event = scheduler_reset s"

text \<open>What an operation puts in and takes out, for handles and for functions.\<close>

fun posted_handles :: "'fn scheduler \<Rightarrow> 'fn scheduler_event \<Rightarrow> handle list" where
  "posted_handles s (Post_event h) = (if h = None then [] else [h])"
| "posted_handles s _ = []"

fun resumed_handles :: "'fn scheduler \<Rightarrow> 'fn scheduler_event \<Rightarrow> handle list" where
  "resumed_handles s Pick_event =
     (case fst (scheduler_pick s) of Resume_handle h \<Rightarrow> [h] | _ \<Rightarrow> [])"
| "resumed_handles s _ = []"

fun posted_functions :: "'fn scheduler \<Rightarrow> 'fn scheduler_event \<Rightarrow> 'fn func list" where
  "posted_functions s (Post_fn_event f) = [f]"
| "posted_functions s _ = []"

fun called_functions :: "'fn scheduler \<Rightarrow> 'fn scheduler_event \<Rightarrow> 'fn func list" where
  "called_functions s Pick_event =
     (case fst (scheduler_pick s) of Call_function f \<Rightarrow> [f] | _ \<Rightarrow> [])"
| "called_functions s _ = []"

section \<open>Lemmas\<close>

lemma scheduler_pick_cases:
  obtains (blocked) "scheduler_pick s = (Blocked, s)" "handle_q s = []" "fn_q s = []" "\<not> stop_flag s"
  | (handle) h hs where "scheduler_pick s = (Resume_handle h, s\<lparr>handle_q := hs\<rparr>)" "handle_q s = h # hs"
  | (callable) f fs where "scheduler_pick s = (Call_function f, s\<lparr>fn_q := fs\<rparr>)"
      "handle_q s = []" "fn_q s = f # fs"
  | (leave) "scheduler_pick s = (Leave_loop, s)" "handle_q s = []" "fn_q s = []" "stop_flag s"
proof (cases "handle_q s")
  case (Cons h hs)
  then show ?thesis
    by (intro that(2)) (simp_all add: scheduler_pick_def scheduler_select_def scheduler_wait_pred_def)
next
  case hq: Nil
  show ?thesis
  proof (cases "fn_q s")
    case (Cons f fs)
    with hq show ?thesis
      by (intro that(3)) (simp_all add: scheduler_pick_def scheduler_select_def scheduler_wait_pred_def)
  next
    case Nil
    with hq that(1,4) show ?thesis
      by (cases "stop_flag s")
        (simp_all add: scheduler_pick_def scheduler_select_def scheduler_wait_pred_def)
  qed
qed

lemma scheduler_conserves_handles:
  "resumed_handles s e @ handle_q (scheduler_step s e) = handle_q s @ posted_handles s e"
proof (cases e)
  case Pick_event
  then show ?thesis by (cases rule: scheduler_pick_cases [of s]) simp_all
qed (simp_all add: async_ops)

lemma scheduler_conserves_functions:
  "called_functions s e @ fn_q (scheduler_step s e) = fn_q s @ posted_functions s e"
proof (cases e)
  case Pick_event
  then show ?thesis by (cases rule: scheduler_pick_cases [of s]) simp_all
qed (simp_all add: async_ops)

interpretation sched_handles:
  fifo_component scheduler_step posted_handles resumed_handles handle_q
  by unfold_locales (rule scheduler_conserves_handles)

interpretation sched_functions:
  fifo_component scheduler_step posted_functions called_functions fn_q
  by unfold_locales (rule scheduler_conserves_functions)

lemma scheduler_init_empty [simp]:
  "handle_q scheduler_init = []" "fn_q scheduler_init = []" "\<not> stop_flag scheduler_init"
  by (simp_all add: scheduler_init_def)

lemma scheduler_step_no_null:
  "None \<notin> set (handle_q s) \<Longrightarrow> None \<notin> set (handle_q (scheduler_step s e))"
proof (cases e)
  case Pick_event
  assume "None \<notin> set (handle_q s)"
  with Pick_event show ?thesis by (cases rule: scheduler_pick_cases [of s]) auto
qed (auto simp: async_ops)

lemma reachable_no_null: "None \<notin> set (handle_q (run_events scheduler_step scheduler_init es))"
  by (rule run_events_invariant) (simp_all add: scheduler_step_no_null)

subsection \<open>The loop\<close>

lemma run_loop_drained:
  assumes "scheduler_run_loop resume call s = Some r"
  shows "fst r = None \<longrightarrow> handle_q (snd r) = [] \<and> fn_q (snd r) = [] \<and> stop_flag (snd r)"
proof (rule scheduler_run_loop.raw_induct
    [where P = "\<lambda>_ _ _ r. fst r = None \<longrightarrow>
        handle_q (snd r) = [] \<and> fn_q (snd r) = [] \<and> stop_flag (snd r)", OF _ assms])
  fix loop resume call s r
  assume IH: "\<And>resume call s r. loop resume call s = Some r \<Longrightarrow>
      fst r = None \<longrightarrow> handle_q (snd r) = [] \<and> fn_q (snd r) = [] \<and> stop_flag (snd r)"
    and eq: "(case scheduler_pick s of
        (Blocked, s') \<Rightarrow> None
      | (Leave_loop, s') \<Rightarrow> Some (None, s')
      | (Retry, s') \<Rightarrow> loop resume call s'
      | (Resume_handle h, s') \<Rightarrow>
          (case h of Some c \<Rightarrow> loop resume call (resume c s') | None \<Rightarrow> loop resume call s')
      | (Call_function f, s') \<Rightarrow>
          (case f of
             Some g \<Rightarrow>
               (case call g s' of
                  (Some ex, s'') \<Rightarrow> Some (Some ex, s'')
                | (None, s'') \<Rightarrow> loop resume call s'')
           | None \<Rightarrow> loop resume call s')) = Some r"
  show "fst r = None \<longrightarrow> handle_q (snd r) = [] \<and> fn_q (snd r) = [] \<and> stop_flag (snd r)"
  proof (cases rule: scheduler_pick_cases [of s])
    case (callable f fs)
    with eq show ?thesis
      by (cases f; cases "fst (call (the f) (s\<lparr>fn_q := fs\<rparr>))") (auto simp: case_prod_beta dest: IH)
  qed (use eq in \<open>auto split: option.splits dest: IH\<close>)
qed

text \<open>
  A weight for the items that are queued. The loop ends if every item, when executed, posts less
  weight than it has itself.
\<close>

definition scheduler_load ::
  "(handle \<Rightarrow> nat) \<Rightarrow> ('fn func \<Rightarrow> nat) \<Rightarrow> ('fn, 'x) scheduler_scheme \<Rightarrow> nat" where
  "scheduler_load wh wg s = sum_list (map wh (handle_q s)) + sum_list (map wg (fn_q s))"

lemma run_loop_terminates:
  assumes resume: "\<And>c s. stop_flag s \<Longrightarrow> stop_flag (resume c s) \<and>
      scheduler_load wh wg (resume c s) < scheduler_load wh wg s + wh (Some c)"
    and call: "\<And>g s. stop_flag s \<Longrightarrow> fst (call g s) = None \<and> stop_flag (snd (call g s)) \<and>
      scheduler_load wh wg (snd (call g s)) < scheduler_load wh wg s + wg (Some g)"
    and null: "0 < wh None" "0 < wg None"
    and "stop_flag s"
  shows "\<exists>s'. scheduler_run_loop resume call s = Some (None, s')"
  using \<open>stop_flag s\<close>
proof (induction "scheduler_load wh wg s" arbitrary: s rule: less_induct)
  case less
  note unfold = scheduler_run_loop.simps [of resume call s]
  show ?case
  proof (cases rule: scheduler_pick_cases [of s])
    case blocked
    with less.prems show ?thesis by simp
  next
    case leave
    then show ?thesis by (simp add: unfold)
  next
    case (handle h hs)
    let ?s = "s\<lparr>handle_q := hs\<rparr>"
    have load: "scheduler_load wh wg s = scheduler_load wh wg ?s + wh h"
      by (simp add: scheduler_load_def handle)
    show ?thesis
    proof (cases h)
      case None
      with less.hyps [of ?s] less.prems load null show ?thesis by (simp add: unfold handle)
    next
      case (Some k)
      with resume [of ?s k] less.hyps [of "resume k ?s"] less.prems load
      show ?thesis by (simp add: unfold handle)
    qed
  next
    case (callable f fs)
    let ?s = "s\<lparr>fn_q := fs\<rparr>"
    have load: "scheduler_load wh wg s = scheduler_load wh wg ?s + wg f"
      by (simp add: scheduler_load_def callable)
    show ?thesis
    proof (cases f)
      case None
      with less.hyps [of ?s] less.prems load null show ?thesis by (simp add: unfold callable)
    next
      case (Some g)
      obtain ex s'' where "call g ?s = (ex, s'')" by fastforce
      with Some call [of ?s g] less.hyps [of s''] less.prems load
      show ?thesis by (simp add: unfold callable)
    qed
  qed
qed

section \<open>Waking up\<close>

text \<open>
  The scheduler as a monitor with one waiting thread, the one inside \<open>run()\<close>. Posting updates under
  the mutex and then notifies one thread. \<open>stop()\<close> stores the flag and notifies without ever taking
  the mutex; \<open>reset()\<close> stores it and notifies nobody.
\<close>

definition scheduler_critical :: "'fn scheduler \<Rightarrow> 'fn scheduler \<times> bool" where
  "scheduler_critical s = (snd (scheduler_select s), fst (scheduler_select s) = Leave_loop)"

definition scheduler_posts :: "'fn scheduler \<Rightarrow> 'fn scheduler \<Rightarrow> bool" where
  "scheduler_posts s s' \<longleftrightarrow>
     (\<exists>h. h \<noteq> None \<and> s' = scheduler_post h s) \<or> (\<exists>f. s' = scheduler_post_fn f s)"

definition scheduler_monitor :: "'fn scheduler monitor_code" where
  "scheduler_monitor =
     \<lparr>threads = 1, wait_pred = scheduler_wait_pred, critical = scheduler_critical,
      write_one = scheduler_posts, write_all = (\<lambda>_ _. False),
      write_unlocked = (\<lambda>s s'. s' = scheduler_stop s), write_silent = (\<lambda>s s'. s' = scheduler_reset s)\<rparr>"

interpretation sched_monitor: monitor_work scheduler_monitor "\<lambda>s. handle_q s \<noteq> [] \<or> fn_q s \<noteq> []"
  by unfold_locales
    (auto simp: scheduler_monitor_def scheduler_critical_def async_ops split: list.splits if_splits)

section \<open>Properties\<close>

text \<open>
  C6: First in, first out, exactly once. In every execution of the scheduler, with any number of threads
  posting handles and functions, stopping and resetting, the handles resumed so far followed by the
  handles still queued are exactly the non-null handles posted so far, in the order they were posted;
  and the same for functions.
\<close>
theorem scheduler_fifo_exactly_once:
  "log_events scheduler_step resumed_handles scheduler_init es
     @ handle_q (run_events scheduler_step scheduler_init es) =
   log_events scheduler_step posted_handles scheduler_init es \<and>
   log_events scheduler_step called_functions scheduler_init es
     @ fn_q (run_events scheduler_step scheduler_init es) =
   log_events scheduler_step posted_functions scheduler_init es"
  using sched_handles.conserve_run [of scheduler_init es]
    sched_functions.conserve_run [of scheduler_init es]
  by simp

text \<open>
  C29: Coroutines go first. Whenever the loop picks a function to call, every handle posted up to that
  moment has already been resumed.
\<close>
theorem scheduler_functions_wait_for_handles:
  assumes "fst (scheduler_pick (run_events scheduler_step scheduler_init es)) = Call_function f"
  shows "log_events scheduler_step resumed_handles scheduler_init es =
    log_events scheduler_step posted_handles scheduler_init es"
proof -
  have "handle_q (run_events scheduler_step scheduler_init es) = []"
    using assms
    by (cases rule: scheduler_pick_cases [of "run_events scheduler_step scheduler_init es"]) auto
  then show ?thesis by (intro sched_handles.drained_served) simp_all
qed

theorem scheduler_functions_wait_for_handles_witness:
  "fst (scheduler_pick (run_events scheduler_step scheduler_init
     [Post_fn_event (Some True), Post_event (Some 7), Pick_event])) = Call_function (Some True) \<and>
   log_events scheduler_step resumed_handles scheduler_init
     [Post_fn_event (Some True), Post_event (Some 7), Pick_event] = [Some 7]"
proof -
  let ?es = "[Post_fn_event (Some True), Post_event (Some 7), Pick_event]"
  have "fst (scheduler_pick (run_events scheduler_step scheduler_init ?es)) = Call_function (Some True)"
    by (simp add: async_ops scheduler_init_def)
  then show ?thesis
    using scheduler_functions_wait_for_handles [of ?es "Some True"] by simp
qed

text \<open>
  C12: \<open>run()\<close> returns, and only after draining. If a stop was requested and the flag stays set, no posted
  function throws, and every work item posts less weight than it carries (so the posted work cannot grow
  for ever), \<open>run()\<close> returns normally; it then leaves both queues empty and \<open>running_\<close> false.
\<close>
theorem scheduler_run_drains_and_returns:
  assumes "\<And>c s. stop_flag s \<Longrightarrow> stop_flag (resume c s) \<and>
      scheduler_load wh wg (resume c s) < scheduler_load wh wg s + wh (Some c)"
    and "\<And>g s. stop_flag s \<Longrightarrow> fst (call g s) = None \<and> stop_flag (snd (call g s)) \<and>
      scheduler_load wh wg (snd (call g s)) < scheduler_load wh wg s + wg (Some g)"
    and "0 < wh None" "0 < wg None"
    and "stop_flag s"
  shows "\<exists>s'. scheduler_run resume call s = Some (None, s') \<and>
    handle_q s' = [] \<and> fn_q s' = [] \<and> stop_flag s' \<and> \<not> scheduler_is_running s'"
proof -
  obtain s' where s': "scheduler_run_loop resume call (s\<lparr>running := True\<rparr>) = Some (None, s')"
    using run_loop_terminates [OF assms(1-4), of "s\<lparr>running := True\<rparr>"] assms(5) by auto
  with run_loop_drained [OF s'] show ?thesis
    by (simp add: scheduler_run_def scheduler_is_running_def)
qed

theorem scheduler_run_drains_and_returns_witness:
  "\<exists>s'. scheduler_run (\<lambda>c s. if c = 0 then scheduler_post (Some 1) s else s) (\<lambda>_ s. (None, s))
       (\<lparr>handle_q = [Some 0], fn_q = [Some ()], stop_flag = True, running = False\<rparr>) = Some (None, s') \<and>
     handle_q s' = [] \<and> fn_q s' = [] \<and> stop_flag s' \<and> \<not> scheduler_is_running s'"
  by (rule scheduler_run_drains_and_returns
      [where wh = "\<lambda>h. if h = Some 0 then 2 else 1" and wg = "\<lambda>_. 1"])
    (auto simp: scheduler_load_def scheduler_post_def)

text \<open>
  A null handle is never resumed: the loop only ever picks valid handles, because \<open>post\<close> drops null
  ones.
\<close>
lemma scheduler_never_resumes_null:
  "fst (scheduler_pick (run_events scheduler_step scheduler_init es)) \<noteq> Resume_handle None"
  using reachable_no_null [of es]
  by (cases rule: scheduler_pick_cases [of "run_events scheduler_step scheduler_init es"]) force+

text \<open>
  C18: A post is never missed. Whatever the interleaving of the thread in \<open>run()\<close> with threads that post,
  stop and reset, as long as a handle or a function is queued that thread is not left sleeping: it is
  awake, or a notification is still due.
\<close>
theorem scheduler_post_wakeup_not_lost:
  assumes "monitor_reachable scheduler_monitor scheduler_init m"
    and "handle_q (mdata m) \<noteq> [] \<or> fn_q (mdata m) \<noteq> []"
  shows "\<not> dormant scheduler_monitor m"
  using sched_monitor.work_noticed [OF assms] .

theorem scheduler_post_wakeup_not_lost_witness:
  "\<exists>m :: bool scheduler monitor. monitor_reachable scheduler_monitor scheduler_init m \<and>
     pcs m 0 = Asleep \<and> fn_q (mdata m) = [Some True] \<and> \<not> dormant scheduler_monitor m"
proof -
  let ?c = "scheduler_monitor :: bool scheduler monitor_code"
  let ?m0 = "monitor_start (scheduler_init :: bool scheduler)"
  let ?m1 = "?m0\<lparr>pcs := (pcs ?m0)(0 := Checked)\<rparr>"
  let ?m2 = "?m1\<lparr>pcs := (pcs ?m1)(0 := Asleep)\<rparr>"
  let ?m3 = "?m2\<lparr>mdata := scheduler_post_fn (Some True) (mdata ?m2), owed_one := Suc (owed_one ?m2)\<rparr>"
  note code = scheduler_monitor_def monitor_start_def lock_free_def async_ops
  have "monitor_reachable ?c scheduler_init ?m0" by (rule monitor_reachable.start)
  moreover have "monitor_step ?c ?m0 ?m1" by (rule monitor_step.check) (simp_all add: code)
  moreover have "monitor_step ?c ?m1 ?m2" by (rule monitor_step.sleep) (simp_all add: code)
  moreover have "monitor_step ?c ?m2 ?m3"
    by (rule monitor_step.update_one) (auto simp: code scheduler_posts_def)
  ultimately have reach: "monitor_reachable ?c scheduler_init ?m3" by (blast intro: monitor_reachable.step)
  have m3: "pcs ?m3 0 = Asleep" "fn_q (mdata ?m3) = [Some True]" by (simp_all add: code)
  then have "\<not> dormant ?c ?m3" by (intro scheduler_post_wakeup_not_lost [OF reach]) simp
  with reach m3 show ?thesis by (intro exI [of _ ?m3]) simp
qed

text \<open>
  C30: \<open>stop()\<close> can be missed. Because it changes the flag without holding the mutex, its notification
  can fall between the predicate check of \<open>run()\<close> and the moment that thread goes to sleep: there is a
  reachable state in which a stop was requested, the thread in \<open>run()\<close> sleeps, and nothing will wake it.
\<close>
theorem scheduler_stop_wakeup_can_be_lost:
  "\<exists>m :: bool scheduler monitor. monitor_reachable scheduler_monitor scheduler_init m \<and>
     lost_wakeup scheduler_monitor m \<and> scheduler_stop_requested (mdata m)"
proof -
  let ?c = "scheduler_monitor :: bool scheduler monitor_code"
  let ?s = "scheduler_stop (scheduler_init :: bool scheduler)"
  let ?m0 = "monitor_start (scheduler_init :: bool scheduler)"
  let ?m1 = "?m0\<lparr>pcs := (pcs ?m0)(0 := Checked)\<rparr>"
  let ?m2 = "?m1\<lparr>mdata := ?s, owed_all := Suc (owed_all ?m1)\<rparr>"
  let ?m3 = "?m2\<lparr>pcs := (\<lambda>t. if pcs ?m2 t = Asleep then Awake else pcs ?m2 t), owed_all := 0\<rparr>"
  let ?m4 = "?m3\<lparr>pcs := (pcs ?m3)(0 := Asleep)\<rparr>"
  note code = scheduler_monitor_def monitor_start_def lock_free_def scheduler_wait_pred_def
  have "monitor_reachable ?c scheduler_init ?m0" by (rule monitor_reachable.start)
  moreover have "monitor_step ?c ?m0 ?m1" by (rule monitor_step.check) (simp_all add: code)
  moreover have "monitor_step ?c ?m1 ?m2"
    by (rule monitor_step.update_unlocked) (simp add: code)
  moreover have "monitor_step ?c ?m2 ?m3"
    by (rule monitor_step.notify_all) (simp add: code)
  moreover have "monitor_step ?c ?m3 ?m4"
    by (rule monitor_step.sleep) (simp_all add: code)
  ultimately have "monitor_reachable ?c scheduler_init ?m4"
    by (blast intro: monitor_reachable.step)
  moreover have "lost_wakeup ?c ?m4" "scheduler_stop_requested (mdata ?m4)"
    by (simp_all add: lost_wakeup_def dormant_def some_thread_def code scheduler_stop_def
        scheduler_stop_requested_def)
  ultimately show ?thesis by blast
qed

end
