(* ===== verification/Async_Ctx.thy ===== *)
theory Async_Ctx
  imports Async_Scheduler
begin

text \<open>
  The part of \<open>io_context\<close> (\<open>include/vix/async/core/io_context.hpp\<close>) the services call: posting work
  and the loop, all forwarded to its scheduler. The locale \<open>ctx_port\<close> is the contract the timer, the
  thread pool, the signal watcher, the network layer and \<open>spawn_detached\<close> rely on: a completion that
  is posted is queued once, behind what was posted before, and disturbs nothing else.
\<close>

section \<open>Forwarding operations\<close>

definition io_context_post_fn :: "'fn func \<Rightarrow> ('fn, 'x) scheduler_scheme \<Rightarrow> ('fn, 'x) scheduler_scheme" where
  "io_context_post_fn fn s = scheduler_post_fn fn s"

definition io_context_post :: "handle \<Rightarrow> ('fn, 'x) scheduler_scheme \<Rightarrow> ('fn, 'x) scheduler_scheme" where
  "io_context_post h s = scheduler_post_handle h s"

definition io_context_post_handle :: "handle \<Rightarrow> ('fn, 'x) scheduler_scheme \<Rightarrow> ('fn, 'x) scheduler_scheme" where
  "io_context_post_handle h s = scheduler_post_handle h s"

definition io_context_run ::
  "(coro \<Rightarrow> ('fn, 'x) scheduler_scheme \<Rightarrow> ('fn, 'x) scheduler_scheme) \<Rightarrow>
   ('fn \<Rightarrow> ('fn, 'x) scheduler_scheme \<Rightarrow> exn option \<times> ('fn, 'x) scheduler_scheme) \<Rightarrow>
   ('fn, 'x) scheduler_scheme \<Rightarrow> (exn option \<times> ('fn, 'x) scheduler_scheme) option" where
  "io_context_run resume call s = scheduler_run resume call s"

definition io_context_stop :: "('fn, 'x) scheduler_scheme \<Rightarrow> ('fn, 'x) scheduler_scheme" where
  "io_context_stop s = scheduler_stop s"

definition io_context_is_running :: "('fn, 'x) scheduler_scheme \<Rightarrow> bool" where
  "io_context_is_running s = scheduler_is_running s"

lemmas io_context_ops [async_ops] =
  io_context_post_fn_def io_context_post_def io_context_post_handle_def io_context_stop_def

section \<open>The contract\<close>

locale ctx_port =
  fixes post_handle :: "handle \<Rightarrow> 'c \<Rightarrow> 'c"
    and post_fn :: "'fn func \<Rightarrow> 'c \<Rightarrow> 'c"
    and handles :: "'c \<Rightarrow> handle list"
    and fns :: "'c \<Rightarrow> 'fn func list"
  assumes handles_post_handle: "handles (post_handle h c) = handles c @ (if h = None then [] else [h])"
    and fns_post_handle: "fns (post_handle h c) = fns c"
    and handles_post_fn: "handles (post_fn f c) = handles c"
    and fns_post_fn: "fns (post_fn f c) = fns c @ [f]"
begin

lemma handles_post_handles:
  "handles (fold post_handle hs c) = handles c @ filter (\<lambda>h. h \<noteq> None) hs"
  by (induction hs arbitrary: c) (auto simp: handles_post_handle)

lemma fns_post_handles: "fns (fold post_handle hs c) = fns c"
  by (induction hs arbitrary: c) (auto simp: fns_post_handle)

lemma resumed_once:
  "h \<noteq> None \<Longrightarrow> count_list (handles (post_handle h c)) h = Suc (count_list (handles c) h)"
  by (simp add: handles_post_handle)

end

interpretation ctx: ctx_port io_context_post_handle io_context_post_fn handle_q fn_q
  by unfold_locales (auto simp: async_ops)

end
