(* ===== verification/Async_Task.thy ===== *)
theory Async_Task
  imports Async_Ctx "HOL-Library.Finite_Map"
begin

text \<open>
  Coroutine tasks (\<open>include/vix/async/core/task.hpp\<close>): the promise with its final awaiter, the task
  awaiter, the owning \<open>task\<close> object, and the machine that runs coroutine bodies on the scheduler.
  Frames live in a heap, so a use of a destroyed frame, a resumption of a frame that is not suspended
  and an access through a null handle are visible as values of \<open>ub\<close>.
\<close>

section \<open>Values and promises\<close>

text \<open>
  Values produced by coroutines. \<open>V_moved_from\<close> is what a moved-from object holds: valid, but
  unspecified.
\<close>

datatype val =
    V_int int
  | V_string string
  | V_index nat
  | V_monostate
  | V_tuple "val list"
  | V_moved_from

text \<open>The promise types: \<open>promise_value<T>\<close>, \<open>promise_value<void>\<close> and the one of \<open>detached_task\<close>.\<close>

datatype promise_kind = Value_promise | Void_promise | Detached_promise

record promise =
  kind :: promise_kind
  continuation :: handle
  exception :: "exn option"
  detached :: bool
  pvalue :: "val option"

definition promise_new :: "promise_kind \<Rightarrow> promise" where
  "promise_new k =
     \<lparr>kind = k, continuation = None, exception = None, detached = False, pvalue = None\<rparr>"

definition promise_return_value :: "val \<Rightarrow> promise \<Rightarrow> promise" where
  "promise_return_value v p = p\<lparr>pvalue := Some v\<rparr>"

definition promise_return_void :: "promise \<Rightarrow> promise" where
  "promise_return_void p = p"

definition promise_unhandled_exception :: "exn \<Rightarrow> promise \<Rightarrow> promise" where
  "promise_unhandled_exception e p = p\<lparr>exception := Some e\<rparr>"

definition detached_unhandled_exception :: "exn \<Rightarrow> promise \<Rightarrow> promise" where
  "detached_unhandled_exception e p = p"

text \<open>
  The final awaiters. The result says which coroutine to resume next (null is
  \<open>std::noop_coroutine\<close>) and whether the frame destroys itself.
\<close>

definition final_await_suspend :: "promise \<Rightarrow> handle \<times> bool" where
  "final_await_suspend p =
     (case continuation p of Some k \<Rightarrow> (Some k, False) | None \<Rightarrow> (None, detached p))"

definition detached_final_await_suspend :: "promise \<Rightarrow> handle \<times> bool" where
  "detached_final_await_suspend p = (None, True)"

section \<open>Coroutine bodies and frames\<close>

text \<open>
  The code of a coroutine, from some point on, as the sequence of runtime operations it performs.
  \<open>'s\<close> is the type of the data it shares with other coroutines. \<open>Co_call\<close> calls a coroutine function
  (kind of its promise, its body, the tasks moved into its parameters) and goes on with the handle of
  the new task; \<open>Co_await\<close> is \<open>co_await t\<close> on a task and receives an exception or a value;
  \<open>Co_schedule\<close> is \<open>co_await sched.schedule()\<close>; \<open>Co_start\<close> is \<open>std::move(t).start(sched)\<close>;
  \<open>Co_drop\<close> is the destructor of a task object; \<open>Co_do\<close> is straight-line code on the shared data
  that may post handles; \<open>Co_self\<close> obtains the handle \<open>await_suspend\<close> is given, and \<open>Co_suspend\<close>
  suspends until somebody resumes it; \<open>Co_await_suspend\<close> suspends and then runs the \<open>await_suspend\<close> of
  an awaitable that lives in the frame, whose address both it and the code after the resumption know;
  \<open>Co_stop\<close> is \<open>sched.stop()\<close>; \<open>Co_undefined\<close> is code that runs into undefined behaviour. Bodies are
  possibly infinite (a server loop).
\<close>

codatatype 's body =
    Co_return "val option"
  | Co_throw exn
  | Co_await handle "exn + val option \<Rightarrow> 's body"
  | Co_schedule "'s body"
  | Co_call promise_kind "'s body" "handle list" "handle \<Rightarrow> 's body"
  | Co_start handle "'s body"
  | Co_drop handle "'s body"
  | Co_do "'s \<Rightarrow> 's \<times> handle list \<times> 's body"
  | Co_self "handle \<Rightarrow> 's body"
  | Co_suspend "'s body"
  | Co_await_suspend "coro \<Rightarrow> 's \<Rightarrow> ub + 's \<times> handle list" "coro \<Rightarrow> 's body"
  | Co_stop "'s body"
  | Co_undefined ub

text \<open>Where a frame is suspended.\<close>

datatype 's point =
    At_start "'s body"
  | Awaiting handle "exn + val option \<Rightarrow> 's body"
  | Parked "'s body"
  | Executing
  | At_end

text \<open>A frame owns the task objects that are its parameters and live locals.\<close>

record 's frame =
  prom :: promise
  point :: "'s point"
  owned :: "handle list"

type_synonym 's heap = "(coro, 's frame) fmap"

definition frame_new :: "promise_kind \<Rightarrow> 's body \<Rightarrow> handle list \<Rightarrow> 's frame" where
  "frame_new k b params = \<lparr>prom = promise_new k, point = At_start b, owned = params\<rparr>"

definition frame_done :: "'s frame \<Rightarrow> bool" where
  "frame_done f = (case point f of At_end \<Rightarrow> True | _ \<Rightarrow> False)"

definition frame_executing :: "'s frame \<Rightarrow> bool" where
  "frame_executing f = (case point f of Executing \<Rightarrow> True | _ \<Rightarrow> False)"

text \<open>\<open>handle.destroy()\<close> frees a suspended frame and destroys the task objects it owns.\<close>

function (sequential) destroy_all :: "handle list \<Rightarrow> 's heap \<Rightarrow> ub + 's heap" where
  "destroy_all [] fs = Inr fs"
| "destroy_all (None # hs) fs = destroy_all hs fs"
| "destroy_all (Some c # hs) fs =
     (case fmlookup fs c of
        None \<Rightarrow> Inl (Use_after_free c)
      | Some f \<Rightarrow>
          if frame_executing f then Inl (Not_suspended c)
          else destroy_all (owned f @ hs) (fmdrop c fs))"
  by pat_completeness auto
termination
proof (relation "measures [\<lambda>(hs, fs). fcard (fmdom fs), \<lambda>(hs, fs). length hs]", goal_cases)
  case 1
  show ?case by simp
next
  case 2
  show ?case by simp
next
  case (3 c hs fs f)
  then have "c |\<in>| fmdom fs" by (simp add: fmdomI)
  then have "fcard (fmdom fs |-| {|c|}) < fcard (fmdom fs)"
    by (rule fcard_fminus1_less)
  then show ?case by simp
qed

section \<open>The task object\<close>

text \<open>A \<open>task\<close> is its member \<open>h_\<close>; operations that run \<open>destroy()\<close> also change the heap.\<close>

definition task_empty :: handle where
  "task_empty = None"

definition task_move_construct :: "handle \<Rightarrow> handle \<times> handle" where
  "task_move_construct other = (other, None)"

definition task_destroy :: "handle \<Rightarrow> 's heap \<Rightarrow> ub + (handle \<times> 's heap)" where
  "task_destroy h fs =
     (case h of
        None \<Rightarrow> Inr (None, fs)
      | Some c \<Rightarrow>
          (case destroy_all [Some c] fs of Inl u \<Rightarrow> Inl u | Inr fs' \<Rightarrow> Inr (None, fs')))"

text \<open>\<open>same\<close>: the two operands are one object.\<close>

definition task_move_assign ::
  "bool \<Rightarrow> handle \<Rightarrow> handle \<Rightarrow> 's heap \<Rightarrow> ub + (handle \<times> handle \<times> 's heap)" where
  "task_move_assign same this other fs =
     (if same then Inr (this, other, fs)
      else (case task_destroy this fs of
              Inl u \<Rightarrow> Inl u
            | Inr (_, fs') \<Rightarrow> Inr (other, None, fs')))"

definition task_valid :: "handle \<Rightarrow> bool" where
  "task_valid h \<longleftrightarrow> h \<noteq> None"

definition task_handle :: "handle \<Rightarrow> handle" where
  "task_handle h = h"

definition task_release :: "handle \<Rightarrow> handle \<times> handle" where
  "task_release h = (h, None)"

text \<open>The result: the emptied task object, the heap and the scheduler.\<close>

definition task_start ::
  "handle \<Rightarrow> 's heap \<Rightarrow> ('fn, 'x) scheduler_scheme \<Rightarrow>
   ub + (handle \<times> 's heap \<times> ('fn, 'x) scheduler_scheme)" where
  "task_start h fs s =
     (case h of
        None \<Rightarrow> Inr (None, fs, s)
      | Some c \<Rightarrow>
          (case fmlookup fs c of
             None \<Rightarrow> Inl (Use_after_free c)
           | Some f \<Rightarrow>
               Inr (None, fmupd c (f\<lparr>prom := (prom f)\<lparr>detached := True\<rparr>\<rparr>) fs,
                    scheduler_post_handle (Some c) s)))"

subsection \<open>The specialisation \<open>task<void>\<close>\<close>

text \<open>The source repeats the class for \<open>void\<close>; so does the model, member by member.\<close>

definition task_void_move_construct :: "handle \<Rightarrow> handle \<times> handle" where
  "task_void_move_construct other = (other, None)"

definition task_void_destroy :: "handle \<Rightarrow> 's heap \<Rightarrow> ub + (handle \<times> 's heap)" where
  "task_void_destroy h fs =
     (case h of
        None \<Rightarrow> Inr (None, fs)
      | Some c \<Rightarrow>
          (case destroy_all [Some c] fs of Inl u \<Rightarrow> Inl u | Inr fs' \<Rightarrow> Inr (None, fs')))"

definition task_void_move_assign ::
  "bool \<Rightarrow> handle \<Rightarrow> handle \<Rightarrow> 's heap \<Rightarrow> ub + (handle \<times> handle \<times> 's heap)" where
  "task_void_move_assign same this other fs =
     (if same then Inr (this, other, fs)
      else (case task_void_destroy this fs of
              Inl u \<Rightarrow> Inl u
            | Inr (_, fs') \<Rightarrow> Inr (other, None, fs')))"

definition task_void_valid :: "handle \<Rightarrow> bool" where
  "task_void_valid h \<longleftrightarrow> h \<noteq> None"

definition task_void_handle :: "handle \<Rightarrow> handle" where
  "task_void_handle h = h"

definition task_void_release :: "handle \<Rightarrow> handle \<times> handle" where
  "task_void_release h = (h, None)"

definition task_void_start ::
  "handle \<Rightarrow> 's heap \<Rightarrow> ('fn, 'x) scheduler_scheme \<Rightarrow>
   ub + (handle \<times> 's heap \<times> ('fn, 'x) scheduler_scheme)" where
  "task_void_start h fs s =
     (case h of
        None \<Rightarrow> Inr (None, fs, s)
      | Some c \<Rightarrow>
          (case fmlookup fs c of
             None \<Rightarrow> Inl (Use_after_free c)
           | Some f \<Rightarrow>
               Inr (None, fmupd c (f\<lparr>prom := (prom f)\<lparr>detached := True\<rparr>\<rparr>) fs,
                    scheduler_post_handle (Some c) s)))"

section \<open>The task awaiter\<close>

definition task_await_ready :: "handle \<Rightarrow> 's heap \<Rightarrow> ub + bool" where
  "task_await_ready h fs =
     (case h of
        None \<Rightarrow> Inr True
      | Some c \<Rightarrow>
          (case fmlookup fs c of
             None \<Rightarrow> Inl (Use_after_free c)
           | Some f \<Rightarrow> Inr (frame_done f)))"

text \<open>The handle to resume next is that of the awaited task.\<close>

definition task_await_suspend :: "handle \<Rightarrow> handle \<Rightarrow> 's heap \<Rightarrow> ub + (handle \<times> 's heap)" where
  "task_await_suspend h awaiting fs =
     (case h of
        None \<Rightarrow> Inl Null_dereference
      | Some c \<Rightarrow>
          (case fmlookup fs c of
             None \<Rightarrow> Inl (Use_after_free c)
           | Some f \<Rightarrow>
               Inr (h, fmupd c (f\<lparr>prom := (prom f)\<lparr>continuation := awaiting\<rparr>\<rparr>) fs)))"

definition task_await_resume :: "handle \<Rightarrow> 's heap \<Rightarrow> ub + ((exn + val option) \<times> 's heap)" where
  "task_await_resume h fs =
     (case h of
        None \<Rightarrow> Inl Null_dereference
      | Some c \<Rightarrow>
          (case fmlookup fs c of
             None \<Rightarrow> Inl (Use_after_free c)
           | Some f \<Rightarrow>
               (case exception (prom f) of
                  Some e \<Rightarrow> Inr (Inl e, fs)
                | None \<Rightarrow>
                    if kind (prom f) = Void_promise then Inr (Inr None, fs)
                    else
                      (case pvalue (prom f) of
                         None \<Rightarrow> Inl Empty_optional
                       | Some v \<Rightarrow>
                           Inr (Inr (Some v),
                                fmupd c (f\<lparr>prom := (prom f)\<lparr>pvalue := Some V_moved_from\<rparr>\<rparr>) fs)))))"

section \<open>The machine\<close>

text \<open>
  One event-loop thread: the frames, the coroutine it executes at the moment (with the code it has
  left), the scheduler and the shared data. A function in the scheduler's second queue acts on the
  shared data and may post handles.
\<close>

record 's world =
  frames :: "'s heap"
  fresh :: coro
  cur :: "(coro \<times> 's body) option"
  sched :: "('s \<Rightarrow> 's \<times> handle list) scheduler"
  shared :: 's

definition post_all :: "handle list \<Rightarrow> ('fn, 'x) scheduler_scheme \<Rightarrow> ('fn, 'x) scheduler_scheme" where
  "post_all hs s = fold scheduler_post_handle hs s"

definition suspend_frame :: "coro \<Rightarrow> 's point \<Rightarrow> 's heap \<Rightarrow> ub + 's heap" where
  "suspend_frame c pt fs =
     (case fmlookup fs c of
        None \<Rightarrow> Inl (Use_after_free c)
      | Some f \<Rightarrow> Inr (fmupd c (f\<lparr>point := pt\<rparr>) fs))"

definition update_owned :: "coro \<Rightarrow> (handle list \<Rightarrow> handle list) \<Rightarrow> 's heap \<Rightarrow> 's heap" where
  "update_owned c g fs =
     (case fmlookup fs c of None \<Rightarrow> fs | Some f \<Rightarrow> fmupd c (f\<lparr>owned := g (owned f)\<rparr>) fs)"

text \<open>\<open>handle.resume()\<close>: control continues where the frame is suspended.\<close>

definition resume_frame :: "coro \<Rightarrow> 's world \<Rightarrow> ub + 's world" where
  "resume_frame c w =
     (case fmlookup (frames w) c of
        None \<Rightarrow> Inl (Use_after_free c)
      | Some f \<Rightarrow>
          (case point f of
             At_start b \<Rightarrow>
               Inr (w\<lparr>frames := fmupd c (f\<lparr>point := Executing\<rparr>) (frames w), cur := Some (c, b)\<rparr>)
           | Parked b \<Rightarrow>
               Inr (w\<lparr>frames := fmupd c (f\<lparr>point := Executing\<rparr>) (frames w), cur := Some (c, b)\<rparr>)
           | Awaiting t k \<Rightarrow>
               (case task_await_resume t (fmupd c (f\<lparr>point := Executing\<rparr>) (frames w)) of
                  Inl u \<Rightarrow> Inl u
                | Inr (r, fs) \<Rightarrow> Inr (w\<lparr>frames := fs, cur := Some (c, k r)\<rparr>))
           | Executing \<Rightarrow> Inl (Not_suspended c)
           | At_end \<Rightarrow> Inl (Not_suspended c)))"

text \<open>The end of a body: the promise takes the outcome, then the final awaiter of its kind runs.\<close>

definition promise_complete :: "exn + val option \<Rightarrow> promise \<Rightarrow> promise" where
  "promise_complete r p =
     (case r of
        Inl e \<Rightarrow>
          if kind p = Detached_promise then detached_unhandled_exception e p
          else promise_unhandled_exception e p
      | Inr (Some v) \<Rightarrow> promise_return_value v p
      | Inr None \<Rightarrow> promise_return_void p)"

definition promise_final_suspend :: "promise \<Rightarrow> handle \<times> bool" where
  "promise_final_suspend p =
     (if kind p = Detached_promise then detached_final_await_suspend p else final_await_suspend p)"

definition co_complete :: "coro \<Rightarrow> exn + val option \<Rightarrow> 's world \<Rightarrow> ub + 's world" where
  "co_complete c r w =
     (case fmlookup (frames w) c of
        None \<Rightarrow> Inl (Use_after_free c)
      | Some f \<Rightarrow>
          (let p = promise_complete r (prom f);
               fs = fmupd c (f\<lparr>prom := p, point := At_end\<rparr>) (frames w)
           in (case promise_final_suspend p of
                 (Some k, _) \<Rightarrow> resume_frame k (w\<lparr>frames := fs, cur := None\<rparr>)
               | (None, True) \<Rightarrow>
                   (case destroy_all [Some c] fs of
                      Inl u \<Rightarrow> Inl u
                    | Inr fs' \<Rightarrow> Inr (w\<lparr>frames := fs', cur := None\<rparr>))
               | (None, False) \<Rightarrow> Inr (w\<lparr>frames := fs, cur := None\<rparr>))))"

definition co_await_task ::
  "coro \<Rightarrow> handle \<Rightarrow> (exn + val option \<Rightarrow> 's body) \<Rightarrow> 's world \<Rightarrow> ub + 's world" where
  "co_await_task c t k w =
     (case task_await_ready t (frames w) of
        Inl u \<Rightarrow> Inl u
      | Inr True \<Rightarrow>
          (case task_await_resume t (frames w) of
             Inl u \<Rightarrow> Inl u
           | Inr (r, fs) \<Rightarrow> Inr (w\<lparr>frames := fs, cur := Some (c, k r)\<rparr>))
      | Inr False \<Rightarrow>
          (case task_await_suspend t (Some c) (frames w) of
             Inl u \<Rightarrow> Inl u
           | Inr (None, fs) \<Rightarrow> Inl Null_dereference
           | Inr (Some next, fs) \<Rightarrow>
               (case suspend_frame c (Awaiting t k) fs of
                  Inl u \<Rightarrow> Inl u
                | Inr fs' \<Rightarrow> resume_frame next (w\<lparr>frames := fs', cur := None\<rparr>))))"

text \<open>Calling a coroutine function creates a frame; the caller owns the returned task object.\<close>

definition co_call ::
  "coro \<Rightarrow> promise_kind \<Rightarrow> 's body \<Rightarrow> handle list \<Rightarrow> (handle \<Rightarrow> 's body) \<Rightarrow> 's world \<Rightarrow> 's world" where
  "co_call c kd b params k w =
     w\<lparr>frames :=
         fmupd (fresh w) (frame_new kd b params)
           (update_owned c (\<lambda>hs. filter (\<lambda>h. h \<notin> set params) hs @ [Some (fresh w)]) (frames w)),
       fresh := Suc (fresh w),
       cur := Some (c, k (Some (fresh w)))\<rparr>"

definition co_step :: "coro \<Rightarrow> 's body \<Rightarrow> 's world \<Rightarrow> ub + 's world" where
  "co_step c b w =
     (case b of
        Co_return v \<Rightarrow> co_complete c (Inr v) w
      | Co_throw e \<Rightarrow> co_complete c (Inl e) w
      | Co_await t k \<Rightarrow> co_await_task c t k w
      | Co_schedule b' \<Rightarrow>
          (case suspend_frame c (Parked b') (frames w) of
             Inl u \<Rightarrow> Inl u
           | Inr fs \<Rightarrow>
               Inr (w\<lparr>frames := fs, cur := None, sched := scheduler_post_handle (Some c) (sched w)\<rparr>))
      | Co_call kd b' params k \<Rightarrow> Inr (co_call c kd b' params k w)
      | Co_start h b' \<Rightarrow>
          (case task_start h (frames w) (sched w) of
             Inl u \<Rightarrow> Inl u
           | Inr (_, fs, s) \<Rightarrow>
               Inr (w\<lparr>frames := update_owned c (filter (\<lambda>x. x \<noteq> h)) fs, sched := s,
                      cur := Some (c, b')\<rparr>))
      | Co_drop h b' \<Rightarrow>
          (case task_destroy h (frames w) of
             Inl u \<Rightarrow> Inl u
           | Inr (_, fs) \<Rightarrow>
               Inr (w\<lparr>frames := update_owned c (filter (\<lambda>x. x \<noteq> h)) fs, cur := Some (c, b')\<rparr>))
      | Co_do g \<Rightarrow>
          (case g (shared w) of
             (d, hs, b') \<Rightarrow>
               Inr (w\<lparr>shared := d, sched := post_all hs (sched w), cur := Some (c, b')\<rparr>))
      | Co_self k \<Rightarrow> Inr (w\<lparr>cur := Some (c, k (Some c))\<rparr>)
      | Co_suspend b' \<Rightarrow>
          (case suspend_frame c (Parked b') (frames w) of
             Inl u \<Rightarrow> Inl u
           | Inr fs \<Rightarrow> Inr (w\<lparr>frames := fs, cur := None\<rparr>))
      | Co_await_suspend g b' \<Rightarrow>
          (case suspend_frame c (Parked (b' c)) (frames w) of
             Inl u \<Rightarrow> Inl u
           | Inr fs \<Rightarrow>
               (case g c (shared w) of
                  Inl u \<Rightarrow> Inl u
                | Inr (d, hs) \<Rightarrow>
                    Inr (w\<lparr>frames := fs, cur := None, shared := d, sched := post_all hs (sched w)\<rparr>)))
      | Co_stop b' \<Rightarrow> Inr (w\<lparr>sched := scheduler_stop (sched w), cur := Some (c, b')\<rparr>)
      | Co_undefined u \<Rightarrow> Inl u)"

text \<open>With no coroutine executing, the thread is in the loop of \<open>scheduler::run\<close>.\<close>

definition loop_step :: "'s world \<Rightarrow> ub + 's world" where
  "loop_step w =
     (case scheduler_pick (sched w) of
        (Resume_handle (Some c), s) \<Rightarrow> resume_frame c (w\<lparr>sched := s\<rparr>)
      | (Call_function (Some g), s) \<Rightarrow>
          (case g (shared w) of (d, hs) \<Rightarrow> Inr (w\<lparr>shared := d, sched := post_all hs s\<rparr>))
      | (_, s) \<Rightarrow> Inr (w\<lparr>sched := s\<rparr>))"

definition world_step :: "'s world \<Rightarrow> ub + 's world" where
  "world_step w = (case cur w of Some (c, b) \<Rightarrow> co_step c b w | None \<Rightarrow> loop_step w)"

primrec world_run :: "nat \<Rightarrow> 's world \<Rightarrow> ub + 's world" where
  "world_run 0 w = Inr w"
| "world_run (Suc n) w = (case world_step w of Inl u \<Rightarrow> Inl u | Inr w' \<Rightarrow> world_run n w')"

section \<open>A reference semantics for tasks\<close>

text \<open>
  Task code that only returns, throws and awaits other tasks, as a tree, with its meaning by plain
  recursion: a call that returns a value or an exception. \<open>prog_body\<close> is the coroutine for it; the
  awaited task is a temporary, destroyed at the end of the full expression.
\<close>

datatype prog =
    P_return "val option"
  | P_throw exn
  | P_await promise_kind prog "exn + val option \<Rightarrow> prog"

primrec prog_eval :: "prog \<Rightarrow> exn + val option" where
  "prog_eval (P_return v) = Inr v"
| "prog_eval (P_throw e) = Inl e"
| "prog_eval (P_await kd t k) = (prog_eval \<circ> k) (prog_eval t)"

primrec prog_body :: "prog \<Rightarrow> 's body" where
  "prog_body (P_return v) = Co_return v"
| "prog_body (P_throw e) = Co_throw e"
| "prog_body (P_await kd t k) =
     Co_call kd (prog_body t) [] (\<lambda>h. Co_await h (\<lambda>r. Co_drop h ((prog_body \<circ> k) r)))"

text \<open>\<open>co_return v\<close> in a \<open>task<T>\<close>, \<open>co_return\<close> in a \<open>task<void>\<close>.\<close>

primrec prog_typed :: "promise_kind \<Rightarrow> prog \<Rightarrow> bool" where
  "prog_typed kd (P_return v) \<longleftrightarrow> (kd = Value_promise \<and> v \<noteq> None) \<or> (kd = Void_promise \<and> v = None)"
| "prog_typed kd (P_throw e) \<longleftrightarrow> kd \<noteq> Detached_promise"
| "prog_typed kd (P_await kd' t k) \<longleftrightarrow> prog_typed kd' t \<and> (\<forall>r. (prog_typed kd \<circ> k) r)"

definition outcome_body :: "exn + val option \<Rightarrow> 's body" where
  "outcome_body r = (case r of Inl e \<Rightarrow> Co_throw e | Inr v \<Rightarrow> Co_return v)"

section \<open>Lemmas\<close>

definition heap_ok :: "coro \<Rightarrow> 's heap \<Rightarrow> bool" where
  "heap_ok n fs \<longleftrightarrow>
     (\<forall>d f. fmlookup fs d = Some f \<longrightarrow> d < n \<and> (\<forall>e. Some e \<in> set (owned f) \<longrightarrow> e < n))"

text \<open>The heap while coroutine \<open>c\<close> awaits its temporary \<open>d\<close>, which executes.\<close>

definition heap_awaiting ::
  "coro \<Rightarrow> coro \<Rightarrow> promise_kind \<Rightarrow> (exn + val option \<Rightarrow> 's body) \<Rightarrow> 's frame \<Rightarrow> 's heap \<Rightarrow> 's heap" where
  "heap_awaiting c d kd k f fs =
     fmupd d \<lparr>prom = (promise_new kd)\<lparr>continuation := Some c\<rparr>, point = Executing, owned = []\<rparr>
       (fmupd c (f\<lparr>point := Awaiting (Some d) k, owned := owned f @ [Some d]\<rparr>) fs)"

lemmas machine_ops =
  world_step_def co_step_def co_call_def co_await_task_def suspend_frame_def update_owned_def
  resume_frame_def frame_new_def frame_done_def frame_executing_def

lemmas task_awaiter_ops = task_await_ready_def task_await_suspend_def task_await_resume_def

lemma await_temporary_begin:
  assumes "fmlookup (frames w) c = Some f" "point f = Executing" "c \<noteq> fresh w"
  shows "world_run 2
      (w\<lparr>cur := Some (c, Co_call kd b [] (\<lambda>h. Co_await h (\<lambda>r. Co_drop h (k r))))\<rparr>) =
    Inr (w\<lparr>frames := heap_awaiting c (fresh w) kd (\<lambda>r. Co_drop (Some (fresh w)) (k r)) f (frames w),
           fresh := Suc (fresh w), cur := Some (fresh w, b)\<rparr>)"
  using assms
  by (cases w; cases f)
    (simp add: numeral_2_eq_2 machine_ops task_awaiter_ops heap_awaiting_def fmupd_reorder_neq)

definition outcome_typed :: "promise_kind \<Rightarrow> exn + val option \<Rightarrow> bool" where
  "outcome_typed kd r =
     (case r of
        Inl e \<Rightarrow> kd \<noteq> Detached_promise
      | Inr v \<Rightarrow> (kd = Value_promise \<and> v \<noteq> None) \<or> (kd = Void_promise \<and> v = None))"

lemma fmupd_same: "fmlookup m x = Some y \<Longrightarrow> fmupd x y m = m"
  by (rule fmap_ext) auto

lemma fmdrop_fresh: "fmlookup m x = None \<Longrightarrow> fmdrop x m = m"
  by (rule fmap_ext) (simp add: fmlookup_drop)

lemma await_temporary_end:
  assumes "fmlookup (frames w) c = Some f" "point f = Executing" "c \<noteq> d"
    and "fmlookup (frames w) d = None" "Some d \<notin> set (owned f)" "outcome_typed kd r"
  shows "world_run 2
      (w\<lparr>frames := heap_awaiting c d kd (\<lambda>r. Co_drop (Some d) (k r)) f (frames w),
         fresh := m, cur := Some (d, outcome_body r)\<rparr>) =
    Inr (w\<lparr>fresh := m, cur := Some (c, k r)\<rparr>)"
proof -
  have own: "filter (\<lambda>x. x \<noteq> Some d) (owned f) = owned f"
    using assms(5) by (auto simp: filter_id_conv)
  have f: "f\<lparr>point := Executing, owned := owned f\<rparr> = f" using assms(2) by simp
  show ?thesis
    using assms own
    by (cases r)
      (auto simp: numeral_2_eq_2 machine_ops task_awaiter_ops heap_awaiting_def outcome_body_def
        co_complete_def Let_def promise_complete_def promise_final_suspend_def promise_new_def
        final_await_suspend_def outcome_typed_def promise_return_value_def promise_return_void_def
        promise_unhandled_exception_def task_destroy_def f fmdrop_fmupd fmupd_same fmdrop_fresh
        fmupd_reorder_neq
        split: option.splits)
qed

lemma world_run_add:
  "world_run (m + n) w = (case world_run m w of Inl u \<Rightarrow> Inl u | Inr w' \<Rightarrow> world_run n w')"
  by (induction m arbitrary: w) (auto split: sum.splits)

definition world_reaches :: "'s world \<Rightarrow> 's world \<Rightarrow> bool" where
  "world_reaches w w' \<longleftrightarrow> (\<exists>n. world_run n w = Inr w')"

lemma world_reaches_refl [simp]: "world_reaches w w"
  unfolding world_reaches_def by (rule exI [of _ 0]) simp

lemma world_reaches_run: "world_run n w = Inr w' \<Longrightarrow> world_reaches w w'"
  by (auto simp: world_reaches_def)

lemma world_reaches_trans [trans]:
  "world_reaches w w' \<Longrightarrow> world_reaches w' w'' \<Longrightarrow> world_reaches w w''"
proof -
  assume "world_reaches w w'" and "world_reaches w' w''"
  then obtain m n where "world_run m w = Inr w'" and "world_run n w' = Inr w''"
    by (auto simp: world_reaches_def)
  then have "world_run (m + n) w = Inr w''" by (simp add: world_run_add)
  then show ?thesis by (rule world_reaches_run)
qed

lemma world_reaches_step: "world_step w = Inr w' \<Longrightarrow> world_reaches w w'"
  by (rule world_reaches_run [of 1]) simp

lemma prog_typed_outcome: "prog_typed kd p \<Longrightarrow> outcome_typed kd (prog_eval p)"
  by (induction p arbitrary: kd) (auto simp: outcome_typed_def)

lemma heap_ok_awaiting:
  "heap_ok n fs \<Longrightarrow> fmlookup fs c = Some f \<Longrightarrow> heap_ok (Suc n) (heap_awaiting c n kd k f fs)"
  by (fastforce simp: heap_ok_def heap_awaiting_def split: if_splits)

lemma heap_ok_mono: "heap_ok n fs \<Longrightarrow> n \<le> m \<Longrightarrow> heap_ok m fs"
  by (fastforce simp: heap_ok_def)

lemma prog_runs:
  assumes "fmlookup (frames w) c = Some f" "point f = Executing" "heap_ok (fresh w) (frames w)"
    and "prog_typed kd p"
  shows "\<exists>m. fresh w \<le> m \<and>
    world_reaches (w\<lparr>cur := Some (c, prog_body p)\<rparr>)
      (w\<lparr>fresh := m, cur := Some (c, outcome_body (prog_eval p))\<rparr>)"
  using assms
proof (induction p arbitrary: w c f kd)
  case (P_return v)
  show ?case by (rule exI [of _ "fresh w"]) (simp add: outcome_body_def)
next
  case (P_throw e)
  show ?case by (rule exI [of _ "fresh w"]) (simp add: outcome_body_def)
next
  case (P_await kd' t k)
  let ?d = "fresh w" and ?r = "prog_eval t"
  let ?fs = "heap_awaiting c ?d kd' (\<lambda>r. Co_drop (Some ?d) (prog_body (k r))) f (frames w)"
  let ?w = "w\<lparr>frames := ?fs, fresh := Suc ?d\<rparr>"
  from P_await.prems have cd: "c \<noteq> ?d" and new: "fmlookup (frames w) ?d = None"
    and own: "Some ?d \<notin> set (owned f)"
    by (auto simp: heap_ok_def) (metis less_irrefl_nat not_None_eq)
  have t: "prog_typed kd' t" and k: "prog_typed kd (k ?r)" using P_await.prems(4) by auto
  have "heap_ok (Suc ?d) ?fs" using heap_ok_awaiting [OF P_await.prems(3,1)] by simp
  then obtain m where m: "Suc ?d \<le> m" and child: "world_reaches (?w\<lparr>cur := Some (?d, prog_body t)\<rparr>)
      (?w\<lparr>fresh := m, cur := Some (?d, outcome_body ?r)\<rparr>)"
    using P_await.IH(1) [OF _ _ _ t, of ?w ?d] by (fastforce simp: heap_awaiting_def)
  have "heap_ok m (frames w)" using heap_ok_mono [OF P_await.prems(3), of m] m by simp
  then obtain m' where m': "m \<le> m'"
    and rest: "world_reaches (w\<lparr>fresh := m, cur := Some (c, prog_body (k ?r))\<rparr>)
      (w\<lparr>fresh := m', cur := Some (c, outcome_body (prog_eval (k ?r)))\<rparr>)"
    using P_await.IH(2) [of "k ?r" "w\<lparr>fresh := m\<rparr>" c f kd, OF _ _ _ _ k] P_await.prems(1,2) by auto
  have "world_reaches (w\<lparr>cur := Some (c, prog_body (P_await kd' t k))\<rparr>)
      (?w\<lparr>cur := Some (?d, prog_body t)\<rparr>)"
    using await_temporary_begin [OF P_await.prems(1,2) cd, of kd' "prog_body t" "prog_body \<circ> k"]
    by (intro world_reaches_run [of 2]) simp
  also note child
  also have "world_reaches (?w\<lparr>fresh := m, cur := Some (?d, outcome_body ?r)\<rparr>)
      (w\<lparr>fresh := m, cur := Some (c, prog_body (k ?r))\<rparr>)"
    using await_temporary_end [of w c f ?d kd' ?r m "prog_body \<circ> k"]
      P_await.prems(1,2) cd new own prog_typed_outcome [OF t]
    by (intro world_reaches_run [of 2]) simp
  also note rest
  finally show ?case using m m' by (intro exI [of _ m']) simp
qed

subsection \<open>From the scheduler's queue to completion\<close>

lemma await_unstarted:
  assumes "fmlookup (frames w) c = Some f" "fmlookup (frames w) t = Some g"
    and "point g = At_start b" "c \<noteq> t"
  shows "world_step (w\<lparr>cur := Some (c, Co_await (Some t) k)\<rparr>) =
    Inr (w\<lparr>frames := fmupd t (g\<lparr>prom := (prom g)\<lparr>continuation := Some c\<rparr>, point := Executing\<rparr>)
            (fmupd c (f\<lparr>point := Awaiting (Some t) k\<rparr>) (frames w)), cur := Some (t, b)\<rparr>)"
  using assms
  by (cases w; cases g) (simp add: machine_ops task_awaiter_ops fmupd_reorder_neq)

lemma loop_step_handle:
  "handle_q (sched w) = Some c # hs \<Longrightarrow> cur w = None \<Longrightarrow>
   world_step w = resume_frame c (w\<lparr>sched := (sched w)\<lparr>handle_q := hs\<rparr>\<rparr>)"
  by (simp add: world_step_def loop_step_def scheduler_pick_def scheduler_wait_pred_def
      scheduler_select_def)

lemma world_step_outcome:
  "cur w = Some (c, outcome_body r) \<Longrightarrow> world_step w = co_complete c r w"
  by (cases r) (simp_all add: world_step_def co_step_def outcome_body_def)

lemma task_reaches_outcome:
  assumes frame: "fmlookup (frames w) c = Some f" "point f = At_start (prog_body p)"
    and ok: "heap_ok (fresh w) (frames w)" and typed: "prog_typed kd p"
    and queue: "handle_q (sched w) = Some c # hs" "cur w = None"
  shows "\<exists>m. fresh w \<le> m \<and> world_reaches w
    (w\<lparr>frames := fmupd c (f\<lparr>point := Executing\<rparr>) (frames w), fresh := m,
       cur := Some (c, outcome_body (prog_eval p)), sched := (sched w)\<lparr>handle_q := hs\<rparr>\<rparr>)"
proof -
  let ?w = "w\<lparr>frames := fmupd c (f\<lparr>point := Executing\<rparr>) (frames w),
    sched := (sched w)\<lparr>handle_q := hs\<rparr>\<rparr>"
  have "world_step w = Inr (?w\<lparr>cur := Some (c, prog_body p)\<rparr>)"
    using frame by (simp add: loop_step_handle [OF queue] resume_frame_def)
  then have first: "world_reaches w (?w\<lparr>cur := Some (c, prog_body p)\<rparr>)"
    by (rule world_reaches_step)
  have "heap_ok (fresh ?w) (frames ?w)" using ok frame by (auto simp: heap_ok_def)
  then obtain m where m: "fresh w \<le> m" and rest: "world_reaches (?w\<lparr>cur := Some (c, prog_body p)\<rparr>)
      (?w\<lparr>fresh := m, cur := Some (c, outcome_body (prog_eval p))\<rparr>)"
    using prog_runs [of ?w c "f\<lparr>point := Executing\<rparr>" kd p] typed by auto
  show ?thesis
    using world_reaches_trans [OF first rest] m by (intro exI [of _ m]) (cases w; simp)
qed

lemma co_complete_detached_kind:
  assumes "fmlookup (frames w) c = Some f" "kind (prom f) = Detached_promise"
  shows "co_complete c r w =
    (case destroy_all [Some c] (fmupd c (f\<lparr>prom := promise_complete r (prom f), point := At_end\<rparr>) (frames w))
     of Inl u \<Rightarrow> Inl u | Inr fs \<Rightarrow> Inr (w\<lparr>frames := fs, cur := None\<rparr>))"
  using assms
  by (cases r)
    (auto simp: co_complete_def Let_def promise_final_suspend_def promise_complete_def
      detached_final_await_suspend_def detached_unhandled_exception_def promise_return_value_def
      promise_return_void_def split: option.splits)

lemma co_complete_plain:
  assumes "fmlookup (frames w) c = Some f" "kind (prom f) \<noteq> Detached_promise"
    and "continuation (prom f) = None" "\<not> detached (prom f)"
  shows "co_complete c r w =
    Inr (w\<lparr>frames := fmupd c (f\<lparr>prom := promise_complete r (prom f), point := At_end\<rparr>) (frames w),
           cur := None\<rparr>)"
  using assms
  by (cases r)
    (auto simp: co_complete_def Let_def promise_final_suspend_def promise_complete_def
      final_await_suspend_def promise_unhandled_exception_def promise_return_value_def
      promise_return_void_def split: option.splits)

lemma co_complete_self_destroy:
  assumes "fmlookup (frames w) c = Some f" "kind (prom f) \<noteq> Detached_promise"
    and "continuation (prom f) = None" "detached (prom f)" "owned f = []"
  shows "co_complete c r w = Inr (w\<lparr>frames := fmdrop c (frames w), cur := None\<rparr>)"
  using assms
  by (cases r)
    (auto simp: co_complete_def Let_def promise_final_suspend_def promise_complete_def
      final_await_suspend_def promise_unhandled_exception_def promise_return_value_def
      promise_return_void_def frame_executing_def fmdrop_fmupd split: option.splits)

section \<open>Properties\<close>

lemma task_void_agrees:
  "task_void_move_construct = task_move_construct" "task_void_destroy = task_destroy"
  "task_void_move_assign = task_move_assign" "task_void_release = task_release"
  "task_void_start = task_start"
  by (auto simp: fun_eq_iff task_void_move_construct_def task_move_construct_def task_void_destroy_def
      task_destroy_def task_void_move_assign_def task_move_assign_def task_void_release_def
      task_release_def task_void_start_def task_start_def)

text \<open>
  C3: Awaiting composes like calling. A task whose code returns, throws and awaits other tasks, to any
  depth, is posted to the scheduler: the loop runs it to completion without undefined behaviour, its
  promise then holds exactly the value or the exception that the code evaluates to, every temporary
  task frame has been freed, and nothing else has changed.
\<close>
theorem task_evaluates_like_a_call:
  assumes "fmlookup (frames w) c = Some (frame_new kd (prog_body p) [])"
    and "heap_ok (fresh w) (frames w)" and "prog_typed kd p"
    and "handle_q (sched w) = Some c # hs" and "cur w = None"
  shows "\<exists>m. world_reaches w
    (w\<lparr>frames := fmupd c \<lparr>prom = promise_complete (prog_eval p) (promise_new kd), point = At_end,
          owned = []\<rparr> (frames w),
       fresh := m, sched := (sched w)\<lparr>handle_q := hs\<rparr>\<rparr>)"
proof -
  let ?f = "frame_new kd (prog_body p) []"
  have pt: "point ?f = At_start (prog_body p)" by (simp add: frame_new_def)
  obtain m where reach: "world_reaches w
    (w\<lparr>frames := fmupd c (?f\<lparr>point := Executing\<rparr>) (frames w), fresh := m,
       cur := Some (c, outcome_body (prog_eval p)), sched := (sched w)\<lparr>handle_q := hs\<rparr>\<rparr>)" (is "world_reaches w ?v")
    using task_reaches_outcome [OF assms(1) pt assms(2-5)] by blast
  have kd: "kd \<noteq> Detached_promise"
    using prog_typed_outcome [OF assms(3)] by (auto simp: outcome_typed_def split: sum.splits)
  have "world_step ?v = co_complete c (prog_eval p) ?v"
    by (rule world_step_outcome) simp
  also have "\<dots> = Inr (?v\<lparr>frames := fmupd c \<lparr>prom = promise_complete (prog_eval p) (promise_new kd),
      point = At_end, owned = []\<rparr> (frames w), cur := None\<rparr>)"
    using kd co_complete_plain [of ?v c "?f\<lparr>point := Executing\<rparr>" "prog_eval p"]
    by (simp add: frame_new_def promise_new_def)
  finally have "world_reaches ?v (?v\<lparr>frames := fmupd c
      \<lparr>prom = promise_complete (prog_eval p) (promise_new kd), point = At_end, owned = []\<rparr> (frames w),
      cur := None\<rparr>)"
    by (rule world_reaches_step)
  from world_reaches_trans [OF reach this] assms(5) show ?thesis
    by (intro exI [of _ m]) (cases w; simp)
qed

text \<open>The test's \<open>chain()\<close>: await 42, then await a task that adds one, then return.\<close>

definition chain_prog :: prog where
  "chain_prog =
     P_await Value_promise (P_return (Some (V_int 42)))
       (\<lambda>r. case r of
          Inr (Some (V_int x)) \<Rightarrow>
            P_await Value_promise (P_return (Some (V_int (x + 1))))
              (\<lambda>r'. case r' of Inr (Some v) \<Rightarrow> P_return (Some v) | _ \<Rightarrow> P_throw (Runtime_error ''boom''))
        | _ \<Rightarrow> P_throw (Runtime_error ''boom''))"

definition chain_world :: "unit world" where
  "chain_world =
     \<lparr>frames = fmupd 0 (frame_new Value_promise (prog_body chain_prog) []) fmempty, fresh = 1,
      cur = None, sched = scheduler_post (Some 0) scheduler_init, shared = ()\<rparr>"

lemma chain_world_ready:
  "fmlookup (frames chain_world) 0 = Some (frame_new Value_promise (prog_body chain_prog) [])"
  "heap_ok (fresh chain_world) (frames chain_world)" "prog_typed Value_promise chain_prog"
  "handle_q (sched chain_world) = Some 0 # []" "cur chain_world = None"
  by (auto simp: chain_world_def chain_prog_def heap_ok_def frame_new_def scheduler_post_def
      split: sum.splits option.splits val.splits)

theorem task_evaluates_like_a_call_witness:
  "\<exists>m. world_reaches chain_world
     (chain_world\<lparr>frames := fmupd 0 \<lparr>prom = promise_return_value (V_int 43) (promise_new Value_promise),
         point = At_end, owned = []\<rparr> (frames chain_world),
       fresh := m, sched := (sched chain_world)\<lparr>handle_q := []\<rparr>\<rparr>)"
  using task_evaluates_like_a_call [OF chain_world_ready]
  by (simp add: chain_prog_def promise_complete_def)

text \<open>
  C23: A started task frees itself. \<open>std::move(t).start(sched)\<close> empties the task object and posts the
  coroutine; once the loop has run it (whatever it returns or throws, and however many tasks it awaits)
  its frame is gone, the rest of the heap is as before, and the outcome is dropped.
\<close>
theorem started_task_frees_itself:
  assumes "fmlookup (frames w) c = Some (frame_new kd (prog_body p) [])"
    and "heap_ok (fresh w) (frames w)" and "prog_typed kd p"
    and "handle_q (sched w) = []" and "cur w = None"
    and "task_start (Some c) (frames w) (sched w) = Inr (h, fs, s)"
  shows "h = None \<and> (\<exists>m. world_reaches (w\<lparr>frames := fs, sched := s\<rparr>)
    (w\<lparr>frames := fmdrop c (frames w), fresh := m\<rparr>))"
proof -
  let ?f = "(frame_new kd (prog_body p) [])\<lparr>prom := (promise_new kd)\<lparr>detached := True\<rparr>\<rparr>"
  let ?w = "w\<lparr>frames := fs, sched := s\<rparr>"
  from assms(1,4,6) have h: "h = None" and fs: "fs = fmupd c ?f (frames w)"
    and s: "s = (sched w)\<lparr>handle_q := [Some c]\<rparr>"
    by (auto simp: task_start_def frame_new_def scheduler_post_handle_def scheduler_post_def)
  have kd: "kd \<noteq> Detached_promise"
    using prog_typed_outcome [OF assms(3)] by (auto simp: outcome_typed_def split: sum.splits)
  have "fmlookup (frames ?w) c = Some ?f" "point ?f = At_start (prog_body p)"
    "heap_ok (fresh ?w) (frames ?w)" "handle_q (sched ?w) = Some c # []" "cur ?w = None"
    using assms(2,5) by (auto simp: fs s frame_new_def heap_ok_def assms(1))
  then obtain m where reach: "world_reaches ?w
    (?w\<lparr>frames := fmupd c (?f\<lparr>point := Executing\<rparr>) (frames ?w), fresh := m,
       cur := Some (c, outcome_body (prog_eval p)), sched := (sched ?w)\<lparr>handle_q := []\<rparr>\<rparr>)"
    (is "world_reaches _ ?v")
    using task_reaches_outcome [of ?w c ?f p kd "[]"] assms(3) by blast
  have "world_step ?v = co_complete c (prog_eval p) ?v" by (rule world_step_outcome) simp
  also have "\<dots> = Inr (?v\<lparr>frames := fmdrop c (frames w), cur := None\<rparr>)"
    using kd co_complete_self_destroy [of ?v c "?f\<lparr>point := Executing\<rparr>" "prog_eval p"]
    by (simp add: frame_new_def promise_new_def fs fmdrop_fmupd)
  finally have "world_reaches ?v (?v\<lparr>frames := fmdrop c (frames w), cur := None\<rparr>)"
    by (rule world_reaches_step)
  moreover have "(sched w)\<lparr>handle_q := []\<rparr> = sched w" using assms(4) by (cases "sched w") simp
  then have "?v\<lparr>frames := fmdrop c (frames w), cur := None\<rparr> = w\<lparr>frames := fmdrop c (frames w), fresh := m\<rparr>"
    using assms(5) by (cases w) (simp add: s)
  ultimately show ?thesis using h world_reaches_trans [OF reach] by auto
qed

theorem started_task_frees_itself_witness:
  "\<exists>fs s m. task_start (Some 0) (frames chain_world) scheduler_init = Inr (None, fs, s) \<and>
     world_reaches (chain_world\<lparr>frames := fs, sched := s\<rparr>)
       (chain_world\<lparr>frames := fmdrop 0 (frames chain_world), fresh := m, sched := scheduler_init\<rparr>)"
proof -
  let ?w = "chain_world\<lparr>sched := scheduler_init\<rparr>"
  obtain h fs s where start: "task_start (Some 0) (frames ?w) (sched ?w) = Inr (h, fs, s)"
    using chain_world_ready(1) by (simp add: task_start_def)
  then have "h = None \<and> (\<exists>m. world_reaches (?w\<lparr>frames := fs, sched := s\<rparr>)
      (?w\<lparr>frames := fmdrop 0 (frames ?w), fresh := m\<rparr>))"
    using chain_world_ready by (intro started_task_frees_itself [of ?w 0 Value_promise chain_prog]) simp_all
  with start show ?thesis by (auto simp: chain_world_def)
qed

text \<open>
  Single consumer. Awaiting a completed \<open>task<T>\<close> moves the value out of the promise; whoever awaits
  it again gets a moved-from object. An exception, in contrast, is rethrown every time.
\<close>
lemma task_value_is_consumed_once:
  "task_await_resume (Some c) fs = Inr (r, fs') \<Longrightarrow>
   task_await_resume (Some c) fs' =
     Inr (case r of Inr (Some v) \<Rightarrow> Inr (Some V_moved_from) | _ \<Rightarrow> r, fs')"
  by (auto simp: task_await_resume_def split: option.splits if_splits)

text \<open>
  Awaiting an empty task is undefined behaviour: \<open>await_ready\<close> answers "ready" for a null handle,
  so \<open>await_resume\<close> goes on to read the promise through it.
\<close>
lemma await_empty_task_undefined:
  "world_step (w\<lparr>cur := Some (c, Co_await task_empty k)\<rparr>) = Inl Null_dereference"
  by (simp add: world_step_def co_step_def co_await_task_def task_await_ready_def
      task_await_resume_def task_empty_def)

end
