(* ===== verification/Async_Spawn.thy ===== *)
theory Async_Spawn
  imports Async_Task
begin

text \<open>
  Detached coroutines (\<open>include/vix/async/core/spawn.hpp\<close>): \<open>make_detached\<close> wraps a \<open>task<void>\<close> in a
  coroutine that destroys itself, \<open>spawn_detached\<close> posts it. The promise of \<open>detached_task\<close> (its
  final awaiter and its empty \<open>unhandled_exception\<close>) is the kind \<open>Detached_promise\<close> of the task
  theory.
\<close>

section \<open>Operations\<close>

text \<open>The coroutine \<open>make_detached(task<void> t)\<close>: \<open>co_await t; co_return;\<close>.\<close>

definition make_detached :: "handle \<Rightarrow> 's body" where
  "make_detached t =
     Co_await t (\<lambda>r. case r of Inl e \<Rightarrow> Co_throw e | Inr _ \<Rightarrow> Co_return None)"

text \<open>Moving a \<open>detached_task\<close> transfers the handle; its destructor leaves the frame alone.\<close>

definition detached_task_move :: "handle \<Rightarrow> handle \<times> handle" where
  "detached_task_move o_h = (o_h, None)"

definition detached_task_move_assign :: "bool \<Rightarrow> handle \<Rightarrow> handle \<Rightarrow> handle \<times> handle" where
  "detached_task_move_assign same this other = (if same then (this, other) else (other, None))"

definition spawn_detached :: "handle \<Rightarrow> 's world \<Rightarrow> 's world" where
  "spawn_detached t w =
     w\<lparr>frames := fmupd (fresh w) (frame_new Detached_promise (make_detached t) [t]) (frames w),
       fresh := Suc (fresh w),
       sched := io_context_post_handle (Some (fresh w)) (sched w)\<rparr>"

section \<open>Lemmas\<close>

lemma completion_resumes_awaiter:
  assumes "fmlookup (frames w) t = Some g" "kind (prom g) = Void_promise"
    and "continuation (prom g) = Some c" "exception (prom g) = None"
    and "fmlookup (frames w) c = Some f" "point f = Awaiting (Some t) k" "c \<noteq> t"
    and "outcome_typed Void_promise r"
  shows "co_complete t r w =
    Inr (w\<lparr>frames := fmupd t (g\<lparr>prom := promise_complete r (prom g), point := At_end\<rparr>)
            (fmupd c (f\<lparr>point := Executing\<rparr>) (frames w)), cur := Some (c, k r)\<rparr>)"
  using assms
  by (cases r)
    (auto simp: co_complete_def Let_def promise_final_suspend_def promise_complete_def
      final_await_suspend_def promise_unhandled_exception_def promise_return_void_def
      resume_frame_def task_await_resume_def outcome_typed_def fmupd_reorder_neq
      split: option.splits)

lemma detached_pair_destroyed:
  assumes "c \<noteq> t" "fmlookup fs c = None"
    and "\<not> frame_executing f" "owned f = [Some t]" "\<not> frame_executing g" "owned g = []"
  shows "destroy_all [Some c] (fmupd c f (fmupd t g fs)) = Inr (fmdrop t fs)"
  using assms by (simp add: fmdrop_fmupd fmdrop_fresh)

text \<open>The heap while the detached coroutine \<open>d\<close> awaits the task \<open>t\<close>.\<close>

definition spawn_heap :: "coro \<Rightarrow> coro \<Rightarrow> promise \<Rightarrow> 's point \<Rightarrow> 's point \<Rightarrow> 's heap \<Rightarrow> 's heap" where
  "spawn_heap d t q dpt tpt fs =
     fmupd t \<lparr>prom = q, point = tpt, owned = []\<rparr>
       (fmupd d \<lparr>prom = promise_new Detached_promise, point = dpt, owned = [Some t]\<rparr> fs)"

abbreviation spawn_resumption :: "exn + val option \<Rightarrow> 's body" where
  "spawn_resumption r \<equiv> (case r of Inl e \<Rightarrow> Co_throw e | Inr _ \<Rightarrow> Co_return None)"

lemma spawn_begins:
  assumes "fmlookup (frames w) t = Some (frame_new Void_promise b [])" "t \<noteq> fresh w"
    and "handle_q (sched w) = []" "cur w = None"
  shows "world_run 2 (spawn_detached (Some t) w) =
    Inr (w\<lparr>frames := spawn_heap (fresh w) t ((promise_new Void_promise)\<lparr>continuation := Some (fresh w)\<rparr>)
             (Awaiting (Some t) spawn_resumption) Executing (frames w),
           fresh := Suc (fresh w), cur := Some (t, b)\<rparr>)"
proof -
  have q: "(sched w)\<lparr>handle_q := []\<rparr> = sched w" using assms(3) by (cases "sched w") simp
  show ?thesis
    using assms q
    by (cases w)
      (simp add: numeral_2_eq_2 spawn_detached_def loop_step_def scheduler_pick_def
        scheduler_wait_pred_def scheduler_select_def async_ops machine_ops task_awaiter_ops
        make_detached_def spawn_heap_def fmupd_reorder_neq)
qed

lemma heap_ok_spawn:
  "heap_ok n fs \<Longrightarrow> fmlookup fs t = Some f \<Longrightarrow> heap_ok (Suc n) (spawn_heap n t q pt pt' fs)"
  by (fastforce simp: heap_ok_def spawn_heap_def split: if_splits)

lemma spawn_ends:
  assumes "fmlookup (frames w) t \<noteq> None" "t \<noteq> d" "fmlookup (frames w) d = None"
    and "outcome_typed Void_promise r"
  shows "world_run 2
      (w\<lparr>frames := spawn_heap d t ((promise_new Void_promise)\<lparr>continuation := Some d\<rparr>)
             (Awaiting (Some t) spawn_resumption) Executing (frames w),
         fresh := m, cur := Some (t, outcome_body r)\<rparr>) =
    Inr (w\<lparr>frames := fmdrop t (frames w), fresh := m, cur := None\<rparr>)"
proof -
  let ?w = "w\<lparr>frames := spawn_heap d t ((promise_new Void_promise)\<lparr>continuation := Some d\<rparr>)
    (Awaiting (Some t) spawn_resumption) Executing (frames w), fresh := m, cur := Some (t, outcome_body r)\<rparr>"
  let ?q = "promise_complete r ((promise_new Void_promise)\<lparr>continuation := Some d\<rparr>)"
  let ?v = "?w\<lparr>frames := spawn_heap d t ?q Executing At_end (frames w), cur := Some (d, spawn_resumption r)\<rparr>"
  have "world_step ?w = co_complete t r ?w" by (rule world_step_outcome) simp
  also have "\<dots> = Inr ?v"
    using assms completion_resumes_awaiter [of ?w t _ d _ spawn_resumption r]
    by (simp add: spawn_heap_def promise_new_def fmupd_reorder_neq)
  finally have first: "world_step ?w = Inr ?v" .
  let ?o = "case r of Inl e \<Rightarrow> Inl e | Inr _ \<Rightarrow> Inr None"
  have "world_step ?v = co_complete d ?o ?v"
    by (rule world_step_outcome) (simp add: outcome_body_def split: sum.splits)
  also have "\<dots> = Inr (w\<lparr>frames := fmdrop t (frames w), fresh := m, cur := None\<rparr>)"
    using assms co_complete_detached_kind [of ?v d _ ?o]
    by (simp add: spawn_heap_def promise_new_def fmupd_reorder_neq fmdrop_fmupd fmdrop_fresh
        frame_executing_def)
  finally show ?thesis using first by (simp add: numeral_2_eq_2)
qed

section \<open>Properties\<close>

text \<open>
  C10: \<open>spawn_detached\<close> neither leaks nor dangles. For a task that returns, throws and awaits other tasks
  to any depth, the loop runs the detached coroutine to completion without undefined behaviour; then
  both its frame and the task's frame have been freed, the rest of the heap is unchanged, and an
  exception of the task has been swallowed.
\<close>
theorem spawn_detached_completes_without_leak:
  assumes "fmlookup (frames w) t = Some (frame_new Void_promise (prog_body p) [])"
    and "heap_ok (fresh w) (frames w)" and "prog_typed Void_promise p"
    and "handle_q (sched w) = []" and "cur w = None"
  shows "\<exists>m. world_reaches (spawn_detached (Some t) w)
    (w\<lparr>frames := fmdrop t (frames w), fresh := m\<rparr>)"
proof -
  let ?d = "fresh w"
  let ?q = "(promise_new Void_promise)\<lparr>continuation := Some ?d\<rparr>"
  let ?w = "w\<lparr>frames := spawn_heap ?d t ?q (Awaiting (Some t) spawn_resumption) Executing (frames w),
    fresh := Suc ?d\<rparr>"
  have td: "t \<noteq> ?d" and new: "fmlookup (frames w) ?d = None"
    using assms(1,2) by (auto simp: heap_ok_def) (metis less_irrefl_nat not_None_eq)
  have lookup: "fmlookup (frames ?w) t = Some \<lparr>prom = ?q, point = Executing, owned = []\<rparr>"
    by (simp add: spawn_heap_def)
  obtain m where child: "world_reaches (?w\<lparr>cur := Some (t, prog_body p)\<rparr>)
      (?w\<lparr>fresh := m, cur := Some (t, outcome_body (prog_eval p))\<rparr>)"
    using prog_runs [of ?w t "\<lparr>prom = ?q, point = Executing, owned = []\<rparr>" Void_promise p] assms(3)
      heap_ok_spawn [OF assms(2,1)] lookup by auto
  have "world_reaches (spawn_detached (Some t) w) (?w\<lparr>cur := Some (t, prog_body p)\<rparr>)"
    using spawn_begins [OF assms(1) td assms(4,5)] by (intro world_reaches_run [of 2]) simp
  also note child
  also have "world_reaches (?w\<lparr>fresh := m, cur := Some (t, outcome_body (prog_eval p))\<rparr>)
      (w\<lparr>frames := fmdrop t (frames w), fresh := m, cur := None\<rparr>)"
    using spawn_ends [of w t ?d "prog_eval p" m] assms(1) td new prog_typed_outcome [OF assms(3)]
    by (intro world_reaches_run [of 2]) simp
  also have "w\<lparr>frames := fmdrop t (frames w), fresh := m, cur := None\<rparr> =
      w\<lparr>frames := fmdrop t (frames w), fresh := m\<rparr>"
    using assms(5) by (cases w) simp
  finally show ?thesis by blast
qed

theorem spawn_detached_completes_without_leak_witness:
  "\<exists>m. world_reaches
     (spawn_detached (Some 0)
       \<lparr>frames = fmupd 0 (frame_new Void_promise (prog_body (P_throw (Runtime_error ''boom''))) []) fmempty,
        fresh = 1, cur = None, sched = scheduler_init, shared = ()\<rparr>)
     \<lparr>frames = fmempty, fresh = m, cur = None, sched = scheduler_init, shared = ()\<rparr>"
proof -
  let ?w = "\<lparr>frames = fmupd 0 (frame_new Void_promise (prog_body (P_throw (Runtime_error ''boom''))) []) fmempty,
        fresh = 1, cur = None, sched = scheduler_init, shared = ()\<rparr>"
  have "\<exists>m. world_reaches (spawn_detached (Some 0) ?w) (?w\<lparr>frames := fmdrop 0 (frames ?w), fresh := m\<rparr>)"
    by (rule spawn_detached_completes_without_leak [where p = "P_throw (Runtime_error ''boom'')"])
      (simp_all add: heap_ok_def frame_new_def)
  then show ?thesis by (simp add: fmdrop_fmupd)
qed

end
