(* ===== verification/Async_When.thy ===== *)
theory Async_When
  imports Async_Task
begin

text \<open>
  Aggregation of tasks (\<open>include/vix/async/core/when.hpp\<close>): the shared states of \<open>when_all\<close> and
  \<open>when_any\<close>, their runner coroutines and their awaitables. The model covers tasks with a result (for
  \<open>task<void>\<close> arguments the source does not instantiate: the calls \<open>store_into<T>\<close> and
  \<open>materialize_one<Ts>\<close> name a template argument, which excludes the overloads meant for \<open>void\<close>).
\<close>

section \<open>Result slots\<close>

text \<open>A tuple of \<open>std::optional\<close> slots, one per task, in the order of the arguments.\<close>

type_synonym slots = "val option list"

definition store_into :: "nat \<Rightarrow> val \<Rightarrow> slots \<Rightarrow> slots" where
  "store_into i v slots = slots[i := Some v]"

definition materialize_one :: "val option \<Rightarrow> ub + val" where
  "materialize_one slot = (case slot of None \<Rightarrow> Inl Empty_optional | Some v \<Rightarrow> Inr v)"

fun materialize_tuple :: "slots \<Rightarrow> ub + val list" where
  "materialize_tuple [] = Inr []"
| "materialize_tuple (s # ss) =
     (case materialize_one s of
        Inl u \<Rightarrow> Inl u
      | Inr v \<Rightarrow> (case materialize_tuple ss of Inl u \<Rightarrow> Inl u | Inr vs \<Rightarrow> Inr (v # vs)))"

section \<open>\<open>when_all\<close>\<close>

type_synonym size_t = "64 word"

record when_all_state =
  wa_sched :: bool
  wa_remaining :: size_t
  wa_cont :: handle
  wa_first_ex :: "exn option"
  wa_results :: slots

text \<open>\<open>wa_sched\<close>: the scheduler pointer is set. \<open>n\<close> is \<open>sizeof...(Ts)\<close>.\<close>

definition when_all_state_new :: "nat \<Rightarrow> when_all_state" where
  "when_all_state_new n =
     \<lparr>wa_sched = False, wa_remaining = of_nat n, wa_cont = None, wa_first_ex = None,
      wa_results = replicate n None\<rparr>"

text \<open>The \<open>try\<close>/\<open>catch\<close> of the runner: store the value, or keep the first exception.\<close>

definition when_all_record :: "nat \<Rightarrow> exn + val \<Rightarrow> when_all_state \<Rightarrow> when_all_state" where
  "when_all_record i r st =
     (case r of
        Inr v \<Rightarrow> st\<lparr>wa_results := store_into i v (wa_results st)\<rparr>
      | Inl e \<Rightarrow> if wa_first_ex st = None then st\<lparr>wa_first_ex := Some e\<rparr> else st)"

text \<open>What the end of a runner does with the awaiting coroutine.\<close>

datatype wakeup = No_wakeup | Post_wakeup handle | Inline_wakeup coro

definition when_all_arrive :: "when_all_state \<Rightarrow> when_all_state \<times> wakeup" where
  "when_all_arrive st =
     (st\<lparr>wa_remaining := wa_remaining st - 1\<rparr>,
      if wa_remaining st = 1 then
        (if wa_sched st then Post_wakeup (wa_cont st)
         else (case wa_cont st of Some c \<Rightarrow> Inline_wakeup c | None \<Rightarrow> No_wakeup))
      else No_wakeup)"

text \<open>The part of \<open>when_all_runner\<close> after its \<open>co_await\<close>.\<close>

definition when_all_runner_end :: "nat \<Rightarrow> exn + val \<Rightarrow> when_all_state \<Rightarrow> when_all_state \<times> wakeup" where
  "when_all_runner_end i r st = when_all_arrive (when_all_record i r st)"

definition when_all_await_ready :: bool where
  "when_all_await_ready = False"

text \<open>\<open>await_suspend\<close> up to \<open>start_all\<close>: the shared state is created and filled in.\<close>

definition when_all_await_suspend :: "nat \<Rightarrow> bool \<Rightarrow> handle \<Rightarrow> when_all_state" where
  "when_all_await_suspend n has_sched h = (when_all_state_new n)\<lparr>wa_sched := has_sched, wa_cont := h\<rparr>"

definition when_all_await_resume :: "when_all_state \<Rightarrow> ub + (exn + val)" where
  "when_all_await_resume st =
     (case wa_first_ex st of
        Some e \<Rightarrow> Inr (Inl e)
      | None \<Rightarrow>
          (case materialize_tuple (wa_results st) of
             Inl u \<Rightarrow> Inl u
           | Inr vs \<Rightarrow> Inr (Inr (V_tuple vs))))"

section \<open>\<open>when_any\<close>\<close>

record when_any_state =
  wy_sched :: bool
  wy_done :: bool
  wy_cont :: handle
  wy_ex :: "exn option"
  wy_index :: size_t
  wy_results :: slots

definition when_any_state_new :: "nat \<Rightarrow> when_any_state" where
  "when_any_state_new n =
     \<lparr>wy_sched = False, wy_done = False, wy_cont = None, wy_ex = None, wy_index = - 1,
      wy_results = replicate n None\<rparr>"

definition when_any_record :: "nat \<Rightarrow> exn + val \<Rightarrow> when_any_state \<Rightarrow> when_any_state" where
  "when_any_record i r st =
     (case r of
        Inr v \<Rightarrow> st\<lparr>wy_results := store_into i v (wy_results st)\<rparr>
      | Inl e \<Rightarrow> if wy_ex st = None then st\<lparr>wy_ex := Some e\<rparr> else st)"

definition when_any_arrive :: "nat \<Rightarrow> when_any_state \<Rightarrow> when_any_state \<times> wakeup" where
  "when_any_arrive i st =
     (if \<not> wy_done st then
        (st\<lparr>wy_done := True, wy_index := of_nat i\<rparr>,
         if wy_sched st then Post_wakeup (wy_cont st)
         else (case wy_cont st of Some c \<Rightarrow> Inline_wakeup c | None \<Rightarrow> No_wakeup))
      else (st, No_wakeup))"

definition when_any_runner_end :: "nat \<Rightarrow> exn + val \<Rightarrow> when_any_state \<Rightarrow> when_any_state \<times> wakeup" where
  "when_any_runner_end i r st = when_any_arrive i (when_any_record i r st)"

definition when_any_await_ready :: bool where
  "when_any_await_ready = False"

definition when_any_await_suspend :: "nat \<Rightarrow> bool \<Rightarrow> handle \<Rightarrow> when_any_state" where
  "when_any_await_suspend n has_sched h = (when_any_state_new n)\<lparr>wy_sched := has_sched, wy_cont := h\<rparr>"

definition when_any_await_resume :: "when_any_state \<Rightarrow> exn + (size_t \<times> slots)" where
  "when_any_await_resume st =
     (case wy_ex st of Some e \<Rightarrow> Inl e | None \<Rightarrow> Inr (wy_index st, wy_results st))"

text \<open>The rest of the coroutine \<open>when_any\<close> after its \<open>co_await\<close>: build the result pair.\<close>

definition when_any_result :: "when_any_state \<Rightarrow> ub + (exn + (size_t \<times> val list))" where
  "when_any_result st =
     (case when_any_await_resume st of
        Inl e \<Rightarrow> Inr (Inl e)
      | Inr (idx, raw) \<Rightarrow>
          (case materialize_tuple raw of
             Inl u \<Rightarrow> Inl u
           | Inr vs \<Rightarrow> Inr (Inr (idx, vs))))"

section \<open>The coroutines\<close>

text \<open>
  The runner awaits its task and then runs its end; a wake-up posts the awaiting coroutine (the
  scheduler of \<open>when_all\<close> and \<open>when_any\<close> is a reference, so never null). \<open>'s\<close> is the store the
  shared state lives in, read and written through \<open>get\<close> and \<open>put\<close>.
\<close>

definition wakeup_posts :: "wakeup \<Rightarrow> handle list" where
  "wakeup_posts wk = (case wk of Post_wakeup h \<Rightarrow> [h] | _ \<Rightarrow> [])"

definition await_outcome :: "exn + val option \<Rightarrow> exn + val" where
  "await_outcome r = (case r of Inl e \<Rightarrow> Inl e | Inr (Some v) \<Rightarrow> Inr v | Inr None \<Rightarrow> Inr V_monostate)"

definition when_all_runner :: "nat \<Rightarrow> handle \<Rightarrow> when_all_state body" where
  "when_all_runner i t =
     Co_await t (\<lambda>r. Co_do (\<lambda>st.
       case when_all_runner_end i (await_outcome r) st of
         (st', wk) \<Rightarrow> (st', wakeup_posts wk, Co_return None)))"

text \<open>\<open>start_all\<close>: for each task in order, create a runner that takes the task over and start it.\<close>

primrec when_all_start_all :: "nat \<Rightarrow> handle list \<Rightarrow> when_all_state body \<Rightarrow> when_all_state body" where
  "when_all_start_all i [] b = b"
| "when_all_start_all i (t # ts) b =
     Co_call Void_promise (when_all_runner i t) [t]
       (\<lambda>r. Co_start r (when_all_start_all (Suc i) ts b))"

definition when_all :: "handle list \<Rightarrow> when_all_state body" where
  "when_all ts =
     Co_schedule (Co_self (\<lambda>h. Co_do (\<lambda>_.
       (when_all_await_suspend (length ts) True h, [],
        when_all_start_all 0 ts (Co_suspend (Co_do (\<lambda>st. (st, [],
          case when_all_await_resume st of
            Inl u \<Rightarrow> Co_undefined u
          | Inr (Inl e) \<Rightarrow> Co_throw e
          | Inr (Inr v) \<Rightarrow> Co_return (Some v)))))))))"

definition when_any_runner :: "nat \<Rightarrow> handle \<Rightarrow> when_any_state body" where
  "when_any_runner i t =
     Co_await t (\<lambda>r. Co_do (\<lambda>st.
       case when_any_runner_end i (await_outcome r) st of
         (st', wk) \<Rightarrow> (st', wakeup_posts wk, Co_return None)))"

primrec when_any_start_all :: "nat \<Rightarrow> handle list \<Rightarrow> when_any_state body \<Rightarrow> when_any_state body" where
  "when_any_start_all i [] b = b"
| "when_any_start_all i (t # ts) b =
     Co_call Void_promise (when_any_runner i t) [t]
       (\<lambda>r. Co_start r (when_any_start_all (Suc i) ts b))"

definition when_any :: "handle list \<Rightarrow> when_any_state body" where
  "when_any ts =
     Co_schedule (Co_self (\<lambda>h. Co_do (\<lambda>_.
       (when_any_await_suspend (length ts) True h, [],
        when_any_start_all 0 ts (Co_suspend (Co_do (\<lambda>st. (st, [],
          case when_any_result st of
            Inl u \<Rightarrow> Co_undefined u
          | Inr (Inl e) \<Rightarrow> Co_throw e
          | Inr (Inr (idx, vs)) \<Rightarrow> Co_return (Some (V_tuple [V_index (unat idx), V_tuple vs]))))))))))"


section \<open>Completions in any order\<close>

text \<open>
  The runners finish in some order: a completion is the index of a task with what awaiting it gave.
  \<open>decrement\<close>, store and compare are atomic in the source, so an execution is a sequence of these.
\<close>

type_synonym completion = "nat \<times> (exn + val)"

definition when_all_step :: "when_all_state \<Rightarrow> completion \<Rightarrow> when_all_state" where
  "when_all_step st cm = fst (when_all_runner_end (fst cm) (snd cm) st)"

definition when_all_posts :: "when_all_state \<Rightarrow> completion \<Rightarrow> handle list" where
  "when_all_posts st cm = wakeup_posts (snd (when_all_runner_end (fst cm) (snd cm) st))"

definition when_any_step :: "when_any_state \<Rightarrow> completion \<Rightarrow> when_any_state" where
  "when_any_step st cm = fst (when_any_runner_end (fst cm) (snd cm) st)"

definition when_any_posts :: "when_any_state \<Rightarrow> completion \<Rightarrow> handle list" where
  "when_any_posts st cm = wakeup_posts (snd (when_any_runner_end (fst cm) (snd cm) st))"

text \<open>What the completions so far amount to: the first exception, and the value of each index.\<close>

fun first_exception :: "completion list \<Rightarrow> exn option" where
  "first_exception [] = None"
| "first_exception ((i, Inl e) # cms) = Some e"
| "first_exception ((i, Inr v) # cms) = first_exception cms"

definition completed_value :: "completion list \<Rightarrow> nat \<Rightarrow> val option" where
  "completed_value cms i = (case map_of cms i of Some (Inr v) \<Rightarrow> Some v | _ \<Rightarrow> None)"

definition slots_of :: "nat \<Rightarrow> completion list \<Rightarrow> slots" where
  "slots_of n cms = map (completed_value cms) [0..<n]"

section \<open>Lemmas\<close>

lemmas when_ops [async_ops] =
  when_all_runner_end_def when_all_arrive_def when_all_record_def when_all_step_def when_all_posts_def
  when_any_runner_end_def when_any_arrive_def when_any_record_def when_any_step_def when_any_posts_def
  wakeup_posts_def store_into_def

lemma first_exception_snoc:
  "first_exception (cms @ [(i, r)]) =
     (case first_exception cms of
        Some e \<Rightarrow> Some e
      | None \<Rightarrow> (case r of Inl e \<Rightarrow> Some e | Inr _ \<Rightarrow> None))"
  by (induction cms rule: first_exception.induct) (auto split: sum.splits)

lemma first_exception_none:
  "first_exception cms = None \<longleftrightarrow> (\<forall>(i, r) \<in> set cms. \<exists>v. r = Inr v)"
  by (induction cms rule: first_exception.induct) auto

lemma slots_of_snoc:
  assumes "i \<notin> fst ` set cms" "i < n"
  shows "slots_of n (cms @ [(i, r)]) =
    (case r of Inr v \<Rightarrow> (slots_of n cms)[i := Some v] | Inl _ \<Rightarrow> slots_of n cms)"
proof -
  have "map_of cms i = None" using assms(1) by (simp add: map_of_eq_None_iff)
  then show ?thesis using assms(2)
    by (auto simp: slots_of_def completed_value_def list_eq_iff_nth_eq nth_list_update map_add_def
        split: option.splits sum.splits)
qed

lemma materialize_tuple_slots:
  "materialize_tuple ss =
     (if None \<in> set ss then Inl Empty_optional else Inr (map the ss))"
  by (induction ss) (auto simp: materialize_one_def split: option.splits sum.splits)

lemma size_t_of_nat_eq:
  "m < 2 ^ 64 \<Longrightarrow> n < 2 ^ 64 \<Longrightarrow> (of_nat m :: size_t) = of_nat n \<longleftrightarrow> m = n"
  by (auto simp: unsigned_of_nat take_bit_nat_eq_self dest!: arg_cong [where f = unat])

text \<open>An execution: each index at most once, all of them in range.\<close>

definition completions_of :: "nat \<Rightarrow> completion list \<Rightarrow> bool" where
  "completions_of n cms \<longleftrightarrow> distinct (map fst cms) \<and> (\<forall>cm \<in> set cms. fst cm < n)"

lemma completions_of_snoc:
  "completions_of n (cms @ [cm]) \<longleftrightarrow>
     completions_of n cms \<and> fst cm \<notin> fst ` set cms \<and> fst cm < n"
  by (auto simp: completions_of_def)

lemma completions_length: "completions_of n cms \<Longrightarrow> length cms \<le> n"
proof -
  assume "completions_of n cms"
  then have "distinct (map fst cms)" "set (map fst cms) \<subseteq> {..<n}" by (auto simp: completions_of_def)
  then have "card (set (map fst cms)) \<le> n" by (metis card_lessThan card_mono finite_lessThan)
  with \<open>distinct (map fst cms)\<close> show ?thesis by (metis distinct_card length_map)
qed

lemma completions_full:
  "completions_of n cms \<Longrightarrow> length cms = n \<Longrightarrow> fst ` set cms = {..<n}"
  by (rule card_subset_eq) (auto simp: completions_of_def dest: distinct_card)

lemma when_all_state_after:
  assumes "completions_of n cms"
  shows "run_events when_all_step (when_all_await_suspend n True h) cms =
    \<lparr>wa_sched = True, wa_remaining = of_nat n - of_nat (length cms), wa_cont = h,
     wa_first_ex = first_exception cms, wa_results = slots_of n cms\<rparr>"
  using assms
proof (induction cms rule: rev_induct)
  case Nil
  have "slots_of n [] = replicate n None"
    by (rule replicate_eqI) (auto simp: slots_of_def completed_value_def)
  then show ?case by (simp add: when_all_await_suspend_def when_all_state_new_def)
next
  case (snoc cm cms)
  then show ?case
    by (cases cm)
      (auto simp: run_events_append completions_of_snoc async_ops first_exception_snoc slots_of_snoc
        split: sum.splits option.splits)
qed

lemma when_all_posts_after:
  assumes "completions_of n cms" "n < 2 ^ 64"
  shows "log_events when_all_step when_all_posts (when_all_await_suspend n True h) cms =
    (if cms \<noteq> [] \<and> length cms = n then [h] else [])"
  using assms(1)
proof (induction cms rule: rev_induct)
  case (snoc cm cms)
  then have comp: "completions_of n cms" and len: "Suc (length cms) \<le> n"
    using completions_length [OF snoc.prems] by (auto simp: completions_of_snoc)
  let ?st = "run_events when_all_step (when_all_await_suspend n True h) cms"
  have "wa_remaining ?st = of_nat (n - length cms)"
    using len by (simp add: when_all_state_after [OF comp] of_nat_diff)
  then have "wa_remaining ?st = 1 \<longleftrightarrow> n = Suc (length cms)"
    using size_t_of_nat_eq [of "n - length cms" 1] assms(2) len by auto
  moreover have "when_all_posts ?st cm = (if wa_remaining ?st = 1 then [h] else [])"
    by (cases "snd cm") (simp_all add: async_ops when_all_state_after [OF comp])
  ultimately show ?case using snoc.IH [OF comp] len
    by (auto simp: log_events_append)
qed simp

lemma slots_of_full:
  assumes "completions_of n cms" "first_exception cms = None"
  shows "None \<notin> set (slots_of n cms) \<longleftrightarrow> length cms = n"
proof
  assume full: "length cms = n"
  have "completed_value cms i \<noteq> None" if "i < n" for i
  proof -
    have "i \<in> fst ` set cms" using completions_full [OF assms(1) full] that by simp
    then obtain r where "map_of cms i = Some r"
      by (metis map_of_eq_None_iff not_None_eq)
    moreover obtain v where "r = Inr v"
      using assms(2) map_of_SomeD [OF \<open>map_of cms i = Some r\<close>] by (auto simp: first_exception_none)
    ultimately show ?thesis by (simp add: completed_value_def)
  qed
  then show "None \<notin> set (slots_of n cms)" by (fastforce simp: slots_of_def)
next
  assume all: "None \<notin> set (slots_of n cms)"
  have "{..<n} \<subseteq> fst ` set cms"
  proof
    fix i assume "i \<in> {..<n}"
    with all have "completed_value cms i \<noteq> None" by (force simp: slots_of_def)
    then show "i \<in> fst ` set cms"
      by (auto simp: completed_value_def split: option.splits dest!: map_of_SomeD intro: rev_image_eqI)
  qed
  then have "n \<le> card (fst ` set cms)" by (metis card_lessThan card_mono finite_imageI finite_set)
  then show "length cms = n"
    using completions_length [OF assms(1)] card_image_le [of "set cms" fst] card_length [of cms] by simp
qed

lemma when_any_state_after:
  assumes "completions_of n cms"
  shows "run_events when_any_step (when_any_await_suspend n True h) cms =
    \<lparr>wy_sched = True, wy_done = (cms \<noteq> []), wy_cont = h, wy_ex = first_exception cms,
     wy_index = (if cms = [] then - 1 else of_nat (fst (hd cms))), wy_results = slots_of n cms\<rparr>"
  using assms
proof (induction cms rule: rev_induct)
  case Nil
  have "slots_of n [] = replicate n None"
    by (rule replicate_eqI) (auto simp: slots_of_def completed_value_def)
  then show ?case by (simp add: when_any_await_suspend_def when_any_state_new_def)
next
  case (snoc cm cms)
  then show ?case
    by (cases cm)
      (auto simp: run_events_append completions_of_snoc async_ops first_exception_snoc slots_of_snoc
        hd_append split: sum.splits option.splits)
qed

lemma when_any_posts_after:
  assumes "completions_of n cms"
  shows "log_events when_any_step when_any_posts (when_any_await_suspend n True h) cms = (if cms = [] then [] else [h])"
  using assms
proof (induction cms rule: rev_induct)
  case (snoc cm cms)
  then have comp: "completions_of n cms" by (simp add: completions_of_snoc)
  let ?st = "run_events when_any_step (when_any_await_suspend n True h) cms"
  have "when_any_posts ?st cm = (if cms = [] then [h] else [])"
    by (cases "snd cm") (simp_all add: async_ops when_any_state_after [OF comp])
  then show ?case using snoc.IH [OF comp] by (auto simp: log_events_append)
qed simp

section \<open>Properties\<close>

text \<open>
  C11: \<open>when_all\<close> waits for all, whatever the order. For at least one and fewer than \<open>2\<^sup>6\<^sup>4\<close> tasks that
  complete in any order, the awaiting coroutine is posted exactly once, by the last completion; it then
  gets the first exception in the order of completion if there was one, and otherwise the tuple of all
  values in the order of the arguments.
\<close>
theorem when_all_any_order:
  fixes n h
  defines "init \<equiv> when_all_await_suspend n True h"
  assumes "completions_of n cms" "length cms = n" "0 < n" "n < 2 ^ 64"
  shows "log_events when_all_step when_all_posts init (butlast cms) = [] \<and>
    log_events when_all_step when_all_posts init cms = [h] \<and>
    when_all_await_resume (run_events when_all_step init cms) =
      Inr (case first_exception cms of
             Some e \<Rightarrow> Inl e
           | None \<Rightarrow> Inr (V_tuple (map (\<lambda>i. the (completed_value cms i)) [0..<n])))"
proof -
  have snoc: "butlast cms @ [last cms] = cms" using assms(3,4) by (intro append_butlast_last_id) auto
  then have front: "completions_of n (butlast cms)" using assms(2) by (metis completions_of_snoc)
  have "log_events when_all_step when_all_posts init (butlast cms) = []" "log_events when_all_step when_all_posts init cms = [h]"
    using when_all_posts_after [OF front assms(5)] when_all_posts_after [OF assms(2,5)] assms(3,4)
    unfolding init_def by (cases cms; auto)+
  moreover have "first_exception cms = None \<Longrightarrow> None \<notin> set (slots_of n cms)"
    using slots_of_full [OF assms(2)] assms(3) by simp
  ultimately show ?thesis
    unfolding init_def
    by (auto simp: when_all_state_after [OF assms(2)] when_all_await_resume_def materialize_tuple_slots
        slots_of_def split: option.splits)
qed

theorem when_all_any_order_witness:
  "log_events when_all_step when_all_posts (when_all_await_suspend 2 True (Some 5)) [(1, Inr (V_int 20)), (0, Inr (V_int 10))]
     = [Some 5] \<and>
   when_all_await_resume (run_events when_all_step (when_all_await_suspend 2 True (Some 5))
     [(1, Inr (V_int 20)), (0, Inr (V_int 10))]) = Inr (Inr (V_tuple [V_int 10, V_int 20]))"
  using when_all_any_order [of 2 "[(1, Inr (V_int 20)), (0, Inr (V_int 10))]" "Some 5"]
  by (simp add: completions_of_def completed_value_def upt_conv_Cons del: log_events.simps)

text \<open>
  C26: \<open>when_any\<close> wakes its awaiter exactly once, on the first completion, and records the index of that
  completion; later completions change neither.
\<close>
theorem when_any_first_completion_wins:
  assumes "completions_of n ((i, r) # cms)" "n < 2 ^ 64"
  shows "log_events when_any_step when_any_posts (when_any_await_suspend n True h) ((i, r) # cms) = [h] \<and>
    unat (wy_index (run_events when_any_step (when_any_await_suspend n True h) ((i, r) # cms))) = i"
proof -
  have "i < n" using assms(1) by (auto simp: completions_of_def)
  then show ?thesis
    using assms(2) when_any_state_after [OF assms(1)] when_any_posts_after [OF assms(1)]
    by (simp add: unsigned_of_nat take_bit_nat_eq_self)
qed

theorem when_any_first_completion_wins_witness:
  "log_events when_any_step when_any_posts (when_any_await_suspend 2 True (Some 5))
     [(1, Inr (V_int 20)), (0, Inl (Runtime_error ''boom''))] = [Some 5] \<and>
   unat (wy_index (run_events when_any_step (when_any_await_suspend 2 True (Some 5))
     [(1, Inr (V_int 20)), (0, Inl (Runtime_error ''boom''))])) = 1"
  using when_any_first_completion_wins
    [of 2 1 "Inr (V_int 20)" "[(0, Inl (Runtime_error ''boom''))]" "Some 5"]
  by (simp add: completions_of_def)

text \<open>
  C25: What \<open>when_any\<close> returns, by what has completed when its coroutine is resumed. An exception of any
  task that completed by then is rethrown, also when the winner succeeded. Without one, the result is
  defined only if all tasks have completed; if one is still running, its empty slot is dereferenced.
\<close>
theorem when_any_result_needs_all:
  assumes "completions_of n cms" "cms \<noteq> []"
  shows "when_any_result (run_events when_any_step (when_any_await_suspend n True h) cms) =
    (case first_exception cms of
       Some e \<Rightarrow> Inr (Inl e)
     | None \<Rightarrow>
         if length cms < n then Inl Empty_optional
         else Inr (Inr (of_nat (fst (hd cms)), map (\<lambda>i. the (completed_value cms i)) [0..<n])))"
proof -
  have "first_exception cms = None \<Longrightarrow> None \<in> set (slots_of n cms) \<longleftrightarrow> length cms < n"
    using slots_of_full [OF assms(1)] completions_length [OF assms(1)] by auto
  then show ?thesis
    using assms(2)
    by (auto simp: when_any_state_after [OF assms(1)] when_any_result_def when_any_await_resume_def
        materialize_tuple_slots slots_of_def split: option.splits)
qed

theorem when_any_result_needs_all_witness:
  "when_any_result (run_events when_any_step (when_any_await_suspend 2 True (Some 5))
     [(1, Inr (V_int 20))]) = Inl Empty_optional"
  using when_any_result_needs_all [of 2 "[(1, Inr (V_int 20))]" "Some 5"]
  by (simp add: completions_of_def)

end
