(* ===== verification/Async_Gather.thy ===== *)
theory Async_Gather
  imports Async_When
begin

text \<open>
  \<open>when_all\<close> and \<open>when_any\<close> on the machine: the coroutines of \<open>when.hpp\<close> run by the scheduler loop,
  from the moment the combinator is posted to the completion of its promise, with all frames accounted
  for. The tasks given to them return, throw and await other tasks to any depth.
\<close>

section \<open>Runners in general\<close>

text \<open>
  Both combinators start one runner per task. \<open>step\<close> is what the end of a runner does to the shared
  state, \<open>posts\<close> the handles it posts.
\<close>

definition agg_runner ::
  "('s \<Rightarrow> completion \<Rightarrow> 's) \<Rightarrow> ('s \<Rightarrow> completion \<Rightarrow> handle list) \<Rightarrow> nat \<Rightarrow> handle \<Rightarrow> 's body" where
  "agg_runner step posts i t =
     Co_await t (\<lambda>r. Co_do (\<lambda>st.
       (step st (i, await_outcome r), posts st (i, await_outcome r), Co_return None)))"

primrec agg_start_all ::
  "('s \<Rightarrow> completion \<Rightarrow> 's) \<Rightarrow> ('s \<Rightarrow> completion \<Rightarrow> handle list) \<Rightarrow> nat \<Rightarrow> coro list \<Rightarrow> 's body \<Rightarrow> 's body" where
  "agg_start_all step posts i [] b = b"
| "agg_start_all step posts i (t # ts) b =
     Co_call Void_promise (agg_runner step posts i (Some t)) [Some t]
       (\<lambda>r. Co_start r (agg_start_all step posts (Suc i) ts b))"

lemma when_all_runner_agg: "when_all_runner i t = agg_runner when_all_step when_all_posts i t"
  by (simp add: when_all_runner_def agg_runner_def when_all_step_def when_all_posts_def case_prod_beta)

lemma when_any_runner_agg: "when_any_runner i t = agg_runner when_any_step when_any_posts i t"
  by (simp add: when_any_runner_def agg_runner_def when_any_step_def when_any_posts_def case_prod_beta)

lemma when_all_start_all_agg:
  "when_all_start_all i (map Some ts) b = agg_start_all when_all_step when_all_posts i ts b"
  by (induction ts arbitrary: i) (simp_all add: when_all_runner_agg)

lemma when_any_start_all_agg:
  "when_any_start_all i (map Some ts) b = agg_start_all when_any_step when_any_posts i ts b"
  by (induction ts arbitrary: i) (simp_all add: when_any_runner_agg)

lemma post_all_handles: "post_all hs s = s\<lparr>handle_q := handle_q s @ filter (\<lambda>h. h \<noteq> None) hs\<rparr>"
  by (induction hs arbitrary: s) (auto simp: post_all_def scheduler_post_handle_def scheduler_post_def)

section \<open>One runner\<close>

definition runner_promise :: promise where
  "runner_promise = (promise_new Void_promise)\<lparr>detached := True\<rparr>"

definition runner_frame ::
  "('s \<Rightarrow> completion \<Rightarrow> 's) \<Rightarrow> ('s \<Rightarrow> completion \<Rightarrow> handle list) \<Rightarrow> nat \<Rightarrow> coro \<Rightarrow> 's frame" where
  "runner_frame step posts i t =
     \<lparr>prom = runner_promise, point = At_start (agg_runner step posts i (Some t)), owned = [Some t]\<rparr>"

text \<open>The completion of a task resumes the runner with its outcome, the value moved out of the promise.\<close>

lemma value_resumes_awaiter:
  assumes "fmlookup (frames w) t = Some g" "kind (prom g) = Value_promise"
    and "continuation (prom g) = Some c" "exception (prom g) = None"
    and "fmlookup (frames w) c = Some f" "point f = Awaiting (Some t) k" "c \<noteq> t"
    and "outcome_typed Value_promise r"
  shows "\<exists>q. co_complete t r w =
    Inr (w\<lparr>frames := fmupd t (g\<lparr>prom := q, point := At_end\<rparr>)
            (fmupd c (f\<lparr>point := Executing\<rparr>) (frames w)), cur := Some (c, k r)\<rparr>)"
proof -
  note ops = co_complete_def Let_def promise_final_suspend_def promise_complete_def
    final_await_suspend_def promise_unhandled_exception_def promise_return_value_def
    resume_frame_def task_await_resume_def fmupd_reorder_neq
  show ?thesis
  proof (cases r)
    case (Inl e)
    then show ?thesis
      using assms
      by (intro exI [of _ "(prom g)\<lparr>exception := Some e\<rparr>"]; cases g) (simp add: ops)
  next
    case (Inr v)
    with assms(8) obtain x where "v = Some x" by (auto simp: outcome_typed_def)
    with Inr show ?thesis
      using assms
      by (intro exI [of _ "(prom g)\<lparr>pvalue := Some V_moved_from\<rparr>"]; cases g) (simp add: ops)
  qed
qed

lemma runner_finishes:
  assumes "fmlookup fs r = Some f" "kind (prom f) = Void_promise" "continuation (prom f) = None"
    and "detached (prom f)" "owned f = [Some t]" "fmlookup fs t = Some g" "\<not> frame_executing g"
    and "owned g = []" "r \<noteq> t" "frames w = fs" "cur w = Some (r, Co_return None)"
  shows "world_step w = Inr (w\<lparr>frames := fmdrop t (fmdrop r fs), cur := None\<rparr>)"
  using assms
  by (auto simp: world_step_def co_step_def co_complete_def Let_def promise_final_suspend_def
      promise_complete_def promise_return_void_def final_await_suspend_def frame_executing_def
      fmdrop_fmupd split: option.splits)

lemma runner_runs:
  assumes r: "fmlookup (frames w) r = Some (runner_frame step posts i t)"
    and t: "fmlookup (frames w) t = Some (frame_new Value_promise (prog_body p) [])"
    and rt: "r \<noteq> t" and ok: "heap_ok (fresh w) (frames w)" and typed: "prog_typed Value_promise p"
    and queue: "handle_q (sched w) = Some r # hs" "cur w = None"
  defines "cm \<equiv> (i, await_outcome (prog_eval p))"
  shows "\<exists>m. fresh w \<le> m \<and> world_reaches w
    (w\<lparr>frames := fmdrop t (fmdrop r (frames w)), fresh := m, shared := step (shared w) cm,
       sched := (sched w)\<lparr>handle_q := hs @ filter (\<lambda>h. h \<noteq> None) (posts (shared w) cm)\<rparr>\<rparr>)"
proof -
  let ?k = "\<lambda>x. Co_do (\<lambda>st. (step st (i, await_outcome x), posts st (i, await_outcome x), Co_return None))"
  let ?f = "\<lparr>prom = runner_promise, point = Executing, owned = [Some t]\<rparr>"
  let ?g = "\<lparr>prom = (promise_new Value_promise)\<lparr>continuation := Some r\<rparr>, point = Executing, owned = []\<rparr>"
  let ?s = "(sched w)\<lparr>handle_q := hs\<rparr>"
  let ?w0 = "w\<lparr>frames := fmupd r ?f (frames w), cur := Some (r, Co_await (Some t) ?k), sched := ?s\<rparr>"
  let ?fs = "fmupd t ?g (fmupd r (?f\<lparr>point := Awaiting (Some t) ?k\<rparr>) (frames w))"
  let ?w1 = "w\<lparr>frames := ?fs, sched := ?s\<rparr>"
  have "world_step w = Inr ?w0"
    using r by (simp add: loop_step_handle [OF queue] resume_frame_def runner_frame_def agg_runner_def)
  moreover have "world_step ?w0 = Inr (?w1\<lparr>cur := Some (t, prog_body p)\<rparr>)"
    using await_unstarted [of "?w0" r ?f t "frame_new Value_promise (prog_body p) []" "prog_body p" ?k]
      r t rt by (cases w) (simp add: frame_new_def)
  ultimately have "world_run 2 w = Inr (?w1\<lparr>cur := Some (t, prog_body p)\<rparr>)"
    by (simp add: numeral_2_eq_2)
  then have starts: "world_reaches w (?w1\<lparr>cur := Some (t, prog_body p)\<rparr>)" by (rule world_reaches_run)
  have "fmlookup (frames ?w1) t = Some ?g" "point ?g = Executing" "heap_ok (fresh ?w1) (frames ?w1)"
    using ok r t rt by (auto simp: heap_ok_def runner_frame_def frame_new_def)
  then obtain m where m: "fresh w \<le> m" and child: "world_reaches (?w1\<lparr>cur := Some (t, prog_body p)\<rparr>)
      (?w1\<lparr>fresh := m, cur := Some (t, outcome_body (prog_eval p))\<rparr>)"
    using prog_runs [of ?w1 t ?g Value_promise p] typed by auto
  let ?w2 = "?w1\<lparr>fresh := m, cur := Some (t, outcome_body (prog_eval p))\<rparr>"
  obtain q where "co_complete t (prog_eval p) ?w2 =
      Inr (?w2\<lparr>frames := fmupd t (?g\<lparr>prom := q, point := At_end\<rparr>) (fmupd r ?f (frames w)),
               cur := Some (r, ?k (prog_eval p))\<rparr>)"
    using value_resumes_awaiter [of ?w2 t ?g r "?f\<lparr>point := Awaiting (Some t) ?k\<rparr>" ?k "prog_eval p"]
      rt prog_typed_outcome [OF typed]
    by (auto simp: promise_new_def fmupd_reorder_neq)
  then have "world_step ?w2 = Inr (?w2\<lparr>frames := fmupd t (?g\<lparr>prom := q, point := At_end\<rparr>)
      (fmupd r ?f (frames w)), cur := Some (r, ?k (prog_eval p))\<rparr>)" (is "_ = Inr ?w3")
    by (subst world_step_outcome [of ?w2 t "prog_eval p"]) simp_all
  moreover have "world_step ?w3 = Inr (?w3\<lparr>shared := step (shared w) cm,
      sched := post_all (posts (shared w) cm) ?s, cur := Some (r, Co_return None)\<rparr>)" (is "_ = Inr ?w4")
    by (simp add: world_step_def co_step_def cm_def)
  moreover have "world_step ?w4 = Inr (?w4\<lparr>frames := fmdrop t (fmdrop r (frames w)), cur := None\<rparr>)"
    using runner_finishes [of "frames ?w4" r ?f t "?g\<lparr>prom := q, point := At_end\<rparr>" ?w4] rt
    by (simp add: runner_promise_def promise_new_def frame_executing_def fmdrop_fmupd)
  ultimately have "world_run 3 ?w2 = Inr (?w4\<lparr>frames := fmdrop t (fmdrop r (frames w)), cur := None\<rparr>)"
    by (simp add: numeral_3_eq_3)
  then have "world_reaches ?w2 (?w4\<lparr>frames := fmdrop t (fmdrop r (frames w)), cur := None\<rparr>)"
    by (rule world_reaches_run)
  from world_reaches_trans [OF starts world_reaches_trans [OF child this]] m queue(2) show ?thesis
    by (intro exI [of _ m]) (cases w; simp add: post_all_handles)
qed

section \<open>All runners\<close>

text \<open>A job: the frame of the runner, the frame of its task, and the code of the task.\<close>

type_synonym runner_job = "coro \<times> coro \<times> prog"

primrec job_names :: "runner_job list \<Rightarrow> coro list" where
  "job_names [] = []"
| "job_names (j # js) = fst j # fst (snd j) # job_names js"

primrec job_completions :: "nat \<Rightarrow> runner_job list \<Rightarrow> completion list" where
  "job_completions i [] = []"
| "job_completions i (j # js) =
     (i, await_outcome (prog_eval (snd (snd j)))) # job_completions (Suc i) js"

primrec runners_ready ::
  "('s \<Rightarrow> completion \<Rightarrow> 's) \<Rightarrow> ('s \<Rightarrow> completion \<Rightarrow> handle list) \<Rightarrow> nat \<Rightarrow> runner_job list \<Rightarrow> 's heap \<Rightarrow> bool" where
  "runners_ready step posts i [] fs \<longleftrightarrow> True"
| "runners_ready step posts i (j # js) fs \<longleftrightarrow>
     (case j of
        (r, t, p) \<Rightarrow>
          fmlookup fs r = Some (runner_frame step posts i t) \<and>
          fmlookup fs t = Some (frame_new Value_promise (prog_body p) []) \<and>
          prog_typed Value_promise p) \<and>
     runners_ready step posts (Suc i) js fs"

lemma runners_ready_drop:
  "x \<notin> set (job_names js) \<Longrightarrow>
   runners_ready step posts i js (fmdrop x fs) = runners_ready step posts i js fs"
  by (induction js arbitrary: i) (auto split: prod.splits)

lemma heap_ok_drop: "heap_ok n fs \<Longrightarrow> heap_ok n (fmdrop x fs)"
  by (auto simp: heap_ok_def split: if_splits)

lemma runners_run:
  assumes "runners_ready step posts i js (frames w)" "distinct (job_names js)"
    and "heap_ok (fresh w) (frames w)"
    and "handle_q (sched w) = map (\<lambda>j. Some (fst j)) js @ hs" "cur w = None"
  shows "\<exists>m. fresh w \<le> m \<and> world_reaches w
    (w\<lparr>frames := fold fmdrop (job_names js) (frames w), fresh := m,
       shared := run_events step (shared w) (job_completions i js),
       sched := (sched w)\<lparr>handle_q := hs @
         filter (\<lambda>h. h \<noteq> None) (log_events step posts (shared w) (job_completions i js))\<rparr>\<rparr>)"
  using assms
proof (induction js arbitrary: i w hs)
  case Nil
  then show ?case by (intro exI [of _ "fresh w"]) (cases w; cases "sched w"; simp)
next
  case (Cons j js)
  obtain r t p where j: "j = (r, t, p)" by (cases j)
  let ?cm = "(i, await_outcome (prog_eval p))"
  let ?hs = "map (\<lambda>j. Some (fst j)) js @ hs"
  obtain m where m: "fresh w \<le> m" and first: "world_reaches w
    (w\<lparr>frames := fmdrop t (fmdrop r (frames w)), fresh := m, shared := step (shared w) ?cm,
       sched := (sched w)\<lparr>handle_q := ?hs @ filter (\<lambda>h. h \<noteq> None) (posts (shared w) ?cm)\<rparr>\<rparr>)"
    (is "world_reaches w ?w")
    using runner_runs [of w r step posts i t p ?hs] Cons.prems by (auto simp: j)
  have "runners_ready step posts (Suc i) js (frames ?w)"
    using Cons.prems(1,2) by (auto simp: j runners_ready_drop)
  moreover have "heap_ok (fresh ?w) (frames ?w)"
    using heap_ok_mono [OF Cons.prems(3) m] by (simp add: heap_ok_drop)
  ultimately obtain m' where "m \<le> m'" and rest: "world_reaches ?w
    (?w\<lparr>frames := fold fmdrop (job_names js) (frames ?w), fresh := m',
       shared := run_events step (shared ?w) (job_completions (Suc i) js),
       sched := (sched ?w)\<lparr>handle_q := (hs @ filter (\<lambda>h. h \<noteq> None) (posts (shared w) ?cm)) @
         filter (\<lambda>h. h \<noteq> None) (log_events step posts (shared ?w) (job_completions (Suc i) js))\<rparr>\<rparr>)"
    using Cons.IH [of "Suc i" ?w "hs @ filter (\<lambda>h. h \<noteq> None) (posts (shared w) ?cm)"] Cons.prems(2,5)
    by (auto simp: j)
  show ?case
    using world_reaches_trans [OF first rest] m \<open>m \<le> m'\<close>
    by (intro exI [of _ m']) (cases w; simp add: j)
qed

section \<open>Starting the runners\<close>

primrec add_runners ::
  "('s \<Rightarrow> completion \<Rightarrow> 's) \<Rightarrow> ('s \<Rightarrow> completion \<Rightarrow> handle list) \<Rightarrow> coro \<Rightarrow> nat \<Rightarrow> coro list \<Rightarrow> 's heap \<Rightarrow> 's heap" where
  "add_runners step posts n i [] fs = fs"
| "add_runners step posts n i (t # ts) fs =
     add_runners step posts (Suc n) (Suc i) ts (fmupd n (runner_frame step posts i t) fs)"

lemma start_one_runner:
  assumes f: "fmlookup (frames w) c = Some f" "owned f = Some t # map Some ts" "t \<notin> set ts"
    and n: "c \<noteq> fresh w" "t \<noteq> fresh w" "fresh w \<notin> set ts"
  shows "world_run 2 (w\<lparr>cur := Some (c, agg_start_all step posts i (t # ts) b)\<rparr>) =
    Inr (w\<lparr>frames := fmupd (fresh w) (runner_frame step posts i t)
             (fmupd c (f\<lparr>owned := map Some ts\<rparr>) (frames w)),
           fresh := Suc (fresh w), sched := (sched w)\<lparr>handle_q := handle_q (sched w) @ [Some (fresh w)]\<rparr>,
           cur := Some (c, agg_start_all step posts (Suc i) ts b)\<rparr>)"
proof -
  have keep: "filter (\<lambda>h. h \<noteq> Some t) (map Some ts) = map Some ts"
    "filter (\<lambda>h. h \<noteq> Some (fresh w)) (map Some ts) = map Some ts"
    using f(3) n(3) by (auto simp: filter_id_conv)
  show ?thesis
    using assms keep
    by (cases w; cases f)
      (simp add: numeral_2_eq_2 machine_ops task_start_def runner_frame_def runner_promise_def
        promise_new_def scheduler_post_handle_def scheduler_post_def fmupd_reorder_neq)
qed

lemma fresh_range: "map Some [n..<Suc (n + k)] = Some n # map Some [Suc n..<Suc (n + k)]"
  by (simp add: upt_rec [of n] del: upt_Suc)

lemma start_all_runners:
  assumes "fmlookup (frames w) c = Some f" "owned f = map Some ts" "distinct ts"
    and "heap_ok (fresh w) (frames w)"
  shows "world_reaches (w\<lparr>cur := Some (c, agg_start_all step posts i ts b)\<rparr>)
    (w\<lparr>frames := add_runners step posts (fresh w) i ts (fmupd c (f\<lparr>owned := []\<rparr>) (frames w)),
       fresh := fresh w + length ts,
       sched := (sched w)\<lparr>handle_q := handle_q (sched w) @ map Some [fresh w..<fresh w + length ts]\<rparr>,
       cur := Some (c, b)\<rparr>)"
  using assms
proof (induction ts arbitrary: w f i)
  case Nil
  then have "f\<lparr>owned := []\<rparr> = f" by (cases f) simp
  with Nil show ?case by (cases w; cases "sched w") (simp add: fmupd_same)
next
  case (Cons t ts)
  let ?w = "w\<lparr>frames := fmupd (fresh w) (runner_frame step posts i t)
             (fmupd c (f\<lparr>owned := map Some ts\<rparr>) (frames w)),
           fresh := Suc (fresh w), sched := (sched w)\<lparr>handle_q := handle_q (sched w) @ [Some (fresh w)]\<rparr>\<rparr>"
  have lt: "c < fresh w" "\<forall>x \<in> set (t # ts). x < fresh w"
    using Cons.prems(1,2,4) by (auto simp: heap_ok_def)
  then have "world_run 2 (w\<lparr>cur := Some (c, agg_start_all step posts i (t # ts) b)\<rparr>) =
      Inr (?w\<lparr>cur := Some (c, agg_start_all step posts (Suc i) ts b)\<rparr>)"
    using Cons.prems start_one_runner [of w c f t ts step posts i b] by (cases w) auto
  then have first: "world_reaches (w\<lparr>cur := Some (c, agg_start_all step posts i (t # ts) b)\<rparr>)
      (?w\<lparr>cur := Some (c, agg_start_all step posts (Suc i) ts b)\<rparr>)"
    by (rule world_reaches_run)
  have "fmlookup (frames ?w) c = Some (f\<lparr>owned := map Some ts\<rparr>)" using lt by simp
  moreover have "heap_ok (fresh ?w) (frames ?w)"
    using Cons.prems(4) lt by (fastforce simp: heap_ok_def runner_frame_def)
  ultimately have rest: "world_reaches (?w\<lparr>cur := Some (c, agg_start_all step posts (Suc i) ts b)\<rparr>)
      (?w\<lparr>frames := add_runners step posts (fresh ?w) (Suc i) ts (fmupd c (f\<lparr>owned := []\<rparr>) (frames ?w)),
       fresh := fresh ?w + length ts,
       sched := (sched ?w)\<lparr>handle_q := handle_q (sched ?w) @ map Some [fresh ?w..<fresh ?w + length ts]\<rparr>,
       cur := Some (c, b)\<rparr>)"
    using Cons.IH [of ?w "f\<lparr>owned := map Some ts\<rparr>" "Suc i"] Cons.prems(3) by simp
  have "fmupd c (f\<lparr>owned := []\<rparr>) (frames ?w) =
      fmupd (fresh w) (runner_frame step posts i t) (fmupd c (f\<lparr>owned := []\<rparr>) (frames w))"
    using lt by (simp add: fmupd_reorder_neq)
  with world_reaches_trans [OF first rest] show ?case
    by (cases w) (simp add: fresh_range del: upt_Suc)
qed

section \<open>The whole aggregation\<close>

text \<open>The jobs of an aggregation: runner frames are allocated from \<open>n\<close> on.\<close>

definition jobs_from :: "coro \<Rightarrow> coro list \<Rightarrow> prog list \<Rightarrow> runner_job list" where
  "jobs_from n ts ps = zip [n..<n + length ts] (zip ts ps)"

lemma jobs_from_Cons: "jobs_from n (t # ts) (p # ps) = (n, t, p) # jobs_from (Suc n) ts ps"
  by (simp add: jobs_from_def upt_rec [of n] del: upt_Suc)

lemma jobs_from_handles:
  "length ps = length ts \<Longrightarrow> map (\<lambda>j. Some (fst j)) (jobs_from n ts ps) = map Some [n..<n + length ts]"
proof (induction ts arbitrary: n ps)
  case (Cons t ts)
  then obtain p ps' where "ps = p # ps'" "length ps' = length ts" by (cases ps) auto
  with Cons.IH [of ps' "Suc n"] show ?case by (simp add: jobs_from_Cons fresh_range del: upt_Suc)
qed (simp add: jobs_from_def)

lemma job_names_from:
  "length ps = length ts \<Longrightarrow> set (job_names (jobs_from n ts ps)) = {n..<n + length ts} \<union> set ts"
proof (induction ts arbitrary: n ps)
  case (Cons t ts)
  then obtain p ps' where "ps = p # ps'" "length ps' = length ts" by (cases ps) auto
  with Cons.IH [of ps' "Suc n"] show ?case by (auto simp: jobs_from_Cons)
qed (simp add: jobs_from_def)

lemma job_names_distinct:
  "length ps = length ts \<Longrightarrow> distinct ts \<Longrightarrow> \<forall>t \<in> set ts. t < n \<Longrightarrow>
   distinct (job_names (jobs_from n ts ps))"
proof (induction ts arbitrary: n ps)
  case (Cons t ts)
  then obtain p ps' where ps: "ps = p # ps'" "length ps' = length ts" by (cases ps) auto
  have "\<forall>x \<in> set ts. x < Suc n" using Cons.prems(3) by auto
  with Cons ps have "distinct (job_names (jobs_from (Suc n) ts ps'))" by simp
  with Cons.prems ps show ?case
    using job_names_from [OF ps(2), of "Suc n"] by (auto simp: jobs_from_Cons)
qed (simp add: jobs_from_def)

lemma add_runners_lookup:
  "fmlookup (add_runners step posts n i ts fs) x =
     (if n \<le> x \<and> x < n + length ts then Some (runner_frame step posts (i + (x - n)) (ts ! (x - n)))
      else fmlookup fs x)"
  by (induction ts arbitrary: n i fs) (auto simp: nth_Cons' Suc_diff_Suc)

lemma runners_ready_from:
  assumes "length ps = length ts" "\<forall>t \<in> set ts. t < n"
    and "\<forall>(t, p) \<in> set (zip ts ps).
      fmlookup fs t = Some (frame_new Value_promise (prog_body p) []) \<and> prog_typed Value_promise p"
  shows "runners_ready step posts i (jobs_from n ts ps) (add_runners step posts n i ts fs)"
  using assms
proof (induction ts arbitrary: n i ps fs)
  case (Cons t ts)
  then obtain p ps' where ps: "ps = p # ps'" "length ps' = length ts" by (cases ps) auto
  let ?fs = "fmupd n (runner_frame step posts i t) fs"
  have "fmlookup ?fs t' = Some (frame_new Value_promise (prog_body p') []) \<and> prog_typed Value_promise p'"
    if "(t', p') \<in> set (zip ts ps')" for t' p'
    using bspec [OF Cons.prems(3), of "(t', p')"] set_zip_leftD [OF that] that Cons.prems(2) ps by auto
  then have all: "\<forall>(t, p) \<in> set (zip ts ps').
      fmlookup ?fs t = Some (frame_new Value_promise (prog_body p) []) \<and> prog_typed Value_promise p"
    by blast
  have "runners_ready step posts (Suc i) (jobs_from (Suc n) ts ps')
      (add_runners step posts (Suc n) (Suc i) ts ?fs)"
    by (rule Cons.IH [OF ps(2) _ all]) (use Cons.prems(2) in auto)
  then show ?case
    using Cons.prems(2,3) ps by (auto simp: jobs_from_Cons add_runners_lookup)
qed (simp add: jobs_from_def)

lemma fold_fmdrop_lookup: "fmlookup (fold fmdrop xs fs) x = (if x \<in> set xs then None else fmlookup fs x)"
  by (induction xs arbitrary: fs) auto

lemma aggregation_heap:
  assumes "length ps = length ts" "heap_ok n fs" "c < n" "c \<notin> set ts"
  shows "fmupd c f' (fold fmdrop (job_names (jobs_from n ts ps)) (add_runners step posts n i ts (fmupd c f fs))) =
    fmupd c f' (fold fmdrop ts fs)"
proof (rule fmap_ext)
  fix x
  have "n \<le> x \<Longrightarrow> fmlookup fs x = None"
    using assms(2) by (metis heap_ok_def linorder_not_le not_None_eq)
  then show "fmlookup (fmupd c f' (fold fmdrop (job_names (jobs_from n ts ps))
      (add_runners step posts n i ts (fmupd c f fs)))) x = fmlookup (fmupd c f' (fold fmdrop ts fs)) x"
    using assms by (auto simp: fold_fmdrop_lookup add_runners_lookup job_names_from)
qed

lemma add_runners_update:
  "c < n \<Longrightarrow> fmupd c f (add_runners step posts n i ts (fmupd c f' fs)) =
     add_runners step posts n i ts (fmupd c f fs)"
  by (rule fmap_ext) (simp add: add_runners_lookup)

lemma heap_ok_add_runners:
  assumes "heap_ok n fs" "\<forall>t \<in> set ts. t < n"
  shows "heap_ok (n + length ts) (add_runners step posts n i ts fs)"
proof -
  have "d < n + length ts \<and> (\<forall>e. Some e \<in> set (owned f) \<longrightarrow> e < n + length ts)"
    if "fmlookup (add_runners step posts n i ts fs) d = Some f" for d f
  proof (cases "n \<le> d \<and> d < n + length ts")
    case True
    then have "ts ! (d - n) < n" using assms(2) by auto
    with True that show ?thesis by (auto simp: add_runners_lookup runner_frame_def)
  next
    case False
    then have "fmlookup fs d = Some f" using that by (auto simp: add_runners_lookup split: if_splits)
    with assms(1) show ?thesis by (fastforce simp: heap_ok_def)
  qed
  then show ?thesis by (auto simp: heap_ok_def)
qed

text \<open>The coroutine of a combinator: \<open>init\<close> builds the shared state, \<open>finish\<close> ends the coroutine.\<close>

definition agg_wait :: "('s \<Rightarrow> 's body) \<Rightarrow> 's body" where
  "agg_wait finish = Co_suspend (Co_do (\<lambda>st. (st, [], finish st)))"

definition agg_body ::
  "(handle \<Rightarrow> 's) \<Rightarrow> ('s \<Rightarrow> completion \<Rightarrow> 's) \<Rightarrow> ('s \<Rightarrow> completion \<Rightarrow> handle list) \<Rightarrow> ('s \<Rightarrow> 's body) \<Rightarrow>
   coro list \<Rightarrow> 's body" where
  "agg_body init step posts finish ts =
     Co_schedule (Co_self (\<lambda>h. Co_do (\<lambda>_.
       (init h, [], agg_start_all step posts 0 ts (agg_wait finish)))))"

lemma aggregation_begins:
  assumes "fmlookup (frames w) c = Some (frame_new kd (agg_body init step posts finish ts) hs)"
    and "handle_q (sched w) = [Some c]" "cur w = None"
  shows "world_run 5 w =
    Inr (w\<lparr>frames := fmupd c \<lparr>prom = promise_new kd, point = Executing, owned = hs\<rparr> (frames w),
           cur := Some (c, agg_start_all step posts 0 ts (agg_wait finish)),
           sched := (sched w)\<lparr>handle_q := []\<rparr>, shared := init (Some c)\<rparr>)"
  using assms
  by (cases w; cases "sched w")
    (simp add: eval_nat_numeral machine_ops agg_body_def loop_step_def scheduler_pick_def
      scheduler_wait_pred_def scheduler_select_def scheduler_post_handle_def scheduler_post_def
      post_all_def)

lemma aggregation_ends:
  assumes "fmlookup (frames w) c = Some \<lparr>prom = promise_new kd,
      point = Parked (Co_do (\<lambda>st. (st, [], finish st))), owned = []\<rparr>"
    and "kd \<noteq> Detached_promise" "finish (shared w) = outcome_body res"
    and "handle_q (sched w) = [Some c]" "cur w = None"
  shows "world_run 3 w =
    Inr (w\<lparr>frames := fmupd c \<lparr>prom = promise_complete res (promise_new kd), point = At_end, owned = []\<rparr> (frames w),
           sched := (sched w)\<lparr>handle_q := []\<rparr>\<rparr>)"
proof -
  let ?f = "\<lparr>prom = promise_new kd, point = Executing, owned = []\<rparr>"
  let ?w = "w\<lparr>frames := fmupd c ?f (frames w), cur := Some (c, outcome_body res),
    sched := (sched w)\<lparr>handle_q := []\<rparr>\<rparr>"
  have "world_run 2 w = Inr ?w"
    using assms
    by (cases w; cases "sched w")
      (simp add: numeral_2_eq_2 machine_ops loop_step_def scheduler_pick_def
        scheduler_wait_pred_def scheduler_select_def post_all_def)
  moreover have "world_step ?w = co_complete c res ?w" by (rule world_step_outcome) simp
  moreover have "co_complete c res ?w = Inr (?w\<lparr>frames := fmupd c
      \<lparr>prom = promise_complete res (promise_new kd), point = At_end, owned = []\<rparr> (frames w), cur := None\<rparr>)"
    using co_complete_plain [of ?w c ?f res] assms(2) by (simp add: promise_new_def)
  ultimately show ?thesis
    using world_run_add [of 2 1 w] assms(5) by (cases w) simp
qed

text \<open>The completions of tasks with code \<open>ps\<close>, in the order of the arguments.\<close>

definition prog_completions :: "prog list \<Rightarrow> completion list" where
  "prog_completions ps = enumerate 0 (map (\<lambda>p. await_outcome (prog_eval p)) ps)"

lemma job_completions_from:
  "length ps = length ts \<Longrightarrow>
   job_completions i (jobs_from n ts ps) = enumerate i (map (\<lambda>p. await_outcome (prog_eval p)) ps)"
proof (induction ts arbitrary: n i ps)
  case (Cons t ts)
  then obtain p ps' where "ps = p # ps'" "length ps' = length ts" by (cases ps) auto
  with Cons.IH [of ps' "Suc i" "Suc n"] show ?case by (simp add: jobs_from_Cons)
qed (simp add: jobs_from_def)

lemma aggregation_runs:
  assumes c: "fmlookup (frames w) c = Some (frame_new Value_promise (agg_body init step posts finish ts) (map Some ts))"
    and tasks: "\<forall>(t, p) \<in> set (zip ts ps).
      fmlookup (frames w) t = Some (frame_new Value_promise (prog_body p) []) \<and> prog_typed Value_promise p"
    and shape: "length ps = length ts" "distinct (c # ts)" "heap_ok (fresh w) (frames w)"
    and queue: "handle_q (sched w) = [Some c]" "cur w = None"
    and wake: "log_events step posts (init (Some c)) (prog_completions ps) = [Some c]"
    and finish: "finish (run_events step (init (Some c)) (prog_completions ps)) = outcome_body res"
  shows "\<exists>m. world_reaches w
    (w\<lparr>frames := fmupd c \<lparr>prom = promise_complete res (promise_new Value_promise), point = At_end, owned = []\<rparr>
         (fold fmdrop ts (frames w)),
       fresh := m, shared := run_events step (init (Some c)) (prog_completions ps),
       sched := (sched w)\<lparr>handle_q := []\<rparr>\<rparr>)"
proof -
  let ?n = "fresh w" and ?js = "jobs_from (fresh w) ts ps"
  let ?f = "\<lambda>pt hs. \<lparr>prom = promise_new Value_promise, point = pt, owned = hs\<rparr>"
  let ?b = "Co_do (\<lambda>st. (st, [], finish st))"
  let ?w1 = "w\<lparr>frames := fmupd c (?f Executing (map Some ts)) (frames w),
    sched := (sched w)\<lparr>handle_q := []\<rparr>, shared := init (Some c)\<rparr>"
  let ?fs = "add_runners step posts ?n 0 ts (fmupd c (?f (Parked ?b) []) (frames w))"
  let ?w2 = "?w1\<lparr>frames := ?fs, fresh := ?n + length ts,
    sched := (sched w)\<lparr>handle_q := map Some [?n..<?n + length ts]\<rparr>\<rparr>"
  have lt: "c < ?n" "\<forall>t \<in> set ts. t < ?n"
    using c shape(3) by (auto simp: heap_ok_def frame_new_def)
  have s1: "world_reaches w (?w1\<lparr>cur := Some (c, agg_start_all step posts 0 ts (agg_wait finish))\<rparr>)"
    using aggregation_begins [OF c queue] by (intro world_reaches_run [of 5]) (cases w; simp)
  have s2: "world_reaches (?w1\<lparr>cur := Some (c, agg_start_all step posts 0 ts (agg_wait finish))\<rparr>)
      (?w2\<lparr>frames := add_runners step posts ?n 0 ts (fmupd c (?f Executing []) (frames w)),
        cur := Some (c, agg_wait finish)\<rparr>)"
    using start_all_runners [of ?w1 c "?f Executing (map Some ts)" ts step posts 0 "agg_wait finish"]
      shape lt c by (cases w) (auto simp: heap_ok_def frame_new_def)
  have s3: "world_reaches (?w2\<lparr>frames := add_runners step posts ?n 0 ts (fmupd c (?f Executing []) (frames w)),
        cur := Some (c, agg_wait finish)\<rparr>) ?w2"
    using lt(1) queue(2)
    by (intro world_reaches_step; cases w)
      (simp add: agg_wait_def machine_ops add_runners_lookup add_runners_update)
  have jobs: "job_completions 0 ?js = prog_completions ps"
    using job_completions_from [OF shape(1)] by (simp add: prog_completions_def)
  have "runners_ready step posts 0 ?js (frames ?w2)"
    using tasks shape(1,2) lt by (auto intro!: runners_ready_from dest: set_zip_leftD split: prod.splits)
  moreover have "distinct (job_names ?js)" using job_names_distinct shape(1,2) lt(2) by simp
  moreover have "heap_ok (fresh ?w2) (frames ?w2)"
    using shape(3) lt by (auto intro!: heap_ok_add_runners) (auto simp: heap_ok_def)
  moreover have "handle_q (sched ?w2) = map (\<lambda>j. Some (fst j)) ?js @ []"
    using jobs_from_handles [OF shape(1)] by simp
  ultimately obtain m where s4: "world_reaches ?w2 (?w2\<lparr>frames := fold fmdrop (job_names ?js) ?fs, fresh := m,
      shared := run_events step (init (Some c)) (prog_completions ps),
      sched := (sched w)\<lparr>handle_q := [Some c]\<rparr>\<rparr>)" (is "world_reaches _ ?w3")
    using runners_run [of step posts 0 ?js ?w2 "[]"] queue(2) wake by (auto simp: jobs)
  have "fmlookup (frames ?w3) c = Some (?f (Parked ?b) [])"
    using lt shape(1,2) by (auto simp: fold_fmdrop_lookup add_runners_lookup job_names_from)
  then have "world_run 3 ?w3 = Inr (?w3\<lparr>frames := fmupd c
        \<lparr>prom = promise_complete res (promise_new Value_promise), point = At_end, owned = []\<rparr> (frames ?w3),
      sched := (sched ?w3)\<lparr>handle_q := []\<rparr>\<rparr>)"
    using aggregation_ends [of ?w3 c Value_promise finish res] finish queue(2) by simp
  then have s5: "world_reaches ?w3 (?w3\<lparr>frames := fmupd c
        \<lparr>prom = promise_complete res (promise_new Value_promise), point = At_end, owned = []\<rparr> (frames ?w3),
      sched := (sched ?w3)\<lparr>handle_q := []\<rparr>\<rparr>)"
    by (rule world_reaches_run)
  note whole = s1 [THEN world_reaches_trans, OF s2, THEN world_reaches_trans, OF s3,
      THEN world_reaches_trans, OF s4, THEN world_reaches_trans, OF s5]
  show ?thesis
    using whole aggregation_heap [OF shape(1,3) lt(1), of
        "\<lparr>prom = promise_complete res (promise_new Value_promise), point = At_end, owned = []\<rparr>" step posts 0
        "?f (Parked ?b) []"] shape(2)
    by (intro exI [of _ m]) (cases w; simp)
qed

section \<open>Results\<close>

text \<open>The meaning of a gathering: all values, or the first exception.\<close>

fun gather :: "(exn + val) list \<Rightarrow> exn + val list" where
  "gather [] = Inr []"
| "gather (Inl e # rs) = Inl e"
| "gather (Inr v # rs) = map_sum id ((#) v) (gather rs)"

lemma gather_first_exception:
  "gather xs =
     (case first_exception (enumerate i xs) of Some e \<Rightarrow> Inl e | None \<Rightarrow> Inr (map projr xs))"
proof (induction xs arbitrary: i rule: gather.induct)
  case (3 v rs)
  show ?case using "3.IH" [of "Suc i"] by (auto split: option.splits)
qed simp_all

lemma enumerate_Nil_iff [simp]: "enumerate n xs = [] \<longleftrightarrow> xs = []"
  by (cases xs) simp_all

lemma hd_enumerate: "xs \<noteq> [] \<Longrightarrow> hd (enumerate n xs) = (n, hd xs)"
  by (cases xs) simp_all

lemma completions_of_enumerate: "completions_of (length xs) (enumerate 0 xs)"
  by (auto simp: completions_of_def in_set_enumerate_eq)

lemma slots_of_enumerate:
  assumes "first_exception (enumerate 0 xs) = None"
  shows "slots_of (length xs) (enumerate 0 xs) = map (\<lambda>x. Some (projr x)) xs"
proof (rule nth_equalityI)
  fix i assume "i < length (slots_of (length xs) (enumerate 0 xs))"
  then have i: "i < length xs" by (simp add: slots_of_def)
  have "map_of (enumerate 0 xs) i = Some (xs ! i)"
    using i map_of_zip_nth [of "[0..<length xs]" xs i] by (simp add: enumerate_eq_zip)
  moreover obtain v where "xs ! i = Inr v"
    using assms i nth_mem [of i "enumerate 0 xs"]
    by (auto simp: first_exception_none nth_enumerate_eq)
  ultimately show "slots_of (length xs) (enumerate 0 xs) ! i = map (\<lambda>x. Some (projr x)) xs ! i"
    using i by (simp add: slots_of_def completed_value_def)
qed (simp add: slots_of_def)

definition all_finish :: "when_all_state \<Rightarrow> when_all_state body" where
  "all_finish st =
     (case when_all_await_resume st of
        Inl u \<Rightarrow> Co_undefined u
      | Inr (Inl e) \<Rightarrow> Co_throw e
      | Inr (Inr v) \<Rightarrow> Co_return (Some v))"

lemma when_all_agg_body:
  "when_all (map Some ts) =
     agg_body (when_all_await_suspend (length ts) True) when_all_step when_all_posts all_finish ts"
  by (simp add: when_all_def agg_body_def agg_wait_def all_finish_def when_all_start_all_agg)

lemma all_finish_gather:
  "all_finish (run_events when_all_step (when_all_await_suspend (length xs) True h) (enumerate 0 xs)) =
     outcome_body (map_sum id (\<lambda>vs. Some (V_tuple vs)) (gather xs))"
proof (cases "first_exception (enumerate 0 xs)")
  case (Some e)
  then show ?thesis
    by (simp add: all_finish_def when_all_state_after [OF completions_of_enumerate]
        when_all_await_resume_def gather_first_exception [of _ 0] outcome_body_def)
next
  case None
  then show ?thesis
    by (auto simp: all_finish_def when_all_state_after [OF completions_of_enumerate]
        when_all_await_resume_def gather_first_exception [of _ 0] outcome_body_def slots_of_enumerate
        materialize_tuple_slots comp_def)
qed

definition any_finish :: "when_any_state \<Rightarrow> when_any_state body" where
  "any_finish st =
     (case when_any_result st of
        Inl u \<Rightarrow> Co_undefined u
      | Inr (Inl e) \<Rightarrow> Co_throw e
      | Inr (Inr (idx, vs)) \<Rightarrow> Co_return (Some (V_tuple [V_index (unat idx), V_tuple vs])))"

lemma when_any_agg_body:
  "when_any (map Some ts) =
     agg_body (when_any_await_suspend (length ts) True) when_any_step when_any_posts any_finish ts"
  by (simp add: when_any_def agg_body_def agg_wait_def any_finish_def when_any_start_all_agg)

lemma any_finish_gather:
  assumes "xs \<noteq> []"
  shows "any_finish (run_events when_any_step (when_any_await_suspend (length xs) True h) (enumerate 0 xs)) =
     outcome_body (map_sum id (\<lambda>vs. Some (V_tuple [V_index 0, V_tuple vs])) (gather xs))"
proof (cases "first_exception (enumerate 0 xs)")
  case (Some e)
  then show ?thesis
    by (simp add: any_finish_def when_any_state_after [OF completions_of_enumerate] when_any_result_def
        when_any_await_resume_def gather_first_exception [of _ 0] outcome_body_def)
next
  case None
  then show ?thesis
    using assms
    by (auto simp: any_finish_def when_any_state_after [OF completions_of_enumerate] when_any_result_def
        when_any_await_resume_def gather_first_exception [of _ 0] outcome_body_def slots_of_enumerate
        materialize_tuple_slots comp_def hd_enumerate)
qed

text \<open>Two tasks at 0 and 1, and a combinator at 2 that owns them, posted.\<close>

definition pair_world :: "'s body \<Rightarrow> prog \<Rightarrow> prog \<Rightarrow> 's \<Rightarrow> 's world" where
  "pair_world b p q st =
     \<lparr>frames = fmupd 2 (frame_new Value_promise b (map Some [0, 1]))
        (fmupd 1 (frame_new Value_promise (prog_body q) [])
          (fmupd 0 (frame_new Value_promise (prog_body p) []) fmempty)),
      fresh = 3, cur = None, sched = scheduler_post (Some 2) scheduler_init, shared = st\<rparr>"

lemma pair_world_ready:
  "fmlookup (frames (pair_world b p q st)) 2 = Some (frame_new Value_promise b (map Some [0, 1]))"
  "prog_typed Value_promise p \<Longrightarrow> prog_typed Value_promise q \<Longrightarrow>
   \<forall>(t, r) \<in> set (zip [0, 1] [p, q]).
     fmlookup (frames (pair_world b p q st)) t = Some (frame_new Value_promise (prog_body r) []) \<and>
     prog_typed Value_promise r"
  "length [p, q] = length [0 :: coro, 1]" "distinct ((2 :: coro) # [0, 1])"
  "heap_ok (fresh (pair_world b p q st)) (frames (pair_world b p q st))"
  "handle_q (sched (pair_world b p q st)) = [Some 2]" "cur (pair_world b p q st) = None"
  "[0 :: coro, 1] \<noteq> []" "length [0 :: coro, 1] < 2 ^ 64"
  by (auto simp: pair_world_def heap_ok_def frame_new_def scheduler_post_def split: if_splits)

section \<open>Properties\<close>

text \<open>
  C5: \<open>when_all\<close> end to end. A coroutine \<open>when_all(sched, t1, ..., tn)\<close> is posted; the tasks return,
  throw and await other tasks to any depth. The scheduler loop runs everything to completion without
  undefined behaviour. Then the promise of \<open>when_all\<close> holds the tuple of all results in the order of
  the arguments, or the exception of the first task that threw; the frames of all tasks and of all
  runners have been freed, and nothing else of the heap has changed.
\<close>
theorem when_all_gathers:
  assumes "fmlookup (frames w) c = Some (frame_new Value_promise (when_all (map Some ts)) (map Some ts))"
    and "\<forall>(t, p) \<in> set (zip ts ps).
      fmlookup (frames w) t = Some (frame_new Value_promise (prog_body p) []) \<and> prog_typed Value_promise p"
    and "length ps = length ts" "distinct (c # ts)" "heap_ok (fresh w) (frames w)"
    and "handle_q (sched w) = [Some c]" "cur w = None" "ts \<noteq> []" "length ts < 2 ^ 64"
  shows "\<exists>m st. world_reaches w
    (w\<lparr>frames := fmupd c
         \<lparr>prom = promise_complete
            (map_sum id (\<lambda>vs. Some (V_tuple vs)) (gather (map (\<lambda>p. await_outcome (prog_eval p)) ps)))
            (promise_new Value_promise), point = At_end, owned = []\<rparr>
         (fold fmdrop ts (frames w)),
       fresh := m, shared := st, sched := (sched w)\<lparr>handle_q := []\<rparr>\<rparr>)"
proof -
  let ?xs = "map (\<lambda>p. await_outcome (prog_eval p)) ps"
  have len: "length ts = length ?xs" using assms(3) by simp
  have cms: "prog_completions ps = enumerate 0 ?xs" by (simp add: prog_completions_def)
  have "ps \<noteq> []" using assms(3,8) by auto
  then have "log_events when_all_step when_all_posts (when_all_await_suspend (length ts) True (Some c))
      (prog_completions ps) = [Some c]"
    using assms(9) when_all_posts_after [OF completions_of_enumerate [of ?xs], of "Some c"]
    unfolding cms len by auto
  from aggregation_runs [OF assms(1) [unfolded when_all_agg_body] assms(2-7) this, unfolded cms len,
      OF all_finish_gather]
  show ?thesis by blast
qed

theorem when_all_gathers_witness:
  "\<exists>m st. world_reaches
     (pair_world (when_all (map Some [0, 1])) (P_return (Some (V_int 10))) (P_return (Some (V_int 20)))
        (when_all_state_new 0))
     ((pair_world (when_all (map Some [0, 1])) (P_return (Some (V_int 10))) (P_return (Some (V_int 20)))
        (when_all_state_new 0))
      \<lparr>frames := fmupd 2
         \<lparr>prom = promise_return_value (V_tuple [V_int 10, V_int 20]) (promise_new Value_promise),
          point = At_end, owned = []\<rparr> fmempty,
       fresh := m, shared := st, sched := scheduler_init\<rparr>)"
proof -
  let ?p = "P_return (Some (V_int 10))" and ?q = "P_return (Some (V_int 20))"
  let ?w = "pair_world (when_all (map Some [0, 1])) ?p ?q (when_all_state_new 0)"
  have "fmdrop (Suc 0) (fmdrop 0 (frames ?w)) = fmupd 2 (frame_new Value_promise (when_all (map Some [0, 1]))
      (map Some [0, 1])) fmempty"
    by (rule fmap_ext) (simp add: pair_world_def)
  moreover have "(sched ?w)\<lparr>handle_q := []\<rparr> = scheduler_init"
    by (simp add: pair_world_def scheduler_post_def scheduler_init_def)
  moreover have typed: "prog_typed Value_promise ?p" "prog_typed Value_promise ?q" by simp_all
  note when_all_gathers [of ?w 2 "[0, 1]" "[?p, ?q]", OF pair_world_ready(1) pair_world_ready(2) [OF typed]
      pair_world_ready(3-9)]
  ultimately show ?thesis by (simp add: await_outcome_def promise_complete_def)
qed

text \<open>
  C24: \<open>when_any\<close> end to end, for tasks that never wait for anything outside the loop: all of them have
  completed before \<open>when_any\<close> is resumed, so the result is defined: index 0 with all values, or the
  exception of the first task that threw, although a task before it completed first.
\<close>
theorem when_any_of_synchronous_tasks:
  assumes "fmlookup (frames w) c = Some (frame_new Value_promise (when_any (map Some ts)) (map Some ts))"
    and "\<forall>(t, p) \<in> set (zip ts ps).
      fmlookup (frames w) t = Some (frame_new Value_promise (prog_body p) []) \<and> prog_typed Value_promise p"
    and "length ps = length ts" "distinct (c # ts)" "heap_ok (fresh w) (frames w)"
    and "handle_q (sched w) = [Some c]" "cur w = None" "ts \<noteq> []"
  shows "\<exists>m st. world_reaches w
    (w\<lparr>frames := fmupd c
         \<lparr>prom = promise_complete
            (map_sum id (\<lambda>vs. Some (V_tuple [V_index 0, V_tuple vs]))
              (gather (map (\<lambda>p. await_outcome (prog_eval p)) ps)))
            (promise_new Value_promise), point = At_end, owned = []\<rparr>
         (fold fmdrop ts (frames w)),
       fresh := m, shared := st, sched := (sched w)\<lparr>handle_q := []\<rparr>\<rparr>)"
proof -
  let ?xs = "map (\<lambda>p. await_outcome (prog_eval p)) ps"
  have len: "length ts = length ?xs" using assms(3) by simp
  have cms: "prog_completions ps = enumerate 0 ?xs" by (simp add: prog_completions_def)
  have "ps \<noteq> []" using assms(3,8) by auto
  then have ne: "?xs \<noteq> []" by simp
  have "log_events when_any_step when_any_posts (when_any_await_suspend (length ts) True (Some c))
      (prog_completions ps) = [Some c]"
    using \<open>ps \<noteq> []\<close> when_any_posts_after [OF completions_of_enumerate [of ?xs], of "Some c"]
    unfolding cms len by auto
  from aggregation_runs [OF assms(1) [unfolded when_any_agg_body] assms(2-7) this, unfolded cms len,
      OF any_finish_gather [OF ne]]
  show ?thesis by blast
qed

theorem when_any_of_synchronous_tasks_witness:
  "\<exists>m st. world_reaches
     (pair_world (when_any (map Some [0, 1])) (P_return (Some (V_int 10))) (P_throw (Runtime_error ''boom''))
        (when_any_state_new 0))
     ((pair_world (when_any (map Some [0, 1])) (P_return (Some (V_int 10))) (P_throw (Runtime_error ''boom''))
        (when_any_state_new 0))
      \<lparr>frames := fmupd 2
         \<lparr>prom = promise_unhandled_exception (Runtime_error ''boom'') (promise_new Value_promise),
          point = At_end, owned = []\<rparr> fmempty,
       fresh := m, shared := st, sched := scheduler_init\<rparr>)"
proof -
  let ?p = "P_return (Some (V_int 10))" and ?q = "P_throw (Runtime_error ''boom'')"
  let ?w = "pair_world (when_any (map Some [0, 1])) ?p ?q (when_any_state_new 0)"
  have "fmdrop (Suc 0) (fmdrop 0 (frames ?w)) = fmupd 2 (frame_new Value_promise (when_any (map Some [0, 1]))
      (map Some [0, 1])) fmempty"
    by (rule fmap_ext) (simp add: pair_world_def)
  moreover have "(sched ?w)\<lparr>handle_q := []\<rparr> = scheduler_init"
    by (simp add: pair_world_def scheduler_post_def scheduler_init_def)
  moreover have typed: "prog_typed Value_promise ?p" "prog_typed Value_promise ?q" by simp_all
  note when_any_of_synchronous_tasks [of ?w 2 "[0, 1]" "[?p, ?q]", OF pair_world_ready(1) pair_world_ready(2) [OF typed]
      pair_world_ready(3-8)]
  ultimately show ?thesis by (simp add: await_outcome_def promise_complete_def promise_new_def)
qed

end
