(* ===== verification/Async_Thread_Pool.thy ===== *)
theory Async_Thread_Pool
  imports Async_Task
begin

text \<open>
  The thread pool (\<open>include/vix/async/core/thread_pool.hpp\<close>, \<open>src/core/thread_pool.cpp\<close>): the queue
  with its stop flag, the worker loop, shutdown, and the awaitable that runs a callable on a worker and
  resumes the coroutine on the \<open>io_context\<close>.
\<close>

section \<open>State\<close>

text \<open>Threads are named by numbers; the workers are those of \<open>workers_\<close> that are joinable.\<close>

type_synonym thread_id = nat

record 'fn thread_pool =
  pool_q :: "'fn func list"
  pool_stopped :: bool
  workers :: "thread_id list"
  shutdown_done :: bool

section \<open>Operations\<close>

definition thread_pool_new :: "nat \<Rightarrow> 'fn thread_pool" where
  "thread_pool_new n =
     \<lparr>pool_q = [], pool_stopped = False, workers = [0..<(if n = 0 then 1 else n)],
      shutdown_done = False\<rparr>"

definition thread_pool_enqueue :: "'fn func \<Rightarrow> 'fn thread_pool \<Rightarrow> 'fn thread_pool" where
  "thread_pool_enqueue fn p =
     (if pool_stopped p then p else p\<lparr>pool_q := pool_q p @ [fn]\<rparr>)"

definition thread_pool_submit :: "'fn func \<Rightarrow> 'fn thread_pool \<Rightarrow> 'fn thread_pool" where
  "thread_pool_submit fn p = (if fn = None then p else thread_pool_enqueue fn p)"

definition thread_pool_stop :: "'fn thread_pool \<Rightarrow> 'fn thread_pool" where
  "thread_pool_stop p = p\<lparr>pool_stopped := True\<rparr>"

text \<open>
  \<open>shutdown()\<close> first claims the flag and stops the pool (\<open>None\<close>: somebody else has claimed it), then visits
  the workers in order, and finally clears \<open>workers_\<close>. A visit detaches the thread when it is the calling
  thread \<open>self\<close> or when \<open>join\<close> throws (\<open>throws\<close>); otherwise it joins, which blocks (\<open>None\<close>) until the thread
  has left its loop (\<open>left\<close>).
\<close>

datatype thread_op = Join thread_id | Detach thread_id

definition shutdown_claim :: "'fn thread_pool \<Rightarrow> 'fn thread_pool option" where
  "shutdown_claim p =
     (if shutdown_done p then None else Some (p\<lparr>pool_stopped := True, shutdown_done := True\<rparr>))"

definition shutdown_visit :: "thread_id \<Rightarrow> bool \<Rightarrow> bool \<Rightarrow> thread_id \<Rightarrow> thread_op option" where
  "shutdown_visit self throws left t =
     (if t = self then Some (Detach t)
      else if throws then Some (Detach t)
      else if left then Some (Join t)
      else None)"

definition shutdown_clear :: "'fn thread_pool \<Rightarrow> 'fn thread_pool" where
  "shutdown_clear p = p\<lparr>workers := []\<rparr>"

text \<open>What the call has done with the threads when it returns.\<close>

definition shutdown_threads :: "thread_id \<Rightarrow> (thread_id \<Rightarrow> bool) \<Rightarrow> 'fn thread_pool \<Rightarrow> thread_op list" where
  "shutdown_threads self join_throws p =
     (if shutdown_done p then []
      else map (\<lambda>t. if t = self \<or> join_throws t then Detach t else Join t) (workers p))"

definition thread_pool_size :: "'fn thread_pool \<Rightarrow> nat" where
  "thread_pool_size p = length (workers p)"

text \<open>The critical section of one pass of \<open>worker_loop()\<close>, after the wait.\<close>

datatype 'fn pool_choice = Pool_run "'fn func" | Pool_leave | Pool_retry

definition pool_wait_pred :: "'fn thread_pool \<Rightarrow> bool" where
  "pool_wait_pred p \<longleftrightarrow> pool_stopped p \<or> pool_q p \<noteq> []"

definition pool_take :: "'fn thread_pool \<Rightarrow> 'fn pool_choice \<times> 'fn thread_pool" where
  "pool_take p =
     (case pool_q p of
        fn # q \<Rightarrow> (Pool_run fn, p\<lparr>pool_q := q\<rparr>)
      | [] \<Rightarrow> if pool_stopped p then (Pool_leave, p) else (Pool_retry, p))"

section \<open>The awaitable of \<open>submit\<close>\<close>

text \<open>\<open>result_store\<close>: an optional value; nothing for \<open>void\<close>.\<close>

definition result_store_set :: "val \<Rightarrow> val option \<Rightarrow> val option" where
  "result_store_set v store = Some v"

definition result_store_take :: "val option \<Rightarrow> ub + val" where
  "result_store_take store = (case store of None \<Rightarrow> Inl Empty_optional | Some v \<Rightarrow> Inr v)"

text \<open>
  The callable is given by what calling it yields: an exception, a value, or nothing for a callable
  that returns \<open>void\<close>.
\<close>

record submit_awaitable =
  sa_ct :: cancel_token
  sa_fn :: "exn + val option"
  sa_store :: "val option"
  sa_ex :: "exn option"

definition submit_awaitable_new :: "exn + val option \<Rightarrow> cancel_token \<Rightarrow> submit_awaitable" where
  "submit_awaitable_new fn ct = \<lparr>sa_ct = ct, sa_fn = fn, sa_store = None, sa_ex = None\<rparr>"

definition submit_await_ready :: bool where
  "submit_await_ready = False"

text \<open>
  The \<open>try\<close>/\<open>catch\<close> of the lambda that a worker runs, in two steps: it reads the token when it starts, and
  a cancelled one is turned into the captured exception; otherwise the callable runs, for as long as it
  likes, and its result or exception is stored when it is done.
\<close>

definition submit_start :: "cancel_store \<Rightarrow> submit_awaitable \<Rightarrow> submit_awaitable" where
  "submit_start m aw =
     (if cancel_token_is_cancelled m (sa_ct aw) then aw\<lparr>sa_ex := Some (System_error cancelled_ec)\<rparr> else aw)"

definition submit_finish :: "submit_awaitable \<Rightarrow> submit_awaitable" where
  "submit_finish aw =
     (if sa_ex aw \<noteq> None then aw
      else (case sa_fn aw of
              Inl e \<Rightarrow> aw\<lparr>sa_ex := Some e\<rparr>
            | Inr None \<Rightarrow> aw
            | Inr (Some v) \<Rightarrow> aw\<lparr>sa_store := result_store_set v (sa_store aw)\<rparr>))"

text \<open>\<open>is_void\<close>: the callable returns \<open>void\<close>.\<close>

definition submit_await_resume :: "bool \<Rightarrow> submit_awaitable \<Rightarrow> ub + (exn + val option)" where
  "submit_await_resume is_void aw =
     (case sa_ex aw of
        Some e \<Rightarrow> Inr (Inl e)
      | None \<Rightarrow>
          if is_void then Inr (Inr None)
          else (case result_store_take (sa_store aw) of Inl u \<Rightarrow> Inl u | Inr v \<Rightarrow> Inr (Inr (Some v))))"

section \<open>Pool, workers and event loop together\<close>

text \<open>
  A job is a plain callable, by its effect on the scheduler and its exception, or the lambda of an
  awaitable: the address of that awaitable and the handle of the coroutine that awaits.
\<close>

datatype 'f job = Plain "'f scheduler \<Rightarrow> exn option \<times> 'f scheduler" | Await_job nat coro

text \<open>
  For each worker: the callable it executes outside the mutex, whether that has started, and whether the
  worker has left its loop.
\<close>

record 'f pool_system =
  pool :: "'f job thread_pool"
  running_jobs :: "'f job func list"
  job_started :: "thread_id \<Rightarrow> bool"
  exited :: "thread_id \<Rightarrow> bool"
  awaitables :: "nat \<Rightarrow> submit_awaitable"
  pool_ctx :: "'f scheduler"
  tokens :: cancel_store

definition thread_pool_ctx_post :: "handle \<Rightarrow> 'f scheduler \<Rightarrow> 'f scheduler" where
  "thread_pool_ctx_post h c = io_context_post_handle h c"

definition submit_await_suspend :: "nat \<Rightarrow> coro \<Rightarrow> 'f job thread_pool \<Rightarrow> 'f job thread_pool" where
  "submit_await_suspend a h p = thread_pool_enqueue (Some (Await_job a h)) p"

text \<open>
  A callable while it runs: its beginning and its end. An exception of a plain callable is swallowed by
  the worker; the lambda of an awaitable posts the coroutine at its end.
\<close>

definition start_job :: "'f job func \<Rightarrow> 'f pool_system \<Rightarrow> 'f pool_system" where
  "start_job fn w =
     (case fn of
        Some (Await_job a h) \<Rightarrow> w\<lparr>awaitables := (awaitables w)(a := submit_start (tokens w) (awaitables w a))\<rparr>
      | _ \<Rightarrow> w)"

definition finish_job :: "'f job func \<Rightarrow> 'f pool_system \<Rightarrow> 'f pool_system" where
  "finish_job fn w =
     (case fn of
        None \<Rightarrow> w
      | Some (Plain g) \<Rightarrow> w\<lparr>pool_ctx := snd (g (pool_ctx w))\<rparr>
      | Some (Await_job a h) \<Rightarrow>
          w\<lparr>awaitables := (awaitables w)(a := submit_finish (awaitables w a)),
            pool_ctx := thread_pool_ctx_post (Some h) (pool_ctx w)\<rparr>)"

datatype 'f pool_event =
    Submit_plain "('f scheduler \<Rightarrow> exn option \<times> 'f scheduler) func"
  | Await_submit nat coro "exn + val option" cancel_token
  | Worker_take thread_id
  | Worker_start thread_id
  | Worker_finish thread_id
  | Stop_pool
  | Request_cancel cancel_source

fun pool_step :: "'f pool_system \<Rightarrow> 'f pool_event \<Rightarrow> 'f pool_system" where
  "pool_step w (Submit_plain g) = w\<lparr>pool := thread_pool_submit (map_option Plain g) (pool w)\<rparr>"
| "pool_step w (Await_submit a h fn ct) =
     w\<lparr>awaitables := (awaitables w)(a := submit_awaitable_new fn ct),
       pool := submit_await_suspend a h (pool w)\<rparr>"
| "pool_step w (Worker_take t) =
     (if t < length (running_jobs w) \<and> running_jobs w ! t = None \<and> \<not> exited w t \<and> pool_wait_pred (pool w) then
        (case pool_take (pool w) of
           (Pool_run fn, p) \<Rightarrow> w\<lparr>pool := p, running_jobs := (running_jobs w)[t := fn]\<rparr>
         | (Pool_leave, p) \<Rightarrow> w\<lparr>pool := p, exited := (exited w)(t := True)\<rparr>
         | (Pool_retry, p) \<Rightarrow> w\<lparr>pool := p\<rparr>)
      else w)"
| "pool_step w (Worker_start t) =
     (if t < length (running_jobs w) \<and> running_jobs w ! t \<noteq> None \<and> \<not> job_started w t then
        (start_job (running_jobs w ! t) w)\<lparr>job_started := (job_started w)(t := True)\<rparr>
      else w)"
| "pool_step w (Worker_finish t) =
     (if t < length (running_jobs w) \<and> job_started w t then
        (finish_job (running_jobs w ! t) w)\<lparr>running_jobs := (running_jobs w)[t := None],
           job_started := (job_started w)(t := False)\<rparr>
      else w)"
| "pool_step w Stop_pool = w\<lparr>pool := thread_pool_stop (pool w)\<rparr>"
| "pool_step w (Request_cancel src) = w\<lparr>tokens := cancel_source_request_cancel src (tokens w)\<rparr>"

definition pool_system_init :: "nat \<Rightarrow> 'f pool_system" where
  "pool_system_init n =
     \<lparr>pool = thread_pool_new n,
      running_jobs = replicate (thread_pool_size (thread_pool_new n :: 'f job thread_pool)) None,
      job_started = (\<lambda>_. False), exited = (\<lambda>_. False),
      awaitables = (\<lambda>_. submit_awaitable_new (Inr None) cancel_token_default),
      pool_ctx = scheduler_init, tokens = cancel_store_init\<rparr>"

text \<open>
  \<open>shutdown()\<close> on a thread of its own, or on a worker in the middle of a job, while everybody else goes on:
  not called, visiting the workers (who called, which are left, what was done), or returned. A worker
  that has called \<open>shutdown()\<close> does nothing else until it returns. \<open>throws\<close> says whether the next \<open>join\<close> is
  going to throw.
\<close>

datatype shutdown_pc =
    Not_called
  | Visiting thread_id "thread_id list" "thread_op list"
  | Returned thread_id "thread_op list"

record 'f closing_system =
  cs_pool :: "'f pool_system"
  cs_pc :: shutdown_pc

datatype 'f closing_event =
    Pool_does "'f pool_event"
  | Call_shutdown thread_id
  | Shutdown_next bool

fun acts_as :: "'f pool_event \<Rightarrow> thread_id option" where
  "acts_as (Worker_take t) = Some t"
| "acts_as (Worker_start t) = Some t"
| "acts_as (Worker_finish t) = Some t"
| "acts_as _ = None"

definition blocked_by :: "shutdown_pc \<Rightarrow> thread_id option" where
  "blocked_by p = (case p of Visiting self _ _ \<Rightarrow> Some self | _ \<Rightarrow> None)"

fun closing_step :: "'f closing_system \<Rightarrow> 'f closing_event \<Rightarrow> 'f closing_system" where
  "closing_step w (Pool_does e) =
     (if acts_as e \<noteq> None \<and> acts_as e = blocked_by (cs_pc w) then w else w\<lparr>cs_pool := pool_step (cs_pool w) e\<rparr>)"
| "closing_step w (Call_shutdown self) =
     (case shutdown_claim (pool (cs_pool w)) of
        None \<Rightarrow> w
      | Some p \<Rightarrow> \<lparr>cs_pool = (cs_pool w)\<lparr>pool := p\<rparr>, cs_pc = Visiting self (workers p) []\<rparr>)"
| "closing_step w (Shutdown_next throws) =
     (case cs_pc w of
        Visiting self [] ops \<Rightarrow>
          \<lparr>cs_pool = (cs_pool w)\<lparr>pool := shutdown_clear (pool (cs_pool w))\<rparr>, cs_pc = Returned self ops\<rparr>
      | Visiting self (t # ts) ops \<Rightarrow>
          (case shutdown_visit self throws (exited (cs_pool w) t) t of
             None \<Rightarrow> w
           | Some x \<Rightarrow> w\<lparr>cs_pc := Visiting self ts (ops @ [x])\<rparr>)
      | _ \<Rightarrow> w)"

definition closing_init :: "nat \<Rightarrow> 'f closing_system" where
  "closing_init n = \<lparr>cs_pool = pool_system_init n, cs_pc = Not_called\<rparr>"

text \<open>
  What the pool takes over; what workers start and finish, read off what each of them executes before and
  after an event.
\<close>

fun pool_accepts :: "'f pool_system \<Rightarrow> 'f pool_event \<Rightarrow> 'f job func list" where
  "pool_accepts w (Submit_plain (Some g)) = (if pool_stopped (pool w) then [] else [Some (Plain g)])"
| "pool_accepts w (Await_submit a h fn ct) = (if pool_stopped (pool w) then [] else [Some (Await_job a h)])"
| "pool_accepts w _ = []"

fun taken_over :: "'f job func list \<Rightarrow> 'f job func list \<Rightarrow> 'f job func list" where
  "taken_over (None # xs) (Some j # ys) = Some j # taken_over xs ys"
| "taken_over (_ # xs) (_ # ys) = taken_over xs ys"
| "taken_over _ _ = []"

definition pool_starts :: "'f pool_system \<Rightarrow> 'f pool_event \<Rightarrow> 'f job func list" where
  "pool_starts w e = taken_over (running_jobs w) (running_jobs (pool_step w e))"

definition pool_finishes :: "'f pool_system \<Rightarrow> 'f pool_event \<Rightarrow> 'f job func list" where
  "pool_finishes w e = taken_over (running_jobs (pool_step w e)) (running_jobs w)"

definition present :: "'a option list \<Rightarrow> 'a option multiset" where
  "present xs = filter_mset (\<lambda>x. x \<noteq> None) (mset xs)"

definition jobs_inside :: "'f pool_system \<Rightarrow> 'f job func multiset" where
  "jobs_inside w = present (pool_q (pool w)) + present (running_jobs w)"

section \<open>Lemmas\<close>

lemmas pool_ops [async_ops] =
  thread_pool_new_def thread_pool_enqueue_def thread_pool_submit_def thread_pool_stop_def
  pool_wait_pred_def pool_take_def submit_await_suspend_def thread_pool_ctx_post_def

lemma job_frame [simp]:
  "pool (start_job fn w) = pool w" "running_jobs (start_job fn w) = running_jobs w"
  "pool_ctx (start_job fn w) = pool_ctx w" "exited (start_job fn w) = exited w" "tokens (start_job fn w) = tokens w"
  "pool (finish_job fn w) = pool w" "running_jobs (finish_job fn w) = running_jobs w"
  "exited (finish_job fn w) = exited w" "tokens (finish_job fn w) = tokens w"
  by (auto simp: start_job_def finish_job_def split: option.splits job.splits)

lemma taken_over_same [simp]: "taken_over xs xs = []"
  by (induction xs) (metis (no_types) list.distinct(1) option.exhaust taken_over.simps)+

lemma taken_over_fill:
  "t < length xs \<Longrightarrow> xs ! t = None \<Longrightarrow> taken_over xs (xs[t := x]) = (if x = None then [] else [x])"
proof (induction xs arbitrary: t)
  case (Cons y xs)
  then show ?case by (cases t; cases x; cases y) auto
qed simp

lemma taken_over_drop: "taken_over (xs[t := x]) xs = (if x = None \<and> t < length xs \<and> xs ! t \<noteq> None then [xs ! t] else [])"
proof (induction xs arbitrary: t)
  case (Cons y xs)
  then show ?case by (cases t; cases x; cases y) auto
qed simp

lemma taken_over_clear: "taken_over xs (xs[t := None]) = []"
proof (induction xs arbitrary: t)
  case (Cons y xs)
  then show ?case by (cases t; cases y) auto
qed simp

lemma pool_starts_eq:
  "pool_starts w e =
     (case e of
        Worker_take t \<Rightarrow>
          (if t < length (running_jobs w) \<and> running_jobs w ! t = None \<and> \<not> exited w t \<and> pool_q (pool w) \<noteq> [] \<and>
              hd (pool_q (pool w)) \<noteq> None
           then [hd (pool_q (pool w))] else [])
      | _ \<Rightarrow> [])"
  by (cases e) (auto simp: pool_starts_def taken_over_fill taken_over_clear async_ops split: list.splits)

lemma pool_finishes_eq:
  "pool_finishes w e =
     (case e of
        Worker_finish t \<Rightarrow>
          (if t < length (running_jobs w) \<and> job_started w t \<and> running_jobs w ! t \<noteq> None then [running_jobs w ! t] else [])
      | _ \<Rightarrow> [])"
  by (cases e) (auto simp: pool_finishes_def taken_over_drop async_ops split: list.splits)

text \<open>An empty callable is never queued.\<close>

lemma no_empty_job: "None \<notin> set (pool_q (pool (run_events pool_step (pool_system_init n) es)))"
proof (rule run_events_invariant [where I = "\<lambda>w. None \<notin> set (pool_q (pool w))"])
  fix w :: "'a pool_system" and e
  assume "None \<notin> set (pool_q (pool w))"
  then show "None \<notin> set (pool_q (pool (pool_step w e)))"
    by (cases e) (auto simp: async_ops split: list.splits)
qed (simp add: pool_system_init_def thread_pool_new_def)

abbreviation queued_jobs :: "'f pool_system \<Rightarrow> 'f job func list" where
  "queued_jobs w \<equiv> filter (\<lambda>fn. fn \<noteq> None) (pool_q (pool w))"

lemma pool_conserves_order:
  "pool_starts w e @ queued_jobs (pool_step w e) = queued_jobs w @ pool_accepts w e"
proof (cases e)
  case (Submit_plain g)
  then show ?thesis by (cases g) (simp_all add: pool_starts_eq async_ops)
qed (auto simp: pool_starts_eq async_ops split: list.splits)

interpretation pool_order: fifo_component pool_step pool_accepts pool_starts queued_jobs
  by unfold_locales (rule pool_conserves_order)

lemma present_simps [simp]:
  "present [] = {#}" "present (x # xs) = (if x = None then {#} else {#x#}) + present xs"
  "present (xs @ ys) = present xs + present ys" "present (replicate n None) = {#}"
  by (auto simp: present_def)

lemma present_fill:
  "t < length xs \<Longrightarrow> xs ! t = None \<Longrightarrow>
   present (xs[t := x]) = (if x = None then {#} else {#x#}) + present xs"
  by (auto simp: present_def mset_update)

lemma present_clear:
  "t < length xs \<Longrightarrow> xs ! t \<noteq> None \<Longrightarrow> add_mset (xs ! t) (present (xs[t := None])) = present xs"
  by (auto simp: present_def mset_update nth_mem_mset)

lemma present_clear_idle: "xs ! t = None \<Longrightarrow> present (xs[t := None]) = present xs"
  by (metis list_update_id)

lemma pool_conserves_jobs:
  "mset (pool_finishes w e) + jobs_inside (pool_step w e) = jobs_inside w + mset (pool_accepts w e)"
proof (cases e)
  case (Submit_plain g)
  then show ?thesis by (cases g) (simp_all add: jobs_inside_def pool_finishes_eq async_ops)
next
  case (Worker_take t)
  then show ?thesis
    by (auto simp: jobs_inside_def pool_finishes_eq present_fill async_ops split: list.splits)
next
  case (Worker_finish t)
  then show ?thesis
    by (auto simp: jobs_inside_def pool_finishes_eq present_clear present_clear_idle
        simp flip: union_mset_add_mset_right)
qed (simp_all add: jobs_inside_def pool_finishes_eq async_ops)

interpretation pool_jobs: bag_component pool_step pool_accepts pool_finishes jobs_inside
  by unfold_locales (rule pool_conserves_jobs)

lemma pool_system_init_empty [simp]:
  "pool_q (pool (pool_system_init n)) = []" "jobs_inside (pool_system_init n) = {#}"
  "handle_q (pool_ctx (pool_system_init n)) = []"
  by (auto simp: pool_system_init_def thread_pool_new_def jobs_inside_def)

subsection \<open>Coroutines that come back\<close>

text \<open>The handle a job posts when it is done, and the plain callables that post none themselves.\<close>

definition job_handles :: "'f job func \<Rightarrow> handle list" where
  "job_handles fn = (case fn of Some (Await_job a h) \<Rightarrow> [Some h] | _ \<Rightarrow> [])"

definition quiet_job :: "'f job func \<Rightarrow> bool" where
  "quiet_job fn = (case fn of Some (Plain g) \<Rightarrow> \<forall>c. handle_q (snd (g c)) = handle_q c | _ \<Rightarrow> True)"

definition quiet_system :: "'f pool_system \<Rightarrow> bool" where
  "quiet_system w \<longleftrightarrow> (\<forall>fn \<in> set (pool_q (pool w)) \<union> set (running_jobs w). quiet_job fn)"

definition quiet_event :: "'f pool_event \<Rightarrow> bool" where
  "quiet_event e = (case e of Submit_plain g \<Rightarrow> quiet_job (map_option Plain g) | _ \<Rightarrow> True)"

lemma quiet_system_step: "quiet_event e \<Longrightarrow> quiet_system w \<Longrightarrow> quiet_system (pool_step w e)"
proof (cases e)
  case (Worker_take t)
  assume "quiet_system w"
  with Worker_take show ?thesis
    by (auto simp: quiet_system_def async_ops split: list.splits dest!: set_update_subset_insert [THEN subsetD])
next
  case (Worker_finish t)
  assume "quiet_system w"
  with Worker_finish show ?thesis
    by (auto simp: quiet_system_def quiet_job_def dest!: set_update_subset_insert [THEN subsetD])
qed (auto simp: quiet_system_def quiet_event_def quiet_job_def async_ops)

lemma quiet_step_posts:
  "quiet_system w \<Longrightarrow>
   handle_q (pool_ctx (pool_step w e)) =
     handle_q (pool_ctx w) @ concat (map job_handles (pool_finishes w e))"
proof (cases e)
  case (Worker_finish t)
  assume "quiet_system w"
  then have "t < length (running_jobs w) \<Longrightarrow> quiet_job (running_jobs w ! t)"
    by (auto simp: quiet_system_def)
  with Worker_finish show ?thesis
    by (auto simp: finish_job_def pool_finishes_eq job_handles_def quiet_job_def async_ops
        split: option.splits job.splits)
qed (auto simp: pool_finishes_eq job_handles_def async_ops split: list.splits)

lemma quiet_run_posts:
  "quiet_system w \<Longrightarrow> \<forall>e \<in> set es. quiet_event e \<Longrightarrow>
   handle_q (pool_ctx (run_events pool_step w es)) =
     handle_q (pool_ctx w) @ concat (map job_handles (log_events pool_step pool_finishes w es))"
  by (induction es arbitrary: w) (auto simp: quiet_step_posts quiet_system_step)

subsection \<open>Waking the workers\<close>

definition pool_critical :: "'fn thread_pool \<Rightarrow> 'fn thread_pool \<times> bool" where
  "pool_critical p = (snd (pool_take p), fst (pool_take p) = Pool_leave)"

text \<open>\<open>enqueue\<close> notifies one worker unless it refuses; \<open>stop\<close> and \<open>shutdown\<close> notify all.\<close>

definition pool_monitor :: "nat \<Rightarrow> 'fn thread_pool monitor_code" where
  "pool_monitor n =
     \<lparr>threads = n, wait_pred = pool_wait_pred, critical = pool_critical,
      write_one = (\<lambda>p p'. \<not> pool_stopped p \<and> (\<exists>fn. p' = thread_pool_enqueue fn p)),
      write_all = (\<lambda>p p'. p' = thread_pool_stop p), write_unlocked = (\<lambda>_ _. False),
      write_silent = (\<lambda>_ _. False)\<rparr>"

lemma pool_critical_stop: "pool_critical p = (p', b) \<Longrightarrow> pool_stopped p' = pool_stopped p"
  by (auto simp: pool_critical_def pool_take_def split: list.splits if_splits)

lemma pool_critical_leave: "pool_critical p = (p', True) \<Longrightarrow> pool_q p' = [] \<and> pool_stopped p'"
  by (auto simp: pool_critical_def pool_take_def split: list.splits if_splits)

interpretation pool_workers:
  monitor_discipline "pool_monitor n" "\<lambda>p. pool_q p \<noteq> []" pool_stopped
  by unfold_locales
    (auto simp: pool_monitor_def async_ops dest: pool_critical_stop pool_critical_leave)

lemma pool_exited_drained:
  assumes "monitor_reachable (pool_monitor n) d m"
  shows "(\<exists>t. pcs m t = Exited) \<longrightarrow> pool_q (mdata m) = [] \<and> pool_stopped (mdata m)"
  using assms
proof (induction rule: monitor_reachable.induct)
  case start
  show ?case by (simp add: monitor_start_def)
next
  case (step m m')
  from step.hyps(2) step.IH show ?case
  proof (induction rule: monitor_step.induct)
    case (enter t m d' leaves)
    then show ?case
      by (auto simp: pool_monitor_def pool_critical_def pool_take_def split: list.splits if_splits)
  qed (auto simp: pool_monitor_def async_ops split: if_splits)
qed

subsection \<open>Results\<close>

text \<open>
  A worker executing the lambda of the awaitable at address \<open>a\<close> is the only one concerned with it, and
  events of other workers, submissions and cancellations leave that awaitable alone.
\<close>

definition job_addr :: "'f job func \<Rightarrow> nat option" where
  "job_addr fn = (case fn of Some (Await_job a h) \<Rightarrow> Some a | _ \<Rightarrow> None)"

definition sole_job :: "thread_id \<Rightarrow> nat \<Rightarrow> coro \<Rightarrow> 'f pool_system \<Rightarrow> bool" where
  "sole_job t a h w \<longleftrightarrow>
     t < length (running_jobs w) \<and> running_jobs w ! t = Some (Await_job a h) \<and>
     (\<forall>fn \<in> set (pool_q (pool w)). job_addr fn \<noteq> Some a) \<and>
     (\<forall>t' < length (running_jobs w). t' \<noteq> t \<longrightarrow> job_addr (running_jobs w ! t') \<noteq> Some a)"

definition spares :: "thread_id \<Rightarrow> nat \<Rightarrow> 'f pool_event \<Rightarrow> bool" where
  "spares t a e \<longleftrightarrow>
     (case e of
        Worker_start t' \<Rightarrow> t' \<noteq> t | Worker_finish t' \<Rightarrow> t' \<noteq> t | Await_submit a' h fn ct \<Rightarrow> a' \<noteq> a | _ \<Rightarrow> True)"

lemma sole_job_step:
  assumes "sole_job t a h w" "spares t a e"
  shows "sole_job t a h (pool_step w e)" "awaitables (pool_step w e) a = awaitables w a"
    "job_started (pool_step w e) t = job_started w t"
proof -
  have "sole_job t a h (pool_step w e) \<and> awaitables (pool_step w e) a = awaitables w a \<and>
      job_started (pool_step w e) t = job_started w t"
    using assms
  proof (cases e)
    case (Submit_plain g)
    with assms show ?thesis by (cases g) (auto simp: sole_job_def job_addr_def async_ops)
  next
    case (Worker_take t')
    with assms show ?thesis
      by (auto simp: sole_job_def job_addr_def nth_list_update async_ops split: list.splits)
  next
    case (Worker_start t')
    with assms show ?thesis
      by (auto simp: sole_job_def job_addr_def spares_def start_job_def split: option.splits job.splits)
  next
    case (Worker_finish t')
    with assms show ?thesis
      by (auto simp: sole_job_def job_addr_def spares_def finish_job_def nth_list_update split: option.splits job.splits)
  qed (auto simp: sole_job_def job_addr_def spares_def async_ops)
  then show "sole_job t a h (pool_step w e)" "awaitables (pool_step w e) a = awaitables w a"
    "job_started (pool_step w e) t = job_started w t" by simp_all
qed

lemma sole_job_run:
  assumes "sole_job t a h w" "\<forall>e \<in> set es. spares t a e"
  shows "sole_job t a h (run_events pool_step w es) \<and> awaitables (run_events pool_step w es) a = awaitables w a \<and>
    job_started (run_events pool_step w es) t = job_started w t"
  using assms by (induction es arbitrary: w) (simp_all add: sole_job_step del: pool_step.simps)

subsection \<open>Shutting down\<close>

definition op_thread :: "thread_op \<Rightarrow> thread_id" where
  "op_thread x = (case x of Join t \<Rightarrow> t | Detach t \<Rightarrow> t)"

definition leavers_ok :: "'f pool_system \<Rightarrow> bool" where
  "leavers_ok w \<longleftrightarrow>
     (\<forall>t. exited w t \<longrightarrow> pool_stopped (pool w) \<and> pool_q (pool w) = [] \<and>
        t < length (running_jobs w) \<and> running_jobs w ! t = None)"

definition ops_ok :: "thread_id \<Rightarrow> thread_id list \<Rightarrow> thread_op list \<Rightarrow> 'f pool_system \<Rightarrow> bool" where
  "ops_ok self ts ops w \<longleftrightarrow>
     pool_stopped (pool w) \<and> shutdown_done (pool w) \<and> map op_thread ops @ ts = [0..<length (running_jobs w)] \<and>
     (\<forall>t. Join t \<in> set ops \<longrightarrow> t \<noteq> self \<and> exited w t)"

definition closing_ok :: "'f closing_system \<Rightarrow> bool" where
  "closing_ok w \<longleftrightarrow> leavers_ok (cs_pool w) \<and>
     (case cs_pc w of
        Not_called \<Rightarrow> workers (pool (cs_pool w)) = [0..<length (running_jobs (cs_pool w))]
      | Visiting self ts ops \<Rightarrow> ops_ok self ts ops (cs_pool w)
      | Returned self ops \<Rightarrow> ops_ok self [] ops (cs_pool w) \<and> workers (pool (cs_pool w)) = [])"

lemma pool_step_frame:
  "length (running_jobs (pool_step w e)) = length (running_jobs w)"
  "workers (pool (pool_step w e)) = workers (pool w)"
  "shutdown_done (pool (pool_step w e)) = shutdown_done (pool w)"
  "pool_stopped (pool w) \<Longrightarrow> pool_stopped (pool (pool_step w e))"
  "exited w t \<Longrightarrow> exited (pool_step w e) t"
  by (cases e; auto simp: async_ops split: list.splits)+

lemma leavers_ok_step: "leavers_ok w \<Longrightarrow> leavers_ok (pool_step w e)"
  by (cases e) (auto simp: leavers_ok_def nth_list_update async_ops split: list.splits if_splits)

lemma closing_ok_step: "closing_ok w \<Longrightarrow> closing_ok (closing_step w e)"
proof (cases e)
  case (Pool_does ev)
  assume "closing_ok w"
  with Pool_does show ?thesis
    by (auto simp: closing_ok_def ops_ok_def leavers_ok_step pool_step_frame simp del: pool_step.simps split: shutdown_pc.splits)
next
  case (Call_shutdown self)
  assume "closing_ok w"
  with Call_shutdown show ?thesis
    by (auto simp: closing_ok_def ops_ok_def leavers_ok_def shutdown_claim_def split: shutdown_pc.splits)
next
  case (Shutdown_next throws)
  assume "closing_ok w"
  with Shutdown_next show ?thesis
    by (auto simp: closing_ok_def ops_ok_def leavers_ok_def shutdown_visit_def shutdown_clear_def op_thread_def
        split: shutdown_pc.splits list.splits if_splits)
qed

lemma closing_reachable: "closing_ok (run_events closing_step (closing_init n) es)"
proof (rule run_events_invariant [where I = closing_ok])
  show "closing_ok (closing_init n)"
    by (simp add: closing_ok_def closing_init_def leavers_ok_def pool_system_init_def thread_pool_new_def
        thread_pool_size_def)
qed (rule closing_ok_step)

lemma pool_size_run: "length (running_jobs (cs_pool (run_events closing_step w es))) = length (running_jobs (cs_pool w))"
proof (rule run_events_invariant [where I = "\<lambda>w'. length (running_jobs (cs_pool w')) = length (running_jobs (cs_pool w))"])
  fix v :: "'a closing_system" and e
  assume "length (running_jobs (cs_pool v)) = length (running_jobs (cs_pool w))"
  then show "length (running_jobs (cs_pool (closing_step v e))) = length (running_jobs (cs_pool w))"
    by (cases e) (auto simp: pool_step_frame simp del: pool_step.simps split: option.splits shutdown_pc.splits list.splits)
qed simp

lemma ops_summary:
  assumes "map op_thread ops = ts" "distinct ts" "Join self \<notin> set ops"
  shows "ops = map (\<lambda>t. if t = self \<or> Detach t \<in> set ops then Detach t else Join t) ts"
proof -
  have "(if op_thread x = self \<or> Detach (op_thread x) \<in> set ops then Detach (op_thread x) else Join (op_thread x)) = x"
    if "x \<in> set ops" for x
  proof (cases x)
    case (Join t)
    have "Detach t \<notin> set ops"
    proof
      assume "Detach t \<in> set ops"
      moreover have "inj_on op_thread (set ops)" using assms(1,2) by (metis distinct_map)
      ultimately have "Join t = Detach t" using that Join inj_onD [of op_thread "set ops" "Join t" "Detach t"]
        by (simp add: op_thread_def)
      then show False by simp
    qed
    with that Join assms(3) show ?thesis by (auto simp: op_thread_def)
  qed (use that in \<open>simp add: op_thread_def\<close>)
  then show ?thesis unfolding assms(1) [symmetric] by (simp add: map_idI)
qed

text \<open>Once the pool is stopped, a worker that is left alone empties the queue and leaves.\<close>

abbreviation own_events :: "thread_id \<Rightarrow> 'f pool_event set" where
  "own_events t \<equiv> {Worker_take t, Worker_start t, Worker_finish t}"

lemma worker_becomes_idle:
  assumes "t < length (running_jobs w)"
  obtains es where "set es \<subseteq> own_events t" "running_jobs (run_events pool_step w es) ! t = None"
    "pool (run_events pool_step w es) = pool w"
proof (cases "running_jobs w ! t")
  case None
  show thesis by (rule that [of "[]"]) (simp_all add: None)
next
  case (Some j)
  show thesis
    by (rule that [of "(if job_started w t then [] else [Worker_start t]) @ [Worker_finish t]"]) (use assms Some in auto)
qed

lemma worker_leaves:
  assumes "t < length (running_jobs w)" "pool_stopped (pool w)"
  shows "\<exists>es. set es \<subseteq> own_events t \<and> exited (run_events pool_step w es) t"
  using assms
proof (induction "length (pool_q (pool w))" arbitrary: w rule: less_induct)
  case less
  obtain es where es: "set es \<subseteq> own_events t" "running_jobs (run_events pool_step w es) ! t = None"
    "pool (run_events pool_step w es) = pool w"
    using worker_becomes_idle [OF less.prems(1)] by blast
  let ?w = "run_events pool_step w es"
  have size: "length (running_jobs ?w) = length (running_jobs w)"
    by (rule run_events_invariant [where I = "\<lambda>v. length (running_jobs v) = length (running_jobs w)"])
      (simp_all add: pool_step_frame del: pool_step.simps)
  show ?case
  proof (cases "exited ?w t \<or> pool_q (pool w) = []")
    case True
    then have "exited (pool_step ?w (Worker_take t)) t"
      using es(2,3) less.prems size by (auto simp: async_ops split: list.splits)
    then show ?thesis
      using es(1) by (intro exI [of _ "es @ [Worker_take t]"]) (simp add: run_events_append del: pool_step.simps)
  next
    case False
    let ?v = "pool_step ?w (Worker_take t)"
    have "length (pool_q (pool ?v)) < length (pool_q (pool w))" "pool_stopped (pool ?v)"
      "t < length (running_jobs ?v)"
      using False es(2,3) less.prems size by (auto simp: async_ops split: list.splits)
    from less.hyps [OF this(1,3,2)] obtain fs where "set fs \<subseteq> own_events t" "exited (run_events pool_step ?v fs) t"
      by blast
    then show ?thesis
      using es(1) by (intro exI [of _ "es @ Worker_take t # fs"]) (simp add: run_events_append del: pool_step.simps)
  qed
qed

text \<open>The same inside a shutdown, and from there to its return.\<close>

fun internal_event :: "'f closing_event \<Rightarrow> bool" where
  "internal_event (Pool_does e) \<longleftrightarrow> acts_as e \<noteq> None"
| "internal_event (Call_shutdown _) \<longleftrightarrow> False"
| "internal_event (Shutdown_next throws) \<longleftrightarrow> \<not> throws"

lemma closing_worker_run:
  assumes "set es \<subseteq> own_events t" "blocked_by (cs_pc w) \<noteq> Some t"
  shows "run_events closing_step w (map Pool_does es) = w\<lparr>cs_pool := run_events pool_step (cs_pool w) es\<rparr>"
  using assms by (induction es arbitrary: w) (auto simp del: pool_step.simps)

lemma visits_return:
  assumes "closing_ok w" "cs_pc w = Visiting self ts ops"
  shows "\<exists>es ops'. list_all internal_event es \<and> cs_pc (run_events closing_step w es) = Returned self ops'"
  using assms
proof (induction ts arbitrary: w ops)
  case Nil
  then show ?case by (intro exI [of _ "[Shutdown_next False]"]) simp
next
  case (Cons t ts)
  have t: "t < length (running_jobs (cs_pool w))" "pool_stopped (pool (cs_pool w))"
  proof -
    have "map op_thread ops @ t # ts = [0..<length (running_jobs (cs_pool w))]" "pool_stopped (pool (cs_pool w))"
      using Cons.prems by (simp_all add: closing_ok_def ops_ok_def)
    then show "t < length (running_jobs (cs_pool w))" "pool_stopped (pool (cs_pool w))"
      by (metis atLeast_upt in_set_conv_decomp lessThan_iff)+
  qed
  obtain es where es: "list_all internal_event es" "cs_pc (run_events closing_step w es) = cs_pc w"
    "t = self \<or> exited (cs_pool (run_events closing_step w es)) t"
  proof (cases "t = self")
    case False
    obtain es where es: "set es \<subseteq> own_events t" "exited (run_events pool_step (cs_pool w) es) t"
      using worker_leaves [OF t] by blast
    have "run_events closing_step w (map Pool_does es) = w\<lparr>cs_pool := run_events pool_step (cs_pool w) es\<rparr>"
      using es(1) False Cons.prems(2) by (intro closing_worker_run) (auto simp: blocked_by_def)
    moreover have "list_all internal_event (map Pool_does es)" using es(1) by (fastforce simp: list_all_iff)
    ultimately show thesis using es(2) that [of "map Pool_does es"] by simp
  qed (use that [of "[]"] in simp)
  let ?w = "run_events closing_step w (es @ [Shutdown_next False])"
  have "cs_pc ?w = Visiting self ts (ops @ [if t = self then Detach t else Join t])"
    using es(2,3) Cons.prems(2) by (auto simp: run_events_append shutdown_visit_def)
  moreover have "closing_ok ?w"
    by (rule run_events_invariant [where I = closing_ok]) (use Cons.prems(1) closing_ok_step in auto)
  ultimately obtain fs ops' where "list_all internal_event fs"
    "cs_pc (run_events closing_step ?w fs) = Returned self ops'"
    using Cons.IH by blast
  with es(1) show ?case
    by (intro exI [of _ "es @ Shutdown_next False # fs"] exI [of _ ops']) (simp add: run_events_append)
qed

text \<open>What \<open>shutdown()\<close> guarantees when it has returned.\<close>

lemma returned_drained:
  assumes "closing_ok w" "cs_pc w = Returned self ops"
  shows "map op_thread ops = [0..<length (running_jobs (cs_pool w))] \<and> Join self \<notin> set ops \<and>
    pool_stopped (pool (cs_pool w)) \<and> thread_pool_size (pool (cs_pool w)) = 0 \<and>
    closing_step w (Call_shutdown self') = w \<and>
    (\<forall>t. Join t \<in> set ops \<longrightarrow>
       exited (cs_pool w) t \<and> running_jobs (cs_pool w) ! t = None \<and> pool_q (pool (cs_pool w)) = [])"
  using assms by (auto simp: closing_ok_def ops_ok_def leavers_ok_def thread_pool_size_def shutdown_claim_def)

lemma all_joined_empty:
  assumes "closing_ok w" "cs_pc w = Returned self ops" "\<forall>t. Detach t \<notin> set ops" "running_jobs (cs_pool w) \<noteq> []"
  shows "jobs_inside (cs_pool w) = {#}"
proof -
  let ?p = "cs_pool w" let ?n = "length (running_jobs (cs_pool w))"
  note ret = returned_drained [OF assms(1,2)]
  have every: "Join t \<in> set ops" if "t < ?n" for t
  proof -
    have "t \<in> op_thread ` set ops" using that ret by (metis atLeast_upt lessThan_iff set_map)
    then show ?thesis using assms(3) by (auto simp: op_thread_def split: thread_op.splits)
  qed
  then have "running_jobs ?p = replicate ?n None" using ret by (intro nth_equalityI) auto
  then have "present (running_jobs ?p) = {#}" by (metis present_simps(4))
  moreover have "pool_q (pool ?p) = []" using ret every [of 0] assms(4) by simp
  ultimately show ?thesis by (simp add: jobs_inside_def)
qed

lemma pool_size_reachable:
  "length (running_jobs (cs_pool (run_events closing_step (closing_init n) es))) = (if n = 0 then 1 else n)"
  by (simp add: pool_size_run closing_init_def pool_system_init_def thread_pool_size_def thread_pool_new_def)

section \<open>Properties\<close>

text \<open>
  C27: The pool starts jobs in the order of submission. In every execution, the jobs workers have taken up
  followed by those still queued are exactly the jobs the pool accepted, in order; a submission is
  accepted unless the callable is empty or the pool has been stopped.
\<close>
theorem pool_starts_in_submission_order:
  "log_events pool_step pool_starts (pool_system_init n) es
     @ pool_q (pool (run_events pool_step (pool_system_init n) es)) =
   log_events pool_step pool_accepts (pool_system_init n) es"
proof -
  have "queued_jobs (run_events pool_step (pool_system_init n) es) =
      pool_q (pool (run_events pool_step (pool_system_init n) es))"
    using no_empty_job [of n es] by (metis (mono_tags, lifting) filter_True)
  then show ?thesis using pool_order.conserve_run [of "pool_system_init n" es] by simp
qed

text \<open>
  C4: Every coroutine that awaits an accepted \<open>submit\<close> is posted back exactly once. With any number of
  workers interleaved in any way, the handles on the \<open>io_context\<close> queue, together with those of the
  jobs still queued or running, are exactly those of the accepted awaitables (where plain callables do
  not post handles themselves).
\<close>
theorem pool_posts_each_awaiter_once:
  assumes "\<forall>e \<in> set es. quiet_event e" and w: "w = run_events pool_step (pool_system_init n) es"
  shows "mset (handle_q (pool_ctx w)) + (\<Sum>fn \<in># jobs_inside w. mset (job_handles fn)) =
    (\<Sum>fn \<in># mset (log_events pool_step pool_accepts (pool_system_init n) es). mset (job_handles fn))"
proof -
  have quiet: "quiet_system (pool_system_init n)"
    by (auto simp: quiet_system_def pool_system_init_def thread_pool_new_def quiet_job_def)
  have flat: "mset (concat (map job_handles fns)) = (\<Sum>fn \<in># mset fns. mset (job_handles fn))"
    for fns :: "'f job func list"
    by (induction fns) simp_all
  show ?thesis
    using quiet_run_posts [OF quiet assms(1)] pool_jobs.bag_conserve_run [of "pool_system_init n" es]
    by (simp add: w flat) (metis image_mset_union sum_mset.union)
qed

theorem pool_posts_each_awaiter_once_witness:
  "handle_q (pool_ctx (run_events pool_step (pool_system_init 2)
     [Await_submit 0 7 (Inr (Some (V_int 1))) cancel_token_default,
      Await_submit 1 8 (Inr None) cancel_token_default,
      Worker_take 0, Worker_take 1, Worker_start 0, Worker_start 1, Worker_finish 1, Worker_finish 0])
     :: unit scheduler) = [Some 8, Some 7]
   \<and> mset [Some 8, Some 7] = mset [Some (7 :: nat), Some 8]"
proof -
  let ?es = "[Await_submit 0 7 (Inr (Some (V_int 1))) cancel_token_default,
      Await_submit 1 8 (Inr None) cancel_token_default,
      Worker_take 0, Worker_take 1, Worker_start 0, Worker_start 1, Worker_finish 1, Worker_finish 0]
      :: unit pool_event list"
  have "handle_q (pool_ctx (run_events pool_step (pool_system_init 2) ?es)) = [Some 8, Some 7]"
    by (simp add: pool_system_init_def async_ops start_job_def finish_job_def thread_pool_size_def
        upt_conv_Cons)
  moreover have "\<forall>e \<in> set ?es. quiet_event e" by (simp add: quiet_event_def)
  note pool_posts_each_awaiter_once [OF this refl, of 2]
  ultimately show ?thesis by (simp del: run_events.simps log_events.simps pool_step.simps)
qed

text \<open>
  C14: The result of \<open>co_await pool.submit(fn, ct)\<close>. A worker that has taken the job starts it, anything may
  happen while the callable runs (other workers, submissions, a stop, cancellations), and the worker
  finishes it. Then the awaiting coroutine is posted, and resuming it yields the cancellation error if the
  token was cancelled when the worker started, and otherwise what the callable returned or threw, even if
  the token was cancelled meanwhile. An empty result is never read.
\<close>
theorem submit_result:
  assumes "sole_job t a h w" "\<not> job_started w t" "awaitables w a = submit_awaitable_new fn ct"
    and "\<forall>e \<in> set es. spares t a e"
    and "case fn of Inl _ \<Rightarrow> True | Inr v \<Rightarrow> is_void \<longleftrightarrow> v = None"
    and w': "w' = run_events pool_step w (Worker_start t # es)"
  shows "submit_await_resume is_void (awaitables (pool_step w' (Worker_finish t)) a) =
      Inr (if cancel_token_is_cancelled (tokens w) ct then Inl (System_error cancelled_ec) else fn) \<and>
    handle_q (pool_ctx (pool_step w' (Worker_finish t))) = handle_q (pool_ctx w') @ [Some h]"
proof -
  let ?w = "pool_step w (Worker_start t)"
  have w1: "sole_job t a h ?w" "awaitables ?w a = submit_start (tokens w) (submit_awaitable_new fn ct)" "job_started ?w t"
    using assms(1-3) by (auto simp: sole_job_def start_job_def)
  have "w' = run_events pool_step ?w es" by (simp add: w')
  with sole_job_run [OF w1(1) assms(4)] w1(2,3)
  have "sole_job t a h w'" "awaitables w' a = submit_start (tokens w) (submit_awaitable_new fn ct)" "job_started w' t"
    by simp_all
  with assms(5) show ?thesis
    by (auto simp: sole_job_def finish_job_def submit_start_def submit_finish_def submit_awaitable_new_def
        submit_await_resume_def result_store_set_def result_store_take_def async_ops split: sum.splits option.splits)
qed

theorem submit_result_witness:
  "let w = run_events pool_step ((pool_system_init 2)\<lparr>tokens := snd (cancel_source_new cancel_store_init)\<rparr>)
         [Await_submit 0 7 (Inl (Runtime_error ''boom'')) \<lparr>token_st = Some 0\<rparr>, Worker_take 1];
       w' = run_events pool_step (w :: unit pool_system) [Worker_start 1, Request_cancel \<lparr>source_st = Some 0\<rparr>]
   in submit_await_resume True (awaitables (pool_step w' (Worker_finish 1)) 0) =
      Inr (Inl (Runtime_error ''boom''))"
proof -
  let ?w = "run_events pool_step ((pool_system_init 2)\<lparr>tokens := snd (cancel_source_new cancel_store_init)\<rparr>)
    [Await_submit 0 7 (Inl (Runtime_error ''boom'')) \<lparr>token_st = Some 0\<rparr>, Worker_take 1] :: unit pool_system"
  note defs = pool_system_init_def async_ops thread_pool_size_def upt_conv_Cons
  have "sole_job 1 0 7 ?w" "\<not> job_started ?w 1"
    "awaitables ?w 0 = submit_awaitable_new (Inl (Runtime_error ''boom'')) \<lparr>token_st = Some 0\<rparr>"
    "\<not> cancel_token_is_cancelled (tokens ?w) \<lparr>token_st = Some 0\<rparr>"
    by (simp_all add: defs sole_job_def job_addr_def cancel_store_init_def less_Suc_eq numeral_2_eq_2)
  with submit_result [of 1 0 7 ?w "Inl (Runtime_error ''boom'')" "\<lparr>token_st = Some 0\<rparr>"
      "[Request_cancel \<lparr>source_st = Some 0\<rparr>]" True] show ?thesis
    unfolding Let_def by (simp add: spares_def del: run_events.simps pool_step.simps)
qed

text \<open>
  C17: No wake-up of a worker is lost, with any number of workers and any interleaving of submissions and
  stop: as long as a job is queued or a stop was requested, the workers are not all left sleeping, some
  worker is awake or a notification is due; and after a stop request a sleeping worker is always going to
  be notified.
\<close>
theorem pool_wakeup_not_lost:
  assumes "monitor_reachable (pool_monitor n) (thread_pool_new n) m"
  shows "(pool_q (mdata m) \<noteq> [] \<or> pool_stopped (mdata m) \<longrightarrow> \<not> dormant (pool_monitor n) m) \<and>
    (pool_stopped (mdata m) \<and> some_thread (pool_monitor n) m Asleep \<longrightarrow> 0 < owed_all m)"
  using pool_workers.work_noticed [OF assms] pool_workers.halt_noticed [OF assms]
    pool_workers.halt_announced [OF assms] by blast

theorem pool_wakeup_not_lost_witness:
  "\<exists>m :: bool thread_pool monitor. monitor_reachable (pool_monitor 1) (thread_pool_new 1) m \<and>
     pcs m 0 = Asleep \<and> pool_q (mdata m) = [Some True] \<and> \<not> dormant (pool_monitor 1) m"
proof -
  let ?c = "pool_monitor 1 :: bool thread_pool monitor_code"
  let ?m0 = "monitor_start (thread_pool_new 1 :: bool thread_pool)"
  let ?m1 = "?m0\<lparr>pcs := (pcs ?m0)(0 := Checked)\<rparr>"
  let ?m2 = "?m1\<lparr>pcs := (pcs ?m1)(0 := Asleep)\<rparr>"
  let ?m3 = "?m2\<lparr>mdata := thread_pool_enqueue (Some True) (mdata ?m2), owed_one := Suc (owed_one ?m2)\<rparr>"
  note code = pool_monitor_def monitor_start_def lock_free_def async_ops
  have "monitor_reachable ?c (thread_pool_new 1) ?m0" by (rule monitor_reachable.start)
  moreover have "monitor_step ?c ?m0 ?m1" by (rule monitor_step.check) (simp_all add: code)
  moreover have "monitor_step ?c ?m1 ?m2" by (rule monitor_step.sleep) (simp_all add: code)
  moreover have "monitor_step ?c ?m2 ?m3" by (rule monitor_step.update_one) (auto simp: code)
  ultimately have reach: "monitor_reachable ?c (thread_pool_new 1) ?m3" by (blast intro: monitor_reachable.step)
  have m3: "pcs ?m3 0 = Asleep" "pool_q (mdata ?m3) = [Some True]" by (simp_all add: code)
  then have "\<not> dormant ?c ?m3" using pool_wakeup_not_lost [OF reach] by simp
  with reach m3 show ?thesis by (intro exI [of _ ?m3]) simp
qed

text \<open>
  C28: A worker leaves only when it must: once any worker has left its loop, the pool is stopped and its
  queue is empty, now and in every later state. So joining all workers leaves no accepted job behind.
\<close>
theorem pool_worker_exit_means_drained:
  assumes "monitor_reachable (pool_monitor n) (thread_pool_new n) m" "pcs m t = Exited"
  shows "pool_q (mdata m) = [] \<and> pool_stopped (mdata m)"
  using pool_exited_drained [OF assms(1)] assms(2) by blast

theorem pool_worker_exit_means_drained_witness:
  "\<exists>m :: bool thread_pool monitor. monitor_reachable (pool_monitor 1) (thread_pool_new 1) m \<and>
     pcs m 0 = Exited \<and> pool_q (mdata m) = [] \<and> pool_stopped (mdata m)"
proof -
  let ?c = "pool_monitor 1 :: bool thread_pool monitor_code"
  let ?m0 = "monitor_start (thread_pool_new 1 :: bool thread_pool)"
  let ?m1 = "?m0\<lparr>mdata := thread_pool_stop (mdata ?m0), owed_all := Suc (owed_all ?m0)\<rparr>"
  let ?m2 = "?m1\<lparr>mdata := mdata ?m1, pcs := (pcs ?m1)(0 := if True then Exited else Awake)\<rparr>"
  have "monitor_step ?c ?m0 ?m1"
    by (rule monitor_step.update_all) (simp_all add: pool_monitor_def lock_free_def monitor_start_def)
  moreover have "monitor_step ?c ?m1 ?m2"
    by (rule monitor_step.enter)
      (simp_all add: pool_monitor_def lock_free_def monitor_start_def pool_critical_def async_ops)
  ultimately have "monitor_reachable ?c (thread_pool_new 1) ?m2"
    by (blast intro: monitor_reachable.intros)
  moreover have "pcs ?m2 0 = Exited" by simp
  ultimately show ?thesis using pool_worker_exit_means_drained [of 1 ?m2 0] by blast
qed

text \<open>
  C13: \<open>shutdown()\<close> returns, and what it guarantees then, with workers, submissions and cancellations going on
  all the time. From every state it can be in, steps of the workers and of the calling thread alone lead
  to its return, whoever called it and however much work is queued. When it has returned it has treated
  each worker exactly once, in order, and never joined the calling thread; the pool is stopped, has no
  workers, and every later call does nothing; a joined worker has left and executes nothing; if at least
  one worker was joined the queue is empty; and if all were joined (nobody was detached) no accepted job
  is left, neither queued nor running.
\<close>
theorem pool_shutdown_drains:
  assumes "w = run_events closing_step (closing_init n :: 'f closing_system) es"
  shows "(cs_pc w = Visiting self ts ops \<longrightarrow>
      (\<exists>es' ops'. list_all internal_event es' \<and> cs_pc (run_events closing_step w es') = Returned self ops')) \<and>
    (cs_pc w = Returned self ops \<longrightarrow>
      ops = shutdown_threads self (\<lambda>t. Detach t \<in> set ops) (thread_pool_new n :: 'f job thread_pool) \<and>
      Join self \<notin> set ops \<and> pool_stopped (pool (cs_pool w)) \<and> thread_pool_size (pool (cs_pool w)) = 0 \<and>
      closing_step w (Call_shutdown self') = w \<and>
      (\<forall>t. Join t \<in> set ops \<longrightarrow>
         exited (cs_pool w) t \<and> running_jobs (cs_pool w) ! t = None \<and> pool_q (pool (cs_pool w)) = []) \<and>
      ((\<forall>t. Detach t \<notin> set ops) \<longrightarrow> jobs_inside (cs_pool w) = {#}))"
proof -
  have ok: "closing_ok w" and size: "length (running_jobs (cs_pool w)) = (if n = 0 then 1 else n)"
    using closing_reachable [of n es] pool_size_reachable [of n es] by (simp_all add: assms)
  have nonempty: "running_jobs (cs_pool w) \<noteq> []" using size by (auto split: if_splits)
  have "ops = shutdown_threads self (\<lambda>t. Detach t \<in> set ops) (thread_pool_new n :: 'f job thread_pool)"
    if "cs_pc w = Returned self ops"
    using ops_summary [of ops _ self] returned_drained [OF ok that] size
    by (simp add: shutdown_threads_def thread_pool_new_def)
  moreover note visits_return [OF ok, of self ts ops] returned_drained [OF ok, of self ops self']
    all_joined_empty [OF ok _ _ nonempty, of self ops]
  ultimately show ?thesis by blast
qed

theorem pool_shutdown_drains_witness:
  "let w = run_events closing_step (closing_init 1 :: unit closing_system)
         [Pool_does (Await_submit 0 7 (Inr None) cancel_token_default), Call_shutdown 9,
          Shutdown_next False, Pool_does (Worker_take 0), Shutdown_next False, Pool_does (Worker_start 0),
          Pool_does (Worker_finish 0), Shutdown_next False, Pool_does (Worker_take 0), Shutdown_next False,
          Shutdown_next False]
   in cs_pc w = Returned 9 [Join 0] \<and> handle_q (pool_ctx (cs_pool w)) = [Some 7] \<and> jobs_inside (cs_pool w) = {#}"
proof -
  let ?w = "run_events closing_step (closing_init 1 :: unit closing_system)
         [Pool_does (Await_submit 0 7 (Inr None) cancel_token_default), Call_shutdown 9,
          Shutdown_next False, Pool_does (Worker_take 0), Shutdown_next False, Pool_does (Worker_start 0),
          Pool_does (Worker_finish 0), Shutdown_next False, Pool_does (Worker_take 0), Shutdown_next False,
          Shutdown_next False]"
  have w: "cs_pc ?w = Returned 9 [Join 0]" "handle_q (pool_ctx (cs_pool ?w)) = [Some 7]"
    by (simp_all add: closing_init_def pool_system_init_def async_ops thread_pool_size_def start_job_def
        finish_job_def blocked_by_def shutdown_claim_def shutdown_visit_def shutdown_clear_def)
  have "\<forall>t. Detach t \<notin> set [Join 0]" by simp
  with pool_shutdown_drains [OF refl, of _ _ 9 "[]" "[Join 0]" 3] w have "jobs_inside (cs_pool ?w) = {#}" by blast
  with w show ?thesis unfolding Let_def by blast
qed

end
