(* ===== verification/Async_Timer.thy ===== *)
theory Async_Timer
  imports Async_Task
begin

text \<open>
  The timer service (\<open>include/vix/async/core/timer.hpp\<close>, \<open>src/core/timer.cpp\<close>): the ordered queue of
  entries, scheduling, stopping, the two nested loops of the worker thread, and \<open>sleep_for\<close>.
\<close>

section \<open>Entries and their order\<close>

text \<open>
  Time points and durations are ticks of \<open>std::chrono::steady_clock\<close>, a signed 64-bit count; \<open>after\<close>
  adds two of them, and leaving the range is undefined.
\<close>

type_synonym time_point = int
type_synonym duration = int

definition time_add :: "time_point \<Rightarrow> duration \<Rightarrow> ub + time_point" where
  "time_add t d = (if - (2 ^ 63) \<le> t + d \<and> t + d < 2 ^ 63 then Inr (t + d) else Inl Signed_overflow)"

type_synonym u64 = "64 word"

record 'fn entry =
  entry_when :: time_point
  entry_id :: u64
  entry_ct :: cancel_token
  entry_job :: "'fn func"

definition cmp :: "'fn entry \<Rightarrow> 'fn entry \<Rightarrow> bool" where
  "cmp a b = (if entry_when a \<noteq> entry_when b then entry_when a < entry_when b else entry_id a < entry_id b)"

text \<open>\<open>std::multiset::insert\<close>: behind every element that is not greater.\<close>

primrec multiset_insert :: "'fn entry \<Rightarrow> 'fn entry list \<Rightarrow> 'fn entry list" where
  "multiset_insert e [] = [e]"
| "multiset_insert e (x # xs) = (if cmp e x then e # x # xs else x # multiset_insert e xs)"

section \<open>State and operations\<close>

record 'fn timer =
  seq :: u64
  timer_q :: "'fn entry list"
  timer_stopped :: bool

definition timer_init :: "'fn timer" where
  "timer_init = \<lparr>seq = 0, timer_q = [], timer_stopped = False\<rparr>"

definition timer_stop :: "'fn timer \<Rightarrow> 'fn timer" where
  "timer_stop t = t\<lparr>timer_q := [], timer_stopped := True\<rparr>"

definition timer_schedule :: "time_point \<Rightarrow> 'fn func \<Rightarrow> cancel_token \<Rightarrow> 'fn timer \<Rightarrow> 'fn timer" where
  "timer_schedule tp j ct t =
     (if j = None \<or> timer_stopped t then t
      else (let i = seq t + 1
            in t\<lparr>seq := i,
                 timer_q := multiset_insert \<lparr>entry_when = tp, entry_id = i, entry_ct = ct, entry_job = j\<rparr> (timer_q t)\<rparr>))"

text \<open>\<open>after\<close> wraps the callable into a job, which is never null.\<close>

definition timer_after ::
  "time_point \<Rightarrow> duration \<Rightarrow> 'fn \<Rightarrow> cancel_token \<Rightarrow> 'fn timer \<Rightarrow> ub + 'fn timer" where
  "timer_after tnow d fn ct t =
     (case time_add tnow d of Inl u \<Rightarrow> Inl u | Inr tp \<Rightarrow> Inr (timer_schedule tp (Some fn) ct t))"

definition timer_ctx_post :: "'fn func \<Rightarrow> 'fn scheduler \<Rightarrow> 'fn scheduler" where
  "timer_ctx_post fn c = io_context_post_fn fn c"

definition timer_ctx_post_handle :: "handle \<Rightarrow> 'fn scheduler \<Rightarrow> 'fn scheduler" where
  "timer_ctx_post_handle h c = io_context_post_handle h c"

text \<open>What the destructor does with the worker, after \<open>stop()\<close>.\<close>

datatype worker_end = Worker_absent | Worker_detached | Worker_joined

definition timer_destroy ::
  "nat option \<Rightarrow> nat \<Rightarrow> bool \<Rightarrow> 'fn timer \<Rightarrow> 'fn timer \<times> worker_end" where
  "timer_destroy worker self join_throws t =
     (timer_stop t,
      case worker of
        None \<Rightarrow> Worker_absent
      | Some w \<Rightarrow> if w = self \<or> join_throws then Worker_detached else Worker_joined)"

section \<open>The worker thread\<close>

text \<open>
  Where the thread is: \<open>At_top\<close> at the first wait; \<open>Took e\<close> at the head of the inner loop;
  \<open>Not_due e\<close> after it found the deadline in the future, before it takes the mutex again;
  \<open>Timed_wait e\<close> in \<open>wait_until\<close>; \<open>Due e\<close> after the inner loop, before it reads the token; \<open>Posting e\<close>
  between that check and the call of \<open>ctx_post\<close>; \<open>Left\<close> after it returned. The mutex is not held in
  \<open>Took\<close>, \<open>Not_due\<close>, \<open>Due\<close> and \<open>Posting\<close>, so anything may happen between these steps.
\<close>

datatype 'fn timer_pc =
    At_top
  | Took "'fn entry"
  | Not_due "'fn entry"
  | Timed_wait "'fn entry"
  | Due "'fn entry"
  | Posting "'fn entry"
  | Left

record 'fn timer_system =
  tm :: "'fn timer"
  pc :: "'fn timer_pc"
  tnow :: time_point
  tctx :: "'fn scheduler"
  ttokens :: cancel_store

fun timer_loop_step :: "'fn timer_pc \<Rightarrow> 'fn timer_system \<Rightarrow> 'fn timer_system" where
  "timer_loop_step At_top w =
     (if timer_stopped (tm w) then w\<lparr>pc := Left\<rparr>
      else (case timer_q (tm w) of
              [] \<Rightarrow> w
            | e # q \<Rightarrow> w\<lparr>tm := (tm w)\<lparr>timer_q := q\<rparr>, pc := Took e\<rparr>))"
| "timer_loop_step (Took e) w = w\<lparr>pc := if tnow w \<ge> entry_when e then Due e else Not_due e\<rparr>"
| "timer_loop_step (Not_due e) w =
     (if timer_stopped (tm w) then w\<lparr>pc := Left\<rparr>
      else (case timer_q (tm w) of
              [] \<Rightarrow> w\<lparr>pc := Timed_wait e\<rparr>
            | x # q \<Rightarrow>
                if entry_when x < entry_when e
                then w\<lparr>tm := (tm w)\<lparr>timer_q := tl (multiset_insert e (x # q))\<rparr>, pc := Took x\<rparr>
                else w\<lparr>pc := Timed_wait e\<rparr>))"
| "timer_loop_step (Timed_wait e) w =
     (if timer_stopped (tm w) then w\<lparr>pc := Left\<rparr>
      else if tnow w \<ge> entry_when e then w\<lparr>pc := Took e\<rparr>
      else w)"
| "timer_loop_step (Due e) w =
     (if cancel_token_is_cancelled (ttokens w) (entry_ct e) then w\<lparr>pc := At_top\<rparr>
      else (case entry_job e of
              None \<Rightarrow> w\<lparr>pc := At_top\<rparr>
            | Some j \<Rightarrow> w\<lparr>pc := Posting e\<rparr>))"
| "timer_loop_step (Posting e) w = w\<lparr>pc := At_top, tctx := timer_ctx_post (entry_job e) (tctx w)\<rparr>"
| "timer_loop_step Left w = w"

text \<open>
  An execution: other threads schedule, stop and cancel, time passes, and the worker takes steps, in
  any order.
\<close>

datatype 'fn timer_event =
    Schedule_at time_point "'fn func" cancel_token
  | Stop_timer
  | Tick nat
  | Cancel_request cancel_source
  | Worker_step

fun timer_event_step :: "'fn timer_system \<Rightarrow> 'fn timer_event \<Rightarrow> 'fn timer_system" where
  "timer_event_step w (Schedule_at tp j ct) = w\<lparr>tm := timer_schedule tp j ct (tm w)\<rparr>"
| "timer_event_step w Stop_timer = w\<lparr>tm := timer_stop (tm w)\<rparr>"
| "timer_event_step w (Tick d) = w\<lparr>tnow := tnow w + int d\<rparr>"
| "timer_event_step w (Cancel_request src) = w\<lparr>ttokens := cancel_source_request_cancel src (ttokens w)\<rparr>"
| "timer_event_step w Worker_step = timer_loop_step (pc w) w"

definition timer_system_init :: "time_point \<Rightarrow> cancel_store \<Rightarrow> 'fn timer_system" where
  "timer_system_init t0 m =
     \<lparr>tm = timer_init, pc = At_top, tnow = t0, tctx = scheduler_init, ttokens = m\<rparr>"

section \<open>\<open>sleep_for\<close>\<close>

definition sleep_await_ready :: "duration \<Rightarrow> cancel_store \<Rightarrow> cancel_token \<Rightarrow> bool" where
  "sleep_await_ready d m ct \<longleftrightarrow> d = 0 \<or> cancel_token_is_cancelled m ct"

text \<open>
  The callable given to \<open>after\<close> posts the handle of the sleeping coroutine. \<open>wake h\<close> is this lambda, as
  the client of the timer represents callables; \<open>sleep_job\<close> is what it does.
\<close>

definition sleep_job :: "handle \<Rightarrow> 's \<Rightarrow> 's \<times> handle list" where
  "sleep_job h d = (d, if h = None then [] else [h])"

definition sleep_await_suspend ::
  "(handle \<Rightarrow> 'fn) \<Rightarrow> time_point \<Rightarrow> duration \<Rightarrow> handle \<Rightarrow> 'fn timer \<Rightarrow> ub + 'fn timer" where
  "sleep_await_suspend wake t d h tmr = timer_after t d (wake h) cancel_token_default tmr"

definition sleep_await_resume :: "cancel_store \<Rightarrow> cancel_token \<Rightarrow> exn + unit" where
  "sleep_await_resume m ct =
     (if cancel_token_is_cancelled m ct then Inl (System_error cancelled_ec) else Inr ())"

section \<open>What happens to entries\<close>

fun timer_accepts :: "'fn timer_system \<Rightarrow> 'fn timer_event \<Rightarrow> 'fn entry list" where
  "timer_accepts w (Schedule_at tp j ct) =
     (if j = None \<or> timer_stopped (tm w) then []
      else [\<lparr>entry_when = tp, entry_id = seq (tm w) + 1, entry_ct = ct, entry_job = j\<rparr>])"
| "timer_accepts w _ = []"

definition held :: "'fn timer_pc \<Rightarrow> 'fn entry list" where
  "held p =
     (case p of
        Took e \<Rightarrow> [e] | Not_due e \<Rightarrow> [e] | Timed_wait e \<Rightarrow> [e] | Due e \<Rightarrow> [e] | Posting e \<Rightarrow> [e] | _ \<Rightarrow> [])"

text \<open>
  The fate of an entry, read off the state before and after an event: posted, when the queue of the
  \<open>io_context\<close> changed while the worker held it; skipped, when the worker went back to the top after the
  check without posting; dropped, when a stop cleared the queue or the worker left while it held it.
\<close>

definition timer_posts :: "'fn timer_system \<Rightarrow> 'fn timer_event \<Rightarrow> 'fn entry list" where
  "timer_posts w ev =
     (if length (fn_q (tctx (timer_event_step w ev))) = length (fn_q (tctx w)) then [] else held (pc w))"

definition timer_skips :: "'fn timer_system \<Rightarrow> 'fn timer_event \<Rightarrow> 'fn entry list" where
  "timer_skips w ev =
     (case (pc w, pc (timer_event_step w ev)) of (Due e, At_top) \<Rightarrow> [e] | _ \<Rightarrow> [])"

definition timer_drops :: "'fn timer_system \<Rightarrow> 'fn timer_event \<Rightarrow> 'fn entry list" where
  "timer_drops w ev =
     (case ev of
        Stop_timer \<Rightarrow> timer_q (tm w)
      | _ \<Rightarrow> (case pc (timer_event_step w ev) of Left \<Rightarrow> held (pc w) | _ \<Rightarrow> []))"

definition timer_retires :: "'fn timer_system \<Rightarrow> 'fn timer_event \<Rightarrow> 'fn entry list" where
  "timer_retires w e = timer_posts w e @ timer_skips w e @ timer_drops w e"

definition timer_pending :: "'fn timer_system \<Rightarrow> 'fn entry list" where
  "timer_pending w = held (pc w) @ timer_q (tm w)"

section \<open>Lemmas\<close>

lemmas timer_ops [async_ops] =
  timer_schedule_def timer_stop_def timer_ctx_post_def timer_ctx_post_handle_def Let_def

lemma mset_multiset_insert [simp]: "mset (multiset_insert e q) = add_mset e (mset q)"
  by (induction q) auto

lemma not_cmp_later [simp]: "entry_when x < entry_when e \<Longrightarrow> \<not> cmp e x"
  by (simp add: cmp_def)

lemma set_multiset_insert [simp]: "set (multiset_insert e q) = insert e (set q)"
  by (induction q) auto

lemma timer_posts_eq:
  "timer_posts w ev = (case (ev, pc w) of (Worker_step, Posting e) \<Rightarrow> [e] | _ \<Rightarrow> [])"
  by (cases ev; cases "pc w") (auto simp: timer_posts_def held_def async_ops split: list.splits option.splits)

lemma timer_skips_eq:
  "timer_skips w ev =
     (case (ev, pc w) of
        (Worker_step, Due e) \<Rightarrow>
          if cancel_token_is_cancelled (ttokens w) (entry_ct e) \<or> entry_job e = None then [e] else []
      | _ \<Rightarrow> [])"
  by (cases ev; cases "pc w") (auto simp: timer_skips_def split: option.splits)

lemma timer_drops_eq:
  "timer_drops w ev =
     (case ev of
        Stop_timer \<Rightarrow> timer_q (tm w)
      | Worker_step \<Rightarrow>
          if timer_stopped (tm w) then (case pc w of Not_due e \<Rightarrow> [e] | Timed_wait e \<Rightarrow> [e] | _ \<Rightarrow> []) else []
      | _ \<Rightarrow> [])"
  by (cases ev; cases "pc w") (auto simp: timer_drops_def held_def split: list.splits option.splits)

lemmas timer_fates = timer_retires_def timer_posts_eq timer_skips_eq timer_drops_eq

lemma timer_conserves:
  "mset (timer_retires w e) + mset (timer_pending (timer_event_step w e)) =
     mset (timer_pending w) + mset (timer_accepts w e)"
proof (cases e)
  case Worker_step
  then show ?thesis
    by (cases "pc w")
      (auto simp: timer_fates timer_pending_def held_def
        split: list.splits option.splits)
qed (auto simp: timer_fates timer_pending_def async_ops)

interpretation timer_entries:
  bag_component timer_event_step timer_accepts timer_retires "\<lambda>w. mset (timer_pending w)"
  by unfold_locales (rule timer_conserves)

lemma timer_step_posts:
  "fn_q (tctx (timer_event_step w ev)) = fn_q (tctx w) @ map entry_job (timer_posts w ev)"
  by (cases ev; cases "pc w") (auto simp: timer_posts_eq async_ops split: list.splits option.splits)

lemma timer_run_posts:
  "fn_q (tctx (run_events timer_event_step w es)) =
     fn_q (tctx w) @ map entry_job (log_events timer_event_step timer_posts w es)"
  by (induction es arbitrary: w) (simp_all add: timer_step_posts)

subsection \<open>Order\<close>

lemma multiset_insert_sorted:
  "sorted (map entry_when q) \<Longrightarrow> sorted (map entry_when (multiset_insert e q))"
  by (induction q) (auto simp: cmp_def split: if_splits)

lemma multiset_insert_stable:
  assumes "sorted (map entry_when q)" "\<forall>x \<in> set q. entry_id x < entry_id e"
  shows "filter (\<lambda>x. k = entry_when x) (multiset_insert e q) =
    filter (\<lambda>x. k = entry_when x) (q @ [e])"
  using assms
proof (induction q)
  case (Cons x q)
  have "entry_when e < entry_when x \<Longrightarrow> filter (\<lambda>y. entry_when e = entry_when y) (x # q) = []"
    using Cons.prems(1) by (auto simp: filter_empty_conv)
  with Cons show ?case by (auto simp: cmp_def)
qed simp

text \<open>Inserting in sequence, with growing ids, is a stable sort by deadline.\<close>

lemma sort_key_snoc:
  assumes "\<forall>x \<in> set xs. entry_id x < entry_id e"
  shows "sort_key entry_when (xs @ [e]) = multiset_insert e (sort_key entry_when xs)"
proof (rule properties_for_sort_key)
  show "mset (multiset_insert e (sort_key entry_when xs)) = mset (xs @ [e])" by simp
  show "sorted (map entry_when (multiset_insert e (sort_key entry_when xs)))"
    by (intro multiset_insert_sorted) simp
  fix k
  show "filter (\<lambda>x. entry_when k = entry_when x) (multiset_insert e (sort_key entry_when xs)) =
      filter (\<lambda>x. entry_when k = entry_when x) (xs @ [e])"
    using assms multiset_insert_stable [of "sort_key entry_when xs" e "entry_when k"]
      sort_key_stable [of entry_when "entry_when k" xs]
    by (simp add: eq_commute)
qed

abbreviation schedule_events :: "(time_point \<times> 'fn \<times> cancel_token) list \<Rightarrow> 'fn timer_event list" where
  "schedule_events xs \<equiv> map (\<lambda>(tp, j, ct). Schedule_at tp (Some j) ct) xs"

lemma u64_of_nat_less: "m < n \<Longrightarrow> n < 2 ^ 64 \<Longrightarrow> (of_nat m :: u64) < of_nat n"
  by (simp add: word_less_nat_alt unsigned_of_nat take_bit_nat_eq_self)

lemma scheduled_queue:
  fixes m t0
  defines "w0 \<equiv> timer_system_init t0 m"
  assumes "length xs < 2 ^ 64"
  shows "run_events timer_event_step w0 (schedule_events xs) =
      w0\<lparr>tm := \<lparr>seq = of_nat (length xs),
        timer_q = sort_key entry_when (log_events timer_event_step timer_accepts w0 (schedule_events xs)),
        timer_stopped = False\<rparr>\<rparr> \<and>
    (\<forall>x \<in> set (log_events timer_event_step timer_accepts w0 (schedule_events xs)).
       entry_id x \<le> of_nat (length xs))"
  using assms(2)
proof (induction xs rule: rev_induct)
  case Nil
  show ?case by (simp add: w0_def timer_system_init_def timer_init_def)
next
  case (snoc x xs)
  obtain tp j ct where x: "x = (tp, j, ct)" by (cases x)
  let ?old = "log_events timer_event_step timer_accepts w0 (schedule_events xs)"
  have lt: "(of_nat (length xs) :: u64) < of_nat (Suc (length xs))"
    using snoc.prems by (intro u64_of_nat_less) simp_all
  have ids: "\<forall>y \<in> set ?old. entry_id y < of_nat (Suc (length xs))"
    using snoc lt by (auto intro: le_less_trans)
  then have "sort_key entry_when (?old @ [e]) = multiset_insert e (sort_key entry_when ?old)"
    if "entry_id e = of_nat (Suc (length xs))" for e
    using that by (intro sort_key_snoc) simp
  moreover have suc: "(of_nat (Suc (length xs)) :: u64) = of_nat (length xs) + 1" by simp
  ultimately show ?case
    using snoc ids
    by (auto simp: run_events_append log_events_append x async_ops w0_def timer_system_init_def suc
        simp del: of_nat_Suc intro: less_imp_le)
qed

text \<open>As long as nothing is scheduled and nobody stops the timer, entries leave in order.\<close>

definition passive_event :: "'fn timer_event \<Rightarrow> bool" where
  "passive_event e = (case e of Schedule_at _ _ _ \<Rightarrow> False | Stop_timer \<Rightarrow> False | _ \<Rightarrow> True)"

lemma passive_step:
  assumes "passive_event e" "\<not> timer_stopped (tm w)" "sorted (map entry_when (timer_pending w))"
  shows "timer_retires w e @ timer_pending (timer_event_step w e) = timer_pending w"
    and "\<not> timer_stopped (tm (timer_event_step w e))"
proof -
  have "timer_retires w e @ timer_pending (timer_event_step w e) = timer_pending w \<and>
      \<not> timer_stopped (tm (timer_event_step w e))"
    using assms
    by (cases e; cases "pc w")
      (auto simp: passive_event_def timer_fates timer_pending_def held_def
        split: list.splits option.splits)
  then show "timer_retires w e @ timer_pending (timer_event_step w e) = timer_pending w"
    and "\<not> timer_stopped (tm (timer_event_step w e))" by simp_all
qed

lemma passive_run:
  assumes "\<forall>e \<in> set es. passive_event e" "\<not> timer_stopped (tm w)"
    and "sorted (map entry_when (timer_pending w))"
  shows "log_events timer_event_step timer_retires w es
    @ timer_pending (run_events timer_event_step w es) = timer_pending w"
  using assms
proof (induction es arbitrary: w)
  case (Cons e es)
  note step = passive_step [of e w]
  have "sorted (map entry_when (timer_pending (timer_event_step w e)))"
    using step(1) Cons.prems by (metis list.set_intros(1) map_append sorted_append)
  with Cons step show ?case by simp
qed simp

subsection \<open>Time, cancellation and stopping\<close>

definition due_in_time :: "'fn timer_system \<Rightarrow> bool" where
  "due_in_time w =
     (case pc w of Due e \<Rightarrow> entry_when e \<le> tnow w | Posting e \<Rightarrow> entry_when e \<le> tnow w | _ \<Rightarrow> True)"

lemma due_in_time_step: "due_in_time w \<Longrightarrow> due_in_time (timer_event_step w e)"
  by (cases e; cases "pc w") (auto simp: due_in_time_def split: list.splits option.splits)

lemma timer_tokens_step:
  "cancel_step\<^sup>*\<^sup>* (ttokens w) (ttokens (timer_event_step w e))"
  by (cases e; cases "pc w")
    (auto intro: r_into_rtranclp cancel_step.request split: list.splits option.splits)

text \<open>Where the entries come from, and what the token said when the worker read it.\<close>

abbreviation timer_state :: "time_point \<Rightarrow> cancel_store \<Rightarrow> 'fn timer_event list \<Rightarrow> 'fn timer_system" where
  "timer_state t0 m es \<equiv> run_events timer_event_step (timer_system_init t0 m) es"

definition schedules :: "'fn entry \<Rightarrow> 'fn timer_event list \<Rightarrow> bool" where
  "schedules e es \<longleftrightarrow> Schedule_at (entry_when e) (entry_job e) (entry_ct e) \<in> set es"

definition token_was_clear :: "time_point \<Rightarrow> cancel_store \<Rightarrow> 'fn entry \<Rightarrow> 'fn timer_event list \<Rightarrow> bool" where
  "token_was_clear t0 m e es \<longleftrightarrow>
     (\<exists>es1 es2. es = es1 @ es2 \<and> schedules e es1 \<and> entry_when e \<le> tnow (timer_state t0 m es1) \<and>
        \<not> cancel_token_is_cancelled (ttokens (timer_state t0 m es1)) (entry_ct e))"

lemma token_was_clear_snoc: "token_was_clear t0 m e es \<Longrightarrow> token_was_clear t0 m e (es @ [ev])"
  unfolding token_was_clear_def by (metis append.assoc)

lemma timer_pending_step:
  "set (timer_pending (timer_event_step w ev)) \<subseteq> set (timer_pending w) \<union> set (timer_accepts w ev)"
  using timer_conserves [of w ev] by (metis mset_append mset_subset_eq_add_right set_append set_mset_mono set_mset_mset)

lemma timer_origin:
  "due_in_time (timer_state t0 m es) \<and> (\<forall>e \<in> set (timer_pending (timer_state t0 m es)). schedules e es) \<and>
   (\<forall>e. pc (timer_state t0 m es) = Posting e \<longrightarrow> token_was_clear t0 m e es)"
proof (induction es rule: rev_induct)
  case Nil
  show ?case by (simp add: timer_system_init_def timer_init_def due_in_time_def timer_pending_def held_def)
next
  case (snoc ev es)
  let ?w = "timer_state t0 m es"
  have run: "timer_state t0 m (es @ [ev]) = timer_event_step ?w ev" by (simp add: run_events_append)
  have "schedules e (es @ [ev])" if "e \<in> set (timer_pending (timer_event_step ?w ev))" for e
    using timer_pending_step [of ?w ev] snoc that by (cases ev) (auto simp: schedules_def split: if_splits)
  moreover have "token_was_clear t0 m e (es @ [ev])" if "pc (timer_event_step ?w ev) = Posting e" for e
  proof (cases "pc ?w = Posting e")
    case False
    with that have due: "pc ?w = Due e" "\<not> cancel_token_is_cancelled (ttokens ?w) (entry_ct e)"
      by (cases ev; cases "pc ?w"; auto split: list.splits option.splits if_splits)+
    with snoc have "schedules e es" "entry_when e \<le> tnow ?w"
      by (auto simp: timer_pending_def held_def due_in_time_def)
    with due show ?thesis unfolding token_was_clear_def by blast
  qed (use snoc token_was_clear_snoc in blast)
  ultimately show ?case using due_in_time_step snoc unfolding run by blast
qed

text \<open>A cancelled token stays cancelled; an entry that carries one is not posted any more.\<close>

definition token_dead :: "cancel_store \<Rightarrow> cancel_token \<Rightarrow> bool" where
  "token_dead m ct \<longleftrightarrow> cancel_token_is_cancelled m ct \<and> token_bound_in m ct"

definition job_dead :: "'fn \<Rightarrow> 'fn timer_system \<Rightarrow> bool" where
  "job_dead f w \<longleftrightarrow>
     (\<forall>e \<in> set (timer_pending w). entry_job e = Some f \<longrightarrow> token_dead (ttokens w) (entry_ct e)) \<and>
     (\<forall>e. pc w = Posting e \<longrightarrow> entry_job e \<noteq> Some f)"

lemma token_dead_step: "token_dead (ttokens w) ct \<Longrightarrow> token_dead (ttokens (timer_event_step w ev)) ct"
  using timer_tokens_step [of w ev] unfolding token_dead_def
  by (blast intro: cancel_memory.cancelled_steps cancel_memory.live_steps)

lemma job_dead_step:
  assumes dead: "job_dead f w" and new: "\<forall>tp ct. ev = Schedule_at tp (Some f) ct \<longrightarrow> token_dead (ttokens w) ct"
  shows "job_dead f (timer_event_step w ev)"
    and "count_list (fn_q (tctx (timer_event_step w ev))) (Some f) = count_list (fn_q (tctx w)) (Some f)"
proof -
  have "\<forall>e \<in> set (timer_accepts w ev). entry_job e = Some f \<longrightarrow> token_dead (ttokens w) (entry_ct e)"
    using new by (cases ev) auto
  then have "\<forall>e \<in> set (timer_pending (timer_event_step w ev)).
      entry_job e = Some f \<longrightarrow> token_dead (ttokens (timer_event_step w ev)) (entry_ct e)"
    using dead timer_pending_step [of w ev] token_dead_step [of w _ ev] by (auto simp: job_dead_def)
  moreover have "entry_job e \<noteq> Some f" if "pc (timer_event_step w ev) = Posting e" for e
    using dead that
    by (cases ev; cases "pc w")
      (auto simp: job_dead_def token_dead_def timer_pending_def held_def split: list.splits option.splits if_splits)
  ultimately show "job_dead f (timer_event_step w ev)" by (simp add: job_dead_def)
  show "count_list (fn_q (tctx (timer_event_step w ev))) (Some f) = count_list (fn_q (tctx w)) (Some f)"
    using dead unfolding timer_step_posts by (auto simp: timer_posts_eq job_dead_def split: timer_event.splits timer_pc.splits)
qed

lemma job_dead_run:
  assumes "job_dead f w" "\<forall>tp ct. Schedule_at tp (Some f) ct \<in> set es \<longrightarrow> token_dead (ttokens w) ct"
  shows "count_list (fn_q (tctx (run_events timer_event_step w es))) (Some f) = count_list (fn_q (tctx w)) (Some f)"
  using assms
proof (induction es arbitrary: w)
  case (Cons ev es)
  have "\<forall>tp ct. ev = Schedule_at tp (Some f) ct \<longrightarrow> token_dead (ttokens w) ct" using Cons.prems(2) by auto
  note step = job_dead_step [OF Cons.prems(1) this]
  have "\<forall>tp ct. Schedule_at tp (Some f) ct \<in> set es \<longrightarrow> token_dead (ttokens (timer_event_step w ev)) ct"
    using Cons.prems(2) token_dead_step by (metis list.set_intros(2))
  with Cons.IH [OF step(1)] step(2) show ?case by simp
qed simp

text \<open>The jobs the worker can still post after a stop.\<close>

definition posts_left :: "'fn timer_pc \<Rightarrow> 'fn func list" where
  "posts_left p =
     (case p of Took e \<Rightarrow> [entry_job e] | Due e \<Rightarrow> [entry_job e] | Posting e \<Rightarrow> [entry_job e] | _ \<Rightarrow> [])"

lemma stopped_step:
  assumes "timer_stopped (tm w)" "timer_q (tm w) = []"
  shows "timer_stopped (tm (timer_event_step w ev)) \<and> timer_q (tm (timer_event_step w ev)) = [] \<and>
    (\<exists>js. fn_q (tctx (timer_event_step w ev)) = fn_q (tctx w) @ js \<and>
       prefix (js @ posts_left (pc (timer_event_step w ev))) (posts_left (pc w)))"
  using assms by (cases ev; cases "pc w") (auto simp: posts_left_def async_ops split: option.splits)

lemma stopped_run:
  assumes "timer_stopped (tm w)" "timer_q (tm w) = []"
  shows "timer_q (tm (run_events timer_event_step w es)) = [] \<and>
    (\<exists>js. fn_q (tctx (run_events timer_event_step w es)) = fn_q (tctx w) @ js \<and> prefix js (posts_left (pc w)))"
  using assms
proof (induction es arbitrary: w)
  case (Cons ev es)
  from stopped_step [OF Cons.prems, of ev] obtain js
    where js: "fn_q (tctx (timer_event_step w ev)) = fn_q (tctx w) @ js"
      "prefix (js @ posts_left (pc (timer_event_step w ev))) (posts_left (pc w))"
    and w': "timer_stopped (tm (timer_event_step w ev))" "timer_q (tm (timer_event_step w ev)) = []"
    by blast
  from Cons.IH [OF w'] obtain js' where "timer_q (tm (run_events timer_event_step w (ev # es))) = []"
    "fn_q (tctx (run_events timer_event_step w (ev # es))) = fn_q (tctx w) @ js @ js'"
    "prefix js' (posts_left (pc (timer_event_step w ev)))"
    using js(1) by auto
  moreover from this(3) js(2) have "prefix (js @ js') (posts_left (pc w))"
    by (meson prefix_order.order_trans same_prefix_prefix)
  ultimately show ?case by blast
qed simp

lemma waits_out_step:
  assumes "pc w = Timed_wait e" "\<not> timer_stopped (tm w)" "tnow w < entry_when e" "ev \<noteq> Stop_timer"
    and "case ev of Tick d \<Rightarrow> tnow w + int d < entry_when e | _ \<Rightarrow> True"
  shows "timer_posts w ev = []" "pc (timer_event_step w ev) = Timed_wait e"
    "\<not> timer_stopped (tm (timer_event_step w ev))"
  using assms by (cases ev; auto simp: timer_posts_eq async_ops)+

definition event_ticks :: "'fn timer_event \<Rightarrow> nat" where
  "event_ticks ev = (case ev of Tick d \<Rightarrow> d | _ \<Rightarrow> 0)"

lemma tnow_step: "tnow (timer_event_step w ev) = tnow w + int (event_ticks ev)"
  by (cases ev; cases "pc w") (auto simp: event_ticks_def split: list.splits option.splits)

lemma waits_out_run:
  assumes "pc w = Timed_wait e" "\<not> timer_stopped (tm w)" "Stop_timer \<notin> set es"
    and "tnow w + int (sum_list (map event_ticks es)) < entry_when e"
  shows "log_events timer_event_step timer_posts w es = [] \<and>
    pc (run_events timer_event_step w es) = Timed_wait e"
  using assms
proof (induction es arbitrary: w)
  case (Cons ev es)
  have *: "tnow w < entry_when e" "case ev of Tick d \<Rightarrow> tnow w + int d < entry_when e | _ \<Rightarrow> True"
    using Cons.prems(4) by (auto simp: event_ticks_def split: timer_event.splits)
  note step = waits_out_step [OF Cons.prems(1,2) *(1) _ *(2)]
  show ?case
    using step Cons.IH [of "timer_event_step w ev"] Cons.prems by (auto simp: tnow_step)
qed simp

subsection \<open>Progress\<close>

definition worker_weight :: "'fn timer_system \<Rightarrow> nat" where
  "worker_weight w = 4 * length (timer_q (tm w)) +
     (case pc w of Posting _ \<Rightarrow> 1 | Due _ \<Rightarrow> 2 | Took _ \<Rightarrow> 3 | Timed_wait _ \<Rightarrow> 4 | Not_due _ \<Rightarrow> 5 | _ \<Rightarrow> 0)"

text \<open>The entries that get posted: a job, and no cancellation.\<close>

definition postable :: "cancel_store \<Rightarrow> 'fn entry \<Rightarrow> bool" where
  "postable m e \<longleftrightarrow> \<not> cancel_token_is_cancelled m (entry_ct e) \<and> entry_job e \<noteq> None"

lemma length_multiset_insert [simp]: "length (multiset_insert e q) = Suc (length q)"
  by (induction q) auto

text \<open>The jobs on their way: the one being posted, and the pending ones that are going to pass the check.\<close>

definition jobs_due :: "'fn timer_system \<Rightarrow> 'fn func multiset" where
  "jobs_due w =
     image_mset entry_job
       ((case pc w of Posting e \<Rightarrow> {#e#} | _ \<Rightarrow> filter_mset (postable (ttokens w)) (mset (held (pc w)))) +
        filter_mset (postable (ttokens w)) (mset (timer_q (tm w))))"

lemma due_worker_step:
  assumes "\<not> timer_stopped (tm w)" "pc w \<noteq> Left" "\<forall>x \<in> set (timer_pending w). entry_when x \<le> tnow w"
    and "timer_pending w \<noteq> []"
  defines "w' \<equiv> timer_event_step w Worker_step"
  shows "worker_weight w' < worker_weight w" "\<not> timer_stopped (tm w')" "pc w' \<noteq> Left"
    "ttokens w' = ttokens w" "tnow w' = tnow w" "set (timer_pending w') \<subseteq> set (timer_pending w)"
    "mset (fn_q (tctx w')) + jobs_due w' = mset (fn_q (tctx w)) + jobs_due w"
  unfolding w'_def using assms(1-4)
  by (cases "pc w"; auto simp: worker_weight_def timer_pending_def held_def postable_def jobs_due_def async_ops
      split: list.splits option.splits)+

lemma due_worker_run:
  assumes "\<not> timer_stopped (tm w)" "pc w \<noteq> Left" "\<forall>x \<in> set (timer_pending w). entry_when x \<le> tnow w"
  shows "\<exists>n \<le> worker_weight w.
    timer_pending (run_events timer_event_step w (replicate n Worker_step)) = [] \<and>
    mset (fn_q (tctx (run_events timer_event_step w (replicate n Worker_step)))) =
      mset (fn_q (tctx w)) + jobs_due w"
  using assms
proof (induction "worker_weight w" arbitrary: w rule: less_induct)
  case less
  show ?case
  proof (cases "timer_pending w = []")
    case True
    then have "jobs_due w = {#}"
      by (auto simp: jobs_due_def timer_pending_def held_def split: timer_pc.splits)
    with True show ?thesis by (intro exI [of _ 0]) simp
  next
    case False
    let ?w = "timer_event_step w Worker_step"
    note step = due_worker_step [OF less.prems False]
    have "\<forall>x \<in> set (timer_pending ?w). entry_when x \<le> tnow ?w"
      using step(5,6) less.prems(3) by auto
    then obtain n where "n \<le> worker_weight ?w"
      and "timer_pending (run_events timer_event_step ?w (replicate n Worker_step)) = []"
      and "mset (fn_q (tctx (run_events timer_event_step ?w (replicate n Worker_step)))) =
        mset (fn_q (tctx ?w)) + jobs_due ?w"
      using less.hyps [OF step(1-3)] by blast
    then show ?thesis
      using step(1,7) by (intro exI [of _ "Suc n"]) simp
  qed
qed

subsection \<open>Waking the worker\<close>

text \<open>
  The two waits as monitors: the first for an entry or a stop, the second (with a deadline, whose
  passing is a wake-up without notification) for a stop. \<open>schedule\<close> and \<open>stop\<close> update under the
  mutex and notify all.
\<close>

definition timer_writes :: "'fn timer \<Rightarrow> 'fn timer \<Rightarrow> bool" where
  "timer_writes t t' \<longleftrightarrow>
     (\<not> timer_stopped t \<and> (\<exists>tp j ct. j \<noteq> None \<and> t' = timer_schedule tp j ct t)) \<or> t' = timer_stop t"

definition timer_first_wait :: "'fn timer monitor_code" where
  "timer_first_wait =
     \<lparr>threads = 1, wait_pred = (\<lambda>t. timer_stopped t \<or> timer_q t \<noteq> []),
      critical = (\<lambda>t. if timer_stopped t then (t, True) else (t\<lparr>timer_q := tl (timer_q t)\<rparr>, False)),
      write_one = (\<lambda>_ _. False), write_all = timer_writes, write_unlocked = (\<lambda>_ _. False),
      write_silent = (\<lambda>_ _. False)\<rparr>"

definition timer_timed_wait :: "'fn timer monitor_code" where
  "timer_timed_wait =
     \<lparr>threads = 1, wait_pred = timer_stopped, critical = (\<lambda>t. (t, timer_stopped t)),
      write_one = (\<lambda>_ _. False), write_all = timer_writes, write_unlocked = (\<lambda>_ _. False),
      write_silent = (\<lambda>_ _. False)\<rparr>"

interpretation timer_first:
  monitor_discipline timer_first_wait "\<lambda>t. timer_q t \<noteq> [] \<and> \<not> timer_stopped t" timer_stopped
  by unfold_locales (auto simp: timer_first_wait_def split: if_splits)

interpretation timer_timed: monitor_discipline timer_timed_wait "\<lambda>_. False" timer_stopped
  by unfold_locales (auto simp: timer_timed_wait_def)

section \<open>Properties\<close>

text \<open>
  C7: No timer fires early, and none fires that was cancelled in time. In every execution, a function that
  an event adds to the queue of the \<open>io_context\<close> was given to a call of \<open>schedule\<close> whose deadline the clock
  has reached, and there was a moment, with the deadline already reached, at which the token of that call
  was not cancelled.
\<close>
theorem timer_never_early:
  assumes "w = run_events timer_event_step (timer_system_init t0 m) es"
    and "f \<in> set (drop (length (fn_q (tctx w))) (fn_q (tctx (timer_event_step w ev))))"
  shows "\<exists>tp ct es1 es2. es = es1 @ es2 \<and> Schedule_at tp f ct \<in> set es1 \<and> tp \<le> tnow w \<and>
    tp \<le> tnow (run_events timer_event_step (timer_system_init t0 m) es1) \<and>
    \<not> cancel_token_is_cancelled (ttokens (run_events timer_event_step (timer_system_init t0 m) es1)) ct"
proof -
  from assms(2) have "f \<in> entry_job ` set (timer_posts w ev)" by (simp add: timer_step_posts)
  then obtain e where e: "pc w = Posting e" "f = entry_job e"
    by (cases "pc w"; cases ev) (simp_all add: timer_posts_eq)
  with timer_origin [of t0 m es] have "token_was_clear t0 m e es" "entry_when e \<le> tnow w"
    by (auto simp: assms(1) due_in_time_def)
  then show ?thesis unfolding token_was_clear_def schedules_def e(2) by blast
qed

theorem timer_never_early_witness:
  "let es = [Schedule_at 5 (Some CHR ''a'') cancel_token_default, Worker_step, Worker_step, Worker_step, Tick 4,
         Worker_step, Tick 3, Worker_step, Worker_step, Worker_step];
       w = run_events timer_event_step (timer_system_init 0 cancel_store_init) es
   in fn_q (tctx w) = [] \<and> fn_q (tctx (timer_event_step w Worker_step)) = [Some CHR ''a''] \<and> tnow w = 7 \<and>
      (\<exists>tp ct. Schedule_at tp (Some CHR ''a'') ct \<in> set es \<and> tp \<le> 7)"
proof -
  let ?es = "[Schedule_at 5 (Some CHR ''a'') cancel_token_default, Worker_step, Worker_step, Worker_step, Tick 4,
        Worker_step, Tick 3, Worker_step, Worker_step, Worker_step]"
  let ?w = "run_events timer_event_step (timer_system_init 0 cancel_store_init) ?es"
  have w: "fn_q (tctx ?w) = []" "fn_q (tctx (timer_event_step ?w Worker_step)) = [Some CHR ''a'']" "tnow ?w = 7"
    by (simp_all add: timer_system_init_def timer_init_def async_ops)
  from timer_never_early [OF refl, of "Some CHR ''a''" 0 cancel_store_init ?es Worker_step]
  have "\<exists>tp ct. Schedule_at tp (Some CHR ''a'') ct \<in> set ?es \<and> tp \<le> 7"
    unfolding w by (metis UnCI drop0 length_0_conv list.set_intros(1) set_append)
  with w show ?thesis unfolding Let_def by blast
qed


text \<open>
  C9: Timers fire in the order of their deadlines, and those with equal deadlines in the order they were
  scheduled: when fewer than \<open>2\<^sup>6\<^sup>4\<close> entries are scheduled and then the worker runs (with time passing and
  cancellations in between), the entries that leave the queue followed by those still in it are the
  stable sort of the scheduled entries by deadline.
\<close>
theorem timer_fires_in_deadline_order:
  assumes "length xs < 2 ^ 64" "\<forall>e \<in> set es. passive_event e"
    and w: "w = run_events timer_event_step (timer_system_init t0 m) (schedule_events xs)"
  shows "log_events timer_event_step timer_retires w es
      @ timer_pending (run_events timer_event_step w es) =
    sort_key entry_when (log_events timer_event_step timer_accepts (timer_system_init t0 m) (schedule_events xs))"
proof -
  from scheduled_queue [OF assms(1), of t0 m]
  have "timer_pending w = sort_key entry_when
      (log_events timer_event_step timer_accepts (timer_system_init t0 m) (schedule_events xs))"
    and "\<not> timer_stopped (tm w)"
    by (auto simp: w timer_pending_def held_def timer_system_init_def)
  with passive_run [OF assms(2), of w] show ?thesis by simp
qed

theorem timer_fires_in_deadline_order_witness:
  "map entry_job (log_events timer_event_step timer_retires
     (run_events timer_event_step (timer_system_init 0 cancel_store_init)
       (schedule_events [(30, CHR ''a'', cancel_token_default), (10, CHR ''b'', cancel_token_default),
          (30, CHR ''c'', cancel_token_default)]))
     (Tick 40 # replicate 12 Worker_step)) = [Some (CHR ''b''), Some (CHR ''a''), Some (CHR ''c'')]"
proof -
  let ?xs = "[(30, CHR ''a'', cancel_token_default), (10, CHR ''b'', cancel_token_default),
    (30, CHR ''c'', cancel_token_default)]"
  let ?w = "run_events timer_event_step (timer_system_init 0 cancel_store_init) (schedule_events ?xs)"
  let ?es = "Tick 40 # replicate 12 Worker_step"
  have "timer_pending (run_events timer_event_step ?w ?es) = []"
    by (simp add: timer_system_init_def timer_init_def async_ops eval_nat_numeral timer_pending_def
        held_def cmp_def)
  then have "log_events timer_event_step timer_retires ?w ?es = sort_key entry_when
      (log_events timer_event_step timer_accepts (timer_system_init 0 cancel_store_init) (schedule_events ?xs))"
    using timer_fires_in_deadline_order [of ?xs ?es ?w 0 cancel_store_init]
    by (simp add: passive_event_def del: run_events.simps log_events.simps)
  then show ?thesis
    by (simp add: timer_system_init_def timer_init_def async_ops)
qed

text \<open>
  A cancelled timer does not fire. Suppose that every pending entry with job \<open>f\<close> has a cancelled token,
  that the worker is not already between the token check and the post of such an entry (a cancellation
  that falls in between comes too late), and that \<open>f\<close> is only scheduled again with cancelled tokens. Then,
  in every execution from there, \<open>f\<close> is not added to the queue of the \<open>io_context\<close> any more.
\<close>
lemma timer_cancelled_not_posted:
  assumes "\<forall>e \<in> set (timer_pending w). entry_job e = Some f \<longrightarrow> token_dead (ttokens w) (entry_ct e)"
    and "\<forall>e. pc w = Posting e \<longrightarrow> entry_job e \<noteq> Some f"
    and "\<forall>tp ct. Schedule_at tp (Some f) ct \<in> set es \<longrightarrow> token_dead (ttokens w) ct"
  shows "count_list (fn_q (tctx (run_events timer_event_step w es))) (Some f) =
    count_list (fn_q (tctx w)) (Some f)"
  using assms by (intro job_dead_run) (simp_all add: job_dead_def)

text \<open>
  C19: Due timers are posted. If the timer is not stopped and the clock has passed every pending deadline,
  then after a bounded number of steps of the worker nothing is pending any more, and what has been added
  to the queue of the \<open>io_context\<close> is exactly the job being posted and the jobs of the pending entries
  that have one and whose token is not cancelled.
\<close>
theorem timer_due_entries_posted:
  assumes "\<not> timer_stopped (tm w)" "pc w \<noteq> Left" "\<forall>e \<in> set (timer_pending w). entry_when e \<le> tnow w"
  shows "\<exists>n \<le> worker_weight w.
    timer_pending (run_events timer_event_step w (replicate n Worker_step)) = [] \<and>
    mset (fn_q (tctx (run_events timer_event_step w (replicate n Worker_step)))) =
      mset (fn_q (tctx w)) + jobs_due w"
  using due_worker_run [OF assms] .

theorem timer_due_entries_posted_witness:
  "\<exists>n. mset (fn_q (tctx (run_events timer_event_step
      \<lparr>tm = timer_schedule 5 (Some True) cancel_token_default timer_init, pc = At_top, tnow = 9,
       tctx = scheduler_init, ttokens = cancel_store_init\<rparr> (replicate n Worker_step)))) = {#Some True#}"
proof -
  let ?w = "\<lparr>tm = timer_schedule 5 (Some True) cancel_token_default timer_init, pc = At_top, tnow = 9,
       tctx = scheduler_init, ttokens = cancel_store_init\<rparr>"
  have "\<not> timer_stopped (tm ?w)" "pc ?w \<noteq> Left" "\<forall>e \<in> set (timer_pending ?w). entry_when e \<le> tnow ?w"
    by (simp_all add: async_ops timer_init_def timer_pending_def held_def)
  from timer_due_entries_posted [OF this] obtain n
    where "mset (fn_q (tctx (run_events timer_event_step ?w (replicate n Worker_step)))) =
      mset (fn_q (tctx ?w)) + jobs_due ?w"
    by blast
  moreover have "mset (fn_q (tctx ?w)) + jobs_due ?w = {#Some True#}"
    by (simp add: async_ops timer_init_def jobs_due_def held_def postable_def)
  ultimately show ?thesis by metis
qed

text \<open>
  What \<open>stop()\<close> does. The queue is empty from then on; in every later execution at most one function is
  added to the queue of the \<open>io_context\<close>, and only the job of the entry the worker had already taken out
  and is not sleeping for (whether or not it was compared with the clock before the stop); everything
  else is never posted. And the worker leaves within four of its own steps, so it can be joined.
\<close>
lemma timer_stop_ends_posting:
  fixes w :: "'fn timer_system"
  defines "w0 \<equiv> timer_event_step w Stop_timer"
  shows "timer_q (tm (run_events timer_event_step w0 es)) = [] \<and>
    (fn_q (tctx (run_events timer_event_step w0 es)) = fn_q (tctx w) \<or>
     (\<exists>e. pc w \<in> {Took e, Due e, Posting e} \<and>
        fn_q (tctx (run_events timer_event_step w0 es)) = fn_q (tctx w) @ [entry_job e])) \<and>
    pc (run_events timer_event_step w0 (replicate 4 Worker_step)) = Left"
proof -
  have w0: "timer_stopped (tm w0)" "timer_q (tm w0) = []" "pc w0 = pc w" "tctx w0 = tctx w"
    by (simp_all add: w0_def async_ops)
  have "pc (run_events timer_event_step w0 (replicate 4 Worker_step)) = Left"
    using w0(1,2) by (cases "pc w0") (auto simp: eval_nat_numeral async_ops split: option.splits)
  with stopped_run [OF w0(1,2), of es] show ?thesis
    by (auto simp: w0(3,4) posts_left_def prefix_Cons split: timer_pc.splits)
qed

text \<open>
  C31: An earlier deadline does not wake the worker. While the worker waits for the deadline of the entry
  it holds, entries scheduled with earlier deadlines are not posted before that deadline has passed
  (unless the timer is stopped), however far their own deadlines lie in the past.
\<close>
theorem timer_earlier_deadline_waits:
  assumes "pc w = Timed_wait e" "\<not> timer_stopped (tm w)" "Stop_timer \<notin> set es"
    and "tnow w + int (sum_list (map event_ticks es)) < entry_when e"
  shows "log_events timer_event_step timer_posts w es = [] \<and>
    fn_q (tctx (run_events timer_event_step w es)) = fn_q (tctx w)"
  using waits_out_run [OF assms] by (simp add: timer_run_posts)

theorem timer_earlier_deadline_waits_witness:
  "log_events timer_event_step timer_posts
     (run_events timer_event_step (timer_system_init 0 cancel_store_init)
       [Schedule_at 1000 (Some True) cancel_token_default, Worker_step, Worker_step, Worker_step])
     ([Schedule_at 10 (Some False) cancel_token_default, Tick 900] @ replicate 50 Worker_step) = [] \<and>
   fn_q (tctx (run_events timer_event_step
     (run_events timer_event_step (timer_system_init 0 cancel_store_init)
       [Schedule_at 1000 (Some True) cancel_token_default, Worker_step, Worker_step, Worker_step])
     ([Schedule_at 10 (Some False) cancel_token_default, Tick 900] @ replicate 50 Worker_step))) = []"
proof -
  let ?w = "run_events timer_event_step (timer_system_init 0 cancel_store_init)
       [Schedule_at 1000 (Some True) cancel_token_default, Worker_step, Worker_step, Worker_step]"
  let ?es = "[Schedule_at 10 (Some False) cancel_token_default, Tick 900] @ replicate 50 Worker_step"
  have w: "pc ?w = Timed_wait \<lparr>entry_when = 1000, entry_id = 1, entry_ct = cancel_token_default,
      entry_job = Some True\<rparr>" "\<not> timer_stopped (tm ?w)" "tnow ?w = 0" "fn_q (tctx ?w) = []"
    by (simp_all add: timer_system_init_def timer_init_def async_ops)
  have "sum_list (map event_ticks (replicate n Worker_step :: bool timer_event list)) = 0" for n
    by (induction n) (simp_all add: event_ticks_def)
  then have "log_events timer_event_step timer_posts ?w ?es = [] \<and>
      fn_q (tctx (run_events timer_event_step ?w ?es)) = fn_q (tctx ?w)"
    by (intro timer_earlier_deadline_waits [OF w(1,2)])
      (simp_all add: w(3) event_ticks_def sum_list_replicate del: run_events.simps)
  then show ?thesis unfolding w(4) .
qed

text \<open>
  No wake-up of the timer thread is lost. In its first wait it is never left sleeping while an entry is
  queued or a stop was requested: it is awake or a notification is due. In the wait for a deadline the
  same holds for a stop request, and only for that.
\<close>
lemma timer_wakeup_not_lost:
  "(monitor_reachable timer_first_wait t m \<longrightarrow> timer_q (mdata m) \<noteq> [] \<or> timer_stopped (mdata m) \<longrightarrow>
      \<not> dormant timer_first_wait m) \<and>
   (monitor_reachable timer_timed_wait t m \<longrightarrow> timer_stopped (mdata m) \<longrightarrow> \<not> dormant timer_timed_wait m)"
  using timer_first.work_noticed [of t m] timer_first.halt_noticed [of t m] timer_timed.halt_noticed [of t m]
  by blast

text \<open>
  \<open>co_await sleep_for(d, ct)\<close> on a running timer, for a duration that is not zero and a token that is
  not cancelled. If the sum of the clock and the duration is in the range of the clock, exactly one entry
  is added, due \<open>d\<close> from now; no cancellation can make the worker skip it; and its job, called by the
  loop, posts the sleeping coroutine once. If the sum is out of range the behaviour is undefined.
\<close>
lemma sleep_for_wakes_its_coroutine:
  assumes "\<not> timer_stopped t" "\<not> sleep_await_ready d m ct"
  shows "if - (2 ^ 63) \<le> now + d \<and> now + d < 2 ^ 63 then
      \<exists>t' e. sleep_await_suspend sleep_job now d (Some c) t = Inr t' \<and>
        mset (timer_q t') = add_mset e (mset (timer_q t)) \<and> entry_when e = now + d \<and>
        (\<forall>m'. postable m' e) \<and> entry_job e = Some (sleep_job (Some c)) \<and>
        (\<forall>w. cur w = None \<longrightarrow> handle_q (sched w) = [] \<longrightarrow> fn_q (sched w) = [entry_job e] \<longrightarrow>
           world_step w = Inr (w\<lparr>sched := (sched w)\<lparr>handle_q := [Some c], fn_q := []\<rparr>\<rparr>))
    else sleep_await_suspend sleep_job now d (Some c) t = Inl Signed_overflow"
  using assms(1)
  by (auto simp: sleep_await_suspend_def timer_after_def time_add_def async_ops postable_def
      world_step_def loop_step_def scheduler_pick_def scheduler_wait_pred_def scheduler_select_def
      sleep_job_def post_all_def)

end
