(* ===== verification/Async_Signal.thy ===== *)
theory Async_Signal
  imports Async_Task
begin

text \<open>
  The signal watcher (\<open>include/vix/async/core/signal.hpp\<close>, \<open>src/core/signal.cpp\<close>): registration, the
  awaitable of \<open>async_wait\<close>, the worker loop around \<open>sigwait\<close>, and the function it posts to the event
  loop. What \<open>sigwait\<close> answers is an input of the model.
\<close>

section \<open>State and operations\<close>

text \<open>\<open>'h\<close> is the type of callbacks.\<close>

record 'h signal_set =
  signals :: "int list"
  handler :: "'h func"
  pending :: "int list"
  started :: bool
  sig_stop :: bool
  waiter :: handle
  waiter_active :: bool

definition signal_set_init :: "'h signal_set" where
  "signal_set_init =
     \<lparr>signals = [], handler = None, pending = [], started = False, sig_stop = False,
      waiter = None, waiter_active = False\<rparr>"

definition signal_add :: "int \<Rightarrow> 'h signal_set \<Rightarrow> 'h signal_set" where
  "signal_add sig s = s\<lparr>signals := signals s @ [sig]\<rparr>"

text \<open>The erasing loop of \<open>remove\<close>.\<close>

primrec erase_signal :: "int \<Rightarrow> int list \<Rightarrow> int list" where
  "erase_signal sig [] = []"
| "erase_signal sig (x # xs) = (if x = sig then erase_signal sig xs else x # erase_signal sig xs)"

definition signal_remove :: "int \<Rightarrow> 'h signal_set \<Rightarrow> 'h signal_set" where
  "signal_remove sig s = s\<lparr>signals := erase_signal sig (signals s)\<rparr>"

definition signal_on_signal :: "'h func \<Rightarrow> 'h signal_set \<Rightarrow> 'h signal_set" where
  "signal_on_signal fn s = s\<lparr>handler := fn\<rparr>"

definition signal_stop :: "'h signal_set \<Rightarrow> 'h signal_set" where
  "signal_stop s = s\<lparr>sig_stop := True\<rparr>"

text \<open>The second component: a worker thread is created.\<close>

definition signal_start_if_needed :: "'h signal_set \<Rightarrow> 'h signal_set \<times> bool" where
  "signal_start_if_needed s = (if started s then (s, False) else (s\<lparr>started := True\<rparr>, True))"

datatype signal_worker_end = Watcher_absent | Watcher_detached | Watcher_joined

definition signal_destroy ::
  "nat option \<Rightarrow> nat \<Rightarrow> bool \<Rightarrow> 'h signal_set \<Rightarrow> 'h signal_set \<times> signal_worker_end" where
  "signal_destroy worker self join_throws s =
     (signal_stop s,
      case worker of
        None \<Rightarrow> Watcher_absent
      | Some w \<Rightarrow> if w = self \<or> join_throws then Watcher_detached else Watcher_joined)"

subsection \<open>\<open>async_wait\<close>\<close>

record signal_awaitable =
  sw_ct :: cancel_token
  sw_sig :: int

definition signal_awaitable_new :: "cancel_token \<Rightarrow> signal_awaitable" where
  "signal_awaitable_new ct = \<lparr>sw_ct = ct, sw_sig = 0\<rparr>"

definition signal_await_ready ::
  "signal_awaitable \<Rightarrow> 'h signal_set \<Rightarrow> bool \<times> signal_awaitable \<times> 'h signal_set" where
  "signal_await_ready aw s =
     (case pending s of
        x # xs \<Rightarrow> (True, aw\<lparr>sw_sig := x\<rparr>, s\<lparr>pending := xs\<rparr>)
      | [] \<Rightarrow> (False, aw, s))"

text \<open>The last component: the handles posted to the \<open>io_context\<close>.\<close>

definition signal_await_suspend ::
  "cancel_store \<Rightarrow> handle \<Rightarrow> signal_awaitable \<Rightarrow> 'h signal_set \<Rightarrow>
   signal_awaitable \<times> 'h signal_set \<times> handle list" where
  "signal_await_suspend m h aw s =
     (if cancel_token_is_cancelled m (sw_ct aw) then (aw, s, [h])
      else (case pending s of
              x # xs \<Rightarrow> (aw\<lparr>sw_sig := x\<rparr>, s\<lparr>pending := xs\<rparr>, [h])
            | [] \<Rightarrow> (aw, s\<lparr>waiter := h, waiter_active := True\<rparr>, [])))"

definition signal_await_resume :: "cancel_store \<Rightarrow> signal_awaitable \<Rightarrow> exn + int" where
  "signal_await_resume m aw =
     (if cancel_token_is_cancelled m (sw_ct aw) then Inl (System_error cancelled_ec)
      else Inr (sw_sig aw))"

text \<open>The start of \<open>async_wait\<close>: elsewhere than on Unix it throws.\<close>

definition signal_async_wait_begin :: "bool \<Rightarrow> 'h signal_set \<Rightarrow> exn + ('h signal_set \<times> bool)" where
  "signal_async_wait_begin is_unix s =
     (if is_unix then Inr (signal_start_if_needed s)
      else Inl (System_error (make_error_code errc_not_supported)))"

subsection \<open>The worker\<close>

text \<open>One pass: decide under the mutex, wait for a signal, take it in under the mutex.\<close>

datatype watcher_pc = Watch_top | In_sigwait "int list" | Watch_left

definition signal_worker_top :: "'h signal_set \<Rightarrow> watcher_pc" where
  "signal_worker_top s =
     (if sig_stop s then Watch_left
      else if signals s = [] then Watch_top
      else In_sigwait (signals s))"

text \<open>After \<open>sigwait\<close>: the worker's next point, the set, and whether the function is posted.\<close>

definition signal_worker_received ::
  "int \<Rightarrow> int \<Rightarrow> 'h signal_set \<Rightarrow> watcher_pc \<times> 'h signal_set \<times> bool" where
  "signal_worker_received rc received s =
     (if rc \<noteq> 0 then (Watch_top, s, False)
      else if sig_stop s then (Watch_left, s, False)
      else (Watch_top, s\<lparr>pending := pending s @ [received]\<rparr>, True))"

subsection \<open>The posted function\<close>

text \<open>
  It takes a signal out under the mutex, calls the callback without it, and puts the signal back under
  the mutex. Between the two critical sections other threads, and the callback, may use the set; if the
  callback throws, the rest is skipped.
\<close>

record 'h dispatch =
  d_sig :: int
  d_handler :: "'h func"
  d_waiter :: handle
  d_has_waiter :: bool

definition signal_dispatch_begin :: "'h signal_set \<Rightarrow> 'h dispatch option \<times> 'h signal_set" where
  "signal_dispatch_begin s =
     (case pending s of
        [] \<Rightarrow> (None, s)
      | x # xs \<Rightarrow>
          if waiter_active s then
            (Some \<lparr>d_sig = x, d_handler = handler s, d_waiter = waiter s, d_has_waiter = True\<rparr>,
             s\<lparr>pending := xs, waiter := None, waiter_active := False\<rparr>)
          else
            (Some \<lparr>d_sig = x, d_handler = handler s, d_waiter = None, d_has_waiter = False\<rparr>,
             s\<lparr>pending := xs\<rparr>))"

definition signal_dispatch_end :: "'h dispatch \<Rightarrow> 'h signal_set \<Rightarrow> 'h signal_set \<times> handle list" where
  "signal_dispatch_end d s =
     (if d_has_waiter d \<and> d_waiter d \<noteq> None
      then (s\<lparr>pending := pending s @ [d_sig d]\<rparr>, [d_waiter d])
      else (s\<lparr>pending := pending s @ [d_sig d]\<rparr>, []))"

section \<open>Executions\<close>

text \<open>
  \<open>dispatches\<close> counts posted functions that have not run yet, \<open>in_flight\<close> is the one between its two
  critical sections, and \<open>suspending\<close> a coroutine between \<open>await_ready\<close> and \<open>await_suspend\<close> (the event
  loop has one thread, so there is at most one of each).
\<close>

record 'h signal_system =
  sset :: "'h signal_set"
  watcher :: watcher_pc
  dispatches :: nat
  in_flight :: "'h dispatch option"
  suspending :: "(nat \<times> coro) option"
  wait_objects :: "nat \<Rightarrow> signal_awaitable"
  sig_tokens :: cancel_store

datatype 'h signal_event =
    Add_signal int
  | Remove_signal int
  | Set_handler "'h func"
  | Stop_signals
  | Async_wait nat coro cancel_token
  | Async_suspend
  | Watch_step
  | Sigwait_returns int int
  | Dispatch_begins
  | Dispatch_ends
  | Handler_throws
  | Cancel_wait cancel_source

text \<open>\<open>Async_wait a h ct\<close>: coroutine \<open>h\<close> awaits; the awaitable lives at \<open>a\<close>.\<close>

definition signal_await :: "nat \<Rightarrow> coro \<Rightarrow> cancel_token \<Rightarrow> 'h signal_system \<Rightarrow> 'h signal_system" where
  "signal_await a h ct w =
     (case signal_await_ready (signal_awaitable_new ct) (fst (signal_start_if_needed (sset w))) of
        (ready, aw, s) \<Rightarrow>
          w\<lparr>sset := s, wait_objects := (wait_objects w)(a := aw),
            suspending := if ready then None else Some (a, h)\<rparr>)"

definition signal_suspend :: "nat \<Rightarrow> coro \<Rightarrow> 'h signal_system \<Rightarrow> 'h signal_system \<times> handle list" where
  "signal_suspend a h w =
     (case signal_await_suspend (sig_tokens w) (Some h) (wait_objects w a) (sset w) of
        (aw, s, hs) \<Rightarrow>
          (w\<lparr>sset := s, wait_objects := (wait_objects w)(a := aw), suspending := None\<rparr>, hs))"

fun signal_step :: "'h signal_system \<Rightarrow> 'h signal_event \<Rightarrow> 'h signal_system" where
  "signal_step w (Add_signal sig) = w\<lparr>sset := signal_add sig (sset w)\<rparr>"
| "signal_step w (Remove_signal sig) = w\<lparr>sset := signal_remove sig (sset w)\<rparr>"
| "signal_step w (Set_handler fn) = w\<lparr>sset := signal_on_signal fn (sset w)\<rparr>"
| "signal_step w Stop_signals = w\<lparr>sset := signal_stop (sset w)\<rparr>"
| "signal_step w (Async_wait a h ct) = (if suspending w = None then signal_await a h ct w else w)"
| "signal_step w Async_suspend =
     (case suspending w of Some (a, h) \<Rightarrow> fst (signal_suspend a h w) | None \<Rightarrow> w)"
| "signal_step w Watch_step =
     (if started (sset w) \<and> watcher w = Watch_top then w\<lparr>watcher := signal_worker_top (sset w)\<rparr> else w)"
| "signal_step w (Sigwait_returns rc received) =
     (case watcher w of
        In_sigwait sigs \<Rightarrow>
          (case signal_worker_received rc received (sset w) of
             (p, s, posts) \<Rightarrow>
               w\<lparr>watcher := p, sset := s,
                 dispatches := (if posts then Suc (dispatches w) else dispatches w)\<rparr>)
      | _ \<Rightarrow> w)"
| "signal_step w Dispatch_begins =
     (if dispatches w > 0 \<and> in_flight w = None then
        (case signal_dispatch_begin (sset w) of
           (d, s) \<Rightarrow> w\<lparr>sset := s, dispatches := dispatches w - 1, in_flight := d\<rparr>)
      else w)"
| "signal_step w Dispatch_ends =
     (case in_flight w of
        None \<Rightarrow> w
      | Some d \<Rightarrow> w\<lparr>sset := fst (signal_dispatch_end d (sset w)), in_flight := None\<rparr>)"
| "signal_step w Handler_throws =
     (case in_flight w of
        None \<Rightarrow> w
      | Some d \<Rightarrow> if d_handler d = None then w else w\<lparr>in_flight := None\<rparr>)"
| "signal_step w (Cancel_wait src) = w\<lparr>sig_tokens := cancel_source_request_cancel src (sig_tokens w)\<rparr>"

definition signal_system_init :: "cancel_store \<Rightarrow> 'h signal_system" where
  "signal_system_init m =
     \<lparr>sset = signal_set_init, watcher = Watch_top, dispatches = 0, in_flight = None,
      suspending = None,
      wait_objects = (\<lambda>_. signal_awaitable_new cancel_token_default), sig_tokens = m\<rparr>"

text \<open>Signals taken in, signals handed to an awaiting coroutine, callback calls, wake-ups.\<close>

fun signals_received :: "'h signal_system \<Rightarrow> 'h signal_event \<Rightarrow> int list" where
  "signals_received w (Sigwait_returns rc received) =
     (case watcher w of In_sigwait _ \<Rightarrow> if rc = 0 \<and> \<not> sig_stop (sset w) then [received] else [] | _ \<Rightarrow> [])"
| "signals_received w _ = []"

text \<open>
  Which awaitable an event works for; the signal it took from the queue, read off that awaitable; and what
  is lost when a callback throws: the function has ended without putting anything back.
\<close>

definition awaiting :: "'h signal_system \<Rightarrow> 'h signal_event \<Rightarrow> nat option" where
  "awaiting w e =
     (case e of
        Async_wait a h ct \<Rightarrow> if suspending w = None then Some a else None
      | Async_suspend \<Rightarrow> map_option fst (suspending w)
      | _ \<Rightarrow> None)"

definition signals_consumed :: "'h signal_system \<Rightarrow> 'h signal_event \<Rightarrow> int list" where
  "signals_consumed w e =
     (case awaiting w e of
        Some a \<Rightarrow>
          if length (pending (sset (signal_step w e))) < length (pending (sset w))
          then [sw_sig (wait_objects (signal_step w e) a)] else []
      | None \<Rightarrow> [])"

definition thrown_away :: "'h signal_system \<Rightarrow> 'h signal_event \<Rightarrow> 'h dispatch list" where
  "thrown_away w e =
     (case (in_flight w, in_flight (signal_step w e)) of
        (Some d, None) \<Rightarrow>
          if length (pending (sset (signal_step w e))) = length (pending (sset w)) then [d] else []
      | _ \<Rightarrow> [])"

definition signals_served :: "'h signal_system \<Rightarrow> 'h signal_event \<Rightarrow> int list" where
  "signals_served w e = signals_consumed w e @ map d_sig (thrown_away w e)"

fun handler_calls :: "'h signal_system \<Rightarrow> 'h signal_event \<Rightarrow> ('h \<times> int) list" where
  "handler_calls w Dispatch_begins =
     (if dispatches w > 0 \<and> in_flight w = None then
        (case fst (signal_dispatch_begin (sset w)) of
           Some d \<Rightarrow> (case d_handler d of Some h \<Rightarrow> [(h, d_sig d)] | None \<Rightarrow> [])
         | None \<Rightarrow> [])
      else [])"
| "handler_calls w _ = []"

fun waiter_posts :: "'h signal_system \<Rightarrow> 'h signal_event \<Rightarrow> handle list" where
  "waiter_posts w Dispatch_ends =
     (case in_flight w of None \<Rightarrow> [] | Some d \<Rightarrow> snd (signal_dispatch_end d (sset w)))"
| "waiter_posts w _ = []"

definition signals_inside :: "'h signal_system \<Rightarrow> int multiset" where
  "signals_inside w =
     mset (pending (sset w)) + (case in_flight w of Some d \<Rightarrow> {#d_sig d#} | None \<Rightarrow> {#})"

text \<open>Coroutines that start to wait, those a later waiter replaces, and those that wait.\<close>

definition will_wait :: "'h signal_system \<Rightarrow> nat \<Rightarrow> bool" where
  "will_wait w a \<longleftrightarrow>
     pending (sset w) = [] \<and> \<not> cancel_token_is_cancelled (sig_tokens w) (sw_ct (wait_objects w a))"

definition waiting_now :: "'h signal_set \<Rightarrow> handle list" where
  "waiting_now s = (if waiter_active s \<and> waiter s \<noteq> None then [waiter s] else [])"

fun waiters_registered :: "'h signal_system \<Rightarrow> 'h signal_event \<Rightarrow> handle list" where
  "waiters_registered w Async_suspend =
     (case suspending w of Some (a, h) \<Rightarrow> if will_wait w a then [Some h] else [] | None \<Rightarrow> [])"
| "waiters_registered w _ = []"

fun waiters_replaced :: "'h signal_system \<Rightarrow> 'h signal_event \<Rightarrow> handle list" where
  "waiters_replaced w Async_suspend =
     (case suspending w of Some (a, h) \<Rightarrow> if will_wait w a then waiting_now (sset w) else [] | None \<Rightarrow> [])"
| "waiters_replaced w _ = []"

definition waiters_served :: "'h signal_system \<Rightarrow> 'h signal_event \<Rightarrow> handle list" where
  "waiters_served w e =
     waiter_posts w e @ waiters_replaced w e @
     map d_waiter (filter (\<lambda>d. d_has_waiter d \<and> d_waiter d \<noteq> None) (thrown_away w e))"

definition waiters_inside :: "'h signal_system \<Rightarrow> handle multiset" where
  "waiters_inside w =
     mset (waiting_now (sset w)) +
     (case in_flight w of
        Some d \<Rightarrow> if d_has_waiter d \<and> d_waiter d \<noteq> None then {#d_waiter d#} else {#}
      | None \<Rightarrow> {#})"

section \<open>Lemmas\<close>

lemmas signal_ops [async_ops] =
  signal_add_def signal_remove_def signal_on_signal_def signal_stop_def signal_start_if_needed_def
  signal_awaitable_new_def signal_await_ready_def signal_await_suspend_def signal_worker_received_def
  signal_dispatch_begin_def signal_dispatch_end_def signal_await_def
  signal_suspend_def

lemma erase_signal_removes_all: "erase_signal sig xs = removeAll sig xs"
  by (induction xs) auto

lemma signals_conserve:
  "mset (signals_served w e) + signals_inside (signal_step w e) =
     signals_inside w + mset (signals_received w e)"
  by (cases e)
    (auto simp: signals_served_def signals_consumed_def awaiting_def thrown_away_def signals_inside_def async_ops
      split: list.splits option.splits watcher_pc.splits)

interpretation signal_bag: bag_component signal_step signals_received signals_served signals_inside
  by unfold_locales (rule signals_conserve)

lemma waiters_conserve:
  "mset (waiters_served w e) + waiters_inside (signal_step w e) =
     waiters_inside w + mset (waiters_registered w e)"
  by (cases e)
    (auto simp: waiters_served_def thrown_away_def waiters_inside_def waiting_now_def will_wait_def async_ops
      split: list.splits option.splits watcher_pc.splits)

interpretation waiter_bag: bag_component signal_step waiters_registered waiters_served waiters_inside
  by unfold_locales (rule waiters_conserve)

lemma signal_init_empty [simp]:
  "signals_inside (signal_system_init m) = {#}" "waiters_inside (signal_system_init m) = {#}"
  by (simp_all add: signal_system_init_def signal_set_init_def signals_inside_def waiters_inside_def
      waiting_now_def)

text \<open>Once a coroutine has registered as the waiter, nobody writes its awaitable any more.\<close>

lemma wait_object_untouched:
  assumes "\<forall>e \<in> set es. \<forall>h ct. e \<noteq> Async_wait a h ct"
    and "\<forall>h. suspending w \<noteq> Some (a, h)"
  shows "wait_objects (run_events signal_step w es) a = wait_objects w a"
  using assms
proof (induction es arbitrary: w)
  case (Cons e es)
  have "wait_objects (signal_step w e) a = wait_objects w a \<and>
      (\<forall>h. suspending (signal_step w e) \<noteq> Some (a, h))"
    using Cons.prems
    by (cases e) (auto simp: async_ops split: list.splits option.splits watcher_pc.splits)
  with Cons show ?case by simp
qed simp

text \<open>A stopped set takes no signal in, and once the posted functions have run nobody is woken.\<close>

lemma signal_stopped_step:
  assumes "sig_stop (sset w)" "dispatches w = 0" "in_flight w = None"
  shows "sig_stop (sset (signal_step w e)) \<and> dispatches (signal_step w e) = 0 \<and>
    in_flight (signal_step w e) = None \<and> waiter_posts w e = [] \<and> signals_received w e = []"
  using assms
  by (cases e) (auto simp: async_ops split: list.splits option.splits watcher_pc.splits)

lemma signal_stop_never_wakes:
  assumes "sig_stop (sset w)" "dispatches w = 0" "in_flight w = None"
  shows "log_events signal_step waiter_posts w es = []"
  using assms
proof (induction es arbitrary: w)
  case (Cons e es)
  with signal_stopped_step [OF Cons.prems, of e] show ?case by simp
qed simp

text \<open>Only \<open>async_wait\<close> creates the worker thread.\<close>

lemma signal_worker_needs_async_wait:
  assumes "\<forall>e \<in> set es. \<forall>a h ct. e \<noteq> Async_wait a h ct" "suspending w = None"
  shows "started (sset (run_events signal_step w es)) = started (sset w)"
  using assms
proof (induction es arbitrary: w)
  case (Cons e es)
  have "started (sset (signal_step w e)) = started (sset w) \<and> suspending (signal_step w e) = None"
    using Cons.prems
    by (cases e) (auto simp: async_ops split: list.splits option.splits watcher_pc.splits)
  with Cons show ?case by simp
qed simp

section \<open>Properties\<close>




text \<open>
  C34: A coroutine that had to wait for its signal does not get it. If \<open>async_wait\<close> registers the coroutine
  as the waiter, then however it is resumed later, \<open>co_await\<close> yields signal number 0 (or the
  cancellation error), whatever signals have arrived.
\<close>
theorem signal_waiter_gets_zero:
  assumes "suspending w = None" "pending (sset w) = []"
    and "\<not> cancel_token_is_cancelled (sig_tokens w) ct"
    and "\<forall>e \<in> set es. \<forall>h' ct'. e \<noteq> Async_wait a h' ct'"
    and w': "w' = run_events signal_step w ([Async_wait a h ct, Async_suspend] @ es)"
  shows "waiters_registered (signal_step w (Async_wait a h ct)) Async_suspend = [Some h] \<and>
    signal_await_resume (sig_tokens w') (wait_objects w' a) =
      (if cancel_token_is_cancelled (sig_tokens w') ct then Inl (System_error cancelled_ec) else Inr 0)"
proof -
  let ?v = "run_events signal_step w [Async_wait a h ct, Async_suspend]"
  have "wait_objects ?v a = signal_awaitable_new ct" "suspending ?v = None"
    using assms(1-3) by (auto simp: async_ops)
  moreover have "wait_objects w' a = wait_objects ?v a"
    unfolding w' run_events_append
    using assms(4) by (intro wait_object_untouched) (simp_all add: calculation(2) del: run_events.simps)
  ultimately have "wait_objects w' a = signal_awaitable_new ct" by simp
  then show ?thesis
    using assms(1-3) by (simp add: signal_await_resume_def async_ops will_wait_def)
qed

theorem signal_waiter_gets_zero_witness:
  "\<exists>w' :: bool signal_system.
     w' = run_events signal_step (signal_system_init cancel_store_init)
       ([Async_wait 0 7 cancel_token_default, Async_suspend] @
        [Add_signal 2, Watch_step, Sigwait_returns 0 2, Dispatch_begins, Dispatch_ends]) \<and>
     signal_await_resume (sig_tokens w') (wait_objects w' 0) = Inr 0 \<and> pending (sset w') = [2]"
proof -
  let ?w = "signal_system_init cancel_store_init :: bool signal_system"
  let ?es = "[Add_signal 2, Watch_step, Sigwait_returns 0 2, Dispatch_begins, Dispatch_ends]"
  let ?w' = "run_events signal_step ?w ([Async_wait 0 7 cancel_token_default, Async_suspend] @ ?es)"
  have "suspending ?w = None" "pending (sset ?w) = []"
    "\<not> cancel_token_is_cancelled (sig_tokens ?w) cancel_token_default"
    "\<forall>e \<in> set ?es. \<forall>h ct. e \<noteq> Async_wait 0 h ct"
    by (simp_all add: signal_system_init_def signal_set_init_def)
  from signal_waiter_gets_zero [OF this refl, of 7]
  have "signal_await_resume (sig_tokens ?w') (wait_objects ?w' 0) = Inr 0" by simp
  moreover have "pending (sset ?w') = [2]"
    by (simp add: signal_system_init_def signal_set_init_def async_ops signal_worker_top_def)
  ultimately show ?thesis by blast
qed

text \<open>
  C35: The callback is called with the oldest queued signal, not with the one that has just arrived, and
  that signal goes back into the queue: after a signal that no coroutine took, the next one makes the
  callback run for the old one again.
\<close>
theorem signal_handler_sees_oldest:
  assumes "pending (sset w) = x # xs" "handler (sset w) = Some h" "in_flight w = None"
    and "watcher w = In_sigwait sigs" "\<not> sig_stop (sset w)"
  shows "log_events signal_step handler_calls w [Sigwait_returns 0 s, Dispatch_begins, Dispatch_ends] = [(h, x)] \<and>
    pending (sset (run_events signal_step w [Sigwait_returns 0 s, Dispatch_begins, Dispatch_ends])) =
      xs @ [s, x]"
  using assms by (auto simp: async_ops)

theorem signal_handler_sees_oldest_witness:
  "log_events signal_step handler_calls
     (run_events signal_step (signal_system_init cancel_store_init)
       [Async_wait 0 7 \<lparr>token_st = None\<rparr>, Add_signal 2, Add_signal 15, Set_handler (Some True), Watch_step,
        Sigwait_returns 0 2, Dispatch_begins, Dispatch_ends, Watch_step])
     [Sigwait_returns 0 15, Dispatch_begins, Dispatch_ends] = [(True, 2)]"
proof -
  let ?w = "run_events signal_step (signal_system_init cancel_store_init)
       [Async_wait 0 7 \<lparr>token_st = None\<rparr>, Add_signal 2, Add_signal 15, Set_handler (Some True), Watch_step,
        Sigwait_returns 0 2, Dispatch_begins, Dispatch_ends, Watch_step]"
  have "pending (sset ?w) = 2 # []" "handler (sset ?w) = Some True" "in_flight ?w = None"
    "watcher ?w = In_sigwait [2, 15]" "\<not> sig_stop (sset ?w)"
    by (simp_all add: signal_system_init_def signal_set_init_def async_ops signal_worker_top_def)
  from signal_handler_sees_oldest [OF this, of 15] show ?thesis by blast
qed

end
