(* ===== verification/Async_Net.thy ===== *)
theory Async_Net
  imports Async_Task
begin

text \<open>
  Networking on top of Asio (\<open>src/net\<close>): the bridge from an Asio completion to a waiting coroutine
  (\<open>asio_await.hpp\<close>), the service that runs Asio on its own thread (\<open>asio_net_service.cpp\<close>), and the
  TCP, UDP and DNS front ends. Asio itself is not part of the repository: what its operations answer
  are inputs of the definitions.
\<close>

section \<open>Resuming a coroutine\<close>

text \<open>
  \<open>resume_on_ctx\<close>: nothing for a null handle; the calling thread resumes the coroutine itself when
  there is no context or a stop was requested; otherwise it is posted.
\<close>

datatype 'fn resumption = Resume_nothing | Resume_inline coro | Resume_posted "'fn scheduler"

definition resume_on_ctx :: "'fn scheduler option \<Rightarrow> handle \<Rightarrow> 'fn resumption" where
  "resume_on_ctx ctx h =
     (case h of
        None \<Rightarrow> Resume_nothing
      | Some c \<Rightarrow>
          (case ctx of
             None \<Rightarrow> Resume_inline c
           | Some s \<Rightarrow>
               if scheduler_stop_requested s then Resume_inline c
               else Resume_posted (io_context_post h s)))"

section \<open>The awaitable\<close>

record 'v asio_result =
  res_ec :: error_code
  res_value :: "'v option"

text \<open>\<open>aa_started\<close> records that the starter was called.\<close>

record 'v asio_awaitable =
  aa_ct :: cancel_token
  aa_res :: "'v asio_result"
  aa_ex :: "exn option"
  aa_started :: bool

definition no_error :: error_code where
  "no_error = \<lparr>ec_value = 0, ec_category = Foreign_category 0\<rparr>"

definition asio_awaitable_new :: "cancel_token \<Rightarrow> 'v asio_awaitable" where
  "asio_awaitable_new ct =
     \<lparr>aa_ct = ct, aa_res = \<lparr>res_ec = no_error, res_value = None\<rparr>, aa_ex = None, aa_started = False\<rparr>"

definition to_system_error :: "error_code \<Rightarrow> exn" where
  "to_system_error ec = System_error ec"

definition asio_await_ready :: bool where
  "asio_await_ready = False"

text \<open>
  What the starter does: it throws, or it starts the operation, whose completion comes later with an
  error code and a value.
\<close>

datatype 'v asio_op = Start_throws exn | Completes error_code 'v

text \<open>The outcome of \<open>await_suspend\<close>: resumed at once, or waiting for the completion.\<close>

definition asio_await_suspend ::
  "cancel_store \<Rightarrow> 'v asio_op \<Rightarrow> 'v asio_awaitable \<Rightarrow> 'v asio_awaitable \<times> bool" where
  "asio_await_suspend m op aw =
     (if cancel_token_is_cancelled m (aa_ct aw) then (aw, True)
      else (case op of
              Start_throws e \<Rightarrow> (aw\<lparr>aa_ex := Some e, aa_started := True\<rparr>, True)
            | Completes _ _ \<Rightarrow> (aw\<lparr>aa_started := True\<rparr>, False)))"

text \<open>The two completion lambdas: with a value, and for \<open>void\<close>.\<close>

definition asio_complete_value :: "error_code \<Rightarrow> 'v \<Rightarrow> 'v asio_awaitable \<Rightarrow> 'v asio_awaitable" where
  "asio_complete_value ec v aw =
     aw\<lparr>aa_res := (if ec_is_error ec then (aa_res aw)\<lparr>res_ec := ec\<rparr>
                  else (aa_res aw)\<lparr>res_ec := ec, res_value := Some v\<rparr>)\<rparr>"

definition asio_complete_void :: "error_code \<Rightarrow> 'v asio_awaitable \<Rightarrow> 'v asio_awaitable" where
  "asio_complete_void ec aw = aw\<lparr>aa_res := (aa_res aw)\<lparr>res_ec := ec\<rparr>\<rparr>"

definition asio_await_resume_value :: "cancel_store \<Rightarrow> 'v asio_awaitable \<Rightarrow> ub + (exn + 'v)" where
  "asio_await_resume_value m aw =
     (if cancel_token_is_cancelled m (aa_ct aw) then Inr (Inl (System_error cancelled_ec))
      else (case aa_ex aw of
              Some e \<Rightarrow> Inr (Inl e)
            | None \<Rightarrow>
                if ec_is_error (res_ec (aa_res aw)) then Inr (Inl (to_system_error (res_ec (aa_res aw))))
                else (case res_value (aa_res aw) of None \<Rightarrow> Inl Empty_optional | Some v \<Rightarrow> Inr (Inr v))))"

definition asio_await_resume_void :: "cancel_store \<Rightarrow> 'v asio_awaitable \<Rightarrow> exn + unit" where
  "asio_await_resume_void m aw =
     (if cancel_token_is_cancelled m (aa_ct aw) then Inl (System_error cancelled_ec)
      else (case aa_ex aw of
              Some e \<Rightarrow> Inl e
            | None \<Rightarrow>
                if ec_is_error (res_ec (aa_res aw)) then Inl (to_system_error (res_ec (aa_res aw)))
                else Inr ()))"

text \<open>
  The coroutines \<open>co_asio_value\<close> and \<open>co_asio_void\<close>: one await, where the token is read once before
  the operation starts (store \<open>m\<close>) and once after it has completed (store \<open>m'\<close>).
\<close>

definition co_asio_value ::
  "cancel_store \<Rightarrow> cancel_store \<Rightarrow> cancel_token \<Rightarrow> 'v asio_op \<Rightarrow> ub + (exn + 'v)" where
  "co_asio_value m m' ct op =
     (case asio_await_suspend m op (asio_awaitable_new ct) of
        (aw, True) \<Rightarrow> asio_await_resume_value m' aw
      | (aw, False) \<Rightarrow>
          (case op of
             Completes ec v \<Rightarrow> asio_await_resume_value m' (asio_complete_value ec v aw)
           | Start_throws _ \<Rightarrow> asio_await_resume_value m' aw))"

definition co_asio_void ::
  "cancel_store \<Rightarrow> cancel_store \<Rightarrow> cancel_token \<Rightarrow> unit asio_op \<Rightarrow> exn + unit" where
  "co_asio_void m m' ct op =
     (case asio_await_suspend m op (asio_awaitable_new ct) of
        (aw, True) \<Rightarrow> asio_await_resume_void m' aw
      | (aw, False) \<Rightarrow>
          (case op of
             Completes ec _ \<Rightarrow> asio_await_resume_void m' (asio_complete_void ec aw)
           | Start_throws _ \<Rightarrow> asio_await_resume_void m' aw))"

section \<open>The service\<close>

text \<open>\<open>net_thread\<close>: the joinable thread, if any; \<open>ioc_stopped\<close>: \<open>ioc_.stop()\<close> has been called.\<close>

record asio_net_service =
  guard :: bool
  net_thread :: "nat option"
  net_stopped :: bool
  ioc_stopped :: bool

definition asio_net_service_new :: "nat \<Rightarrow> asio_net_service" where
  "asio_net_service_new t =
     \<lparr>guard = True, net_thread = Some t, net_stopped = False, ioc_stopped = False\<rparr>"

definition asio_net_service_stop :: "asio_net_service \<Rightarrow> asio_net_service" where
  "asio_net_service_stop n =
     (if net_stopped n then n else n\<lparr>guard := False, net_stopped := True, ioc_stopped := True\<rparr>)"

datatype net_join = Nothing_to_join | Net_joined nat | Net_detached nat

definition asio_net_service_join ::
  "nat \<Rightarrow> bool \<Rightarrow> asio_net_service \<Rightarrow> asio_net_service \<times> net_join" where
  "asio_net_service_join self join_throws n =
     (case net_thread n of
        None \<Rightarrow> (n, Nothing_to_join)
      | Some t \<Rightarrow>
          (n\<lparr>net_thread := None\<rparr>, if t = self \<or> join_throws then Net_detached t else Net_joined t))"

definition asio_net_service_destroy ::
  "nat \<Rightarrow> bool \<Rightarrow> asio_net_service \<Rightarrow> asio_net_service \<times> net_join" where
  "asio_net_service_destroy self join_throws n =
     asio_net_service_join self join_throws (asio_net_service_stop n)"

section \<open>TCP streams\<close>

type_synonym port = "16 word"

record tcp_endpoint =
  tcp_host :: string
  tcp_port :: port

text \<open>\<open>std::to_string\<close> of a port.\<close>

fun decimal :: "nat \<Rightarrow> string" where
  "decimal n = (if n < 10 then [char_of (48 + n)] else decimal (n div 10) @ [char_of (48 + n mod 10)])"

declare decimal.simps [simp del]

definition to_string_port :: "port \<Rightarrow> string" where
  "to_string_port p = decimal (unat p)"

text \<open>
  \<open>async_connect\<close>: obtain the network service, resolve the host, then connect. \<open>net_ex\<close> is the exception
  of \<open>ctx_.net()\<close>, if it throws; \<open>resolve\<close> and \<open>connect\<close> are Asio's operations; the token is read four
  times, the stores at these moments are \<open>m 0\<close> to \<open>m 3\<close>.
\<close>

definition tcp_async_connect ::
  "exn option \<Rightarrow> (string \<Rightarrow> string \<Rightarrow> 'r asio_op) \<Rightarrow> ('r \<Rightarrow> unit asio_op) \<Rightarrow> (nat \<Rightarrow> cancel_store) \<Rightarrow>
   cancel_token \<Rightarrow> tcp_endpoint \<Rightarrow> ub + (exn + unit)" where
  "tcp_async_connect net_ex resolve connect m ct ep =
     (case net_ex of
        Some e \<Rightarrow> Inr (Inl e)
      | None \<Rightarrow>
          (case co_asio_value (m 0) (m 1) ct (resolve (tcp_host ep) (to_string_port (tcp_port ep))) of
             Inl u \<Rightarrow> Inl u
           | Inr (Inl e) \<Rightarrow> Inr (Inl e)
           | Inr (Inr results) \<Rightarrow> Inr (co_asio_void (m 2) (m 3) ct (connect results))))"

text \<open>\<open>read_some\<close> and \<open>write_some\<close> are given the size of the buffer and complete with a byte count.\<close>

definition tcp_async_read ::
  "(nat \<Rightarrow> nat asio_op) \<Rightarrow> cancel_store \<Rightarrow> cancel_store \<Rightarrow> cancel_token \<Rightarrow> nat \<Rightarrow> ub + (exn + nat)" where
  "tcp_async_read read_some m m' ct len = co_asio_value m m' ct (read_some len)"

definition tcp_async_write ::
  "(nat \<Rightarrow> nat asio_op) \<Rightarrow> cancel_store \<Rightarrow> cancel_store \<Rightarrow> cancel_token \<Rightarrow> nat \<Rightarrow> ub + (exn + nat)" where
  "tcp_async_write write_some m m' ct len = co_asio_value m m' ct (write_some len)"

text \<open>The calls \<open>close()\<close> makes on the socket, whose errors it ignores.\<close>

datatype socket_call = Cancel_call | Shutdown_both_call | Close_call

definition tcp_stream_close :: "bool \<Rightarrow> socket_call list" where
  "tcp_stream_close sock_is_open =
     (if \<not> sock_is_open then [] else [Cancel_call, Shutdown_both_call, Close_call])"

section \<open>TCP listeners\<close>

text \<open>
  \<open>acc_open\<close> is the state of Asio's acceptor; \<open>posted_closes\<close> counts the closing functions posted to
  the network thread that have not run yet.
\<close>

record tcp_listener =
  acc_open :: bool
  l_open :: bool
  l_closing :: bool
  posted_closes :: nat

definition tcp_listener_new :: tcp_listener where
  "tcp_listener_new = \<lparr>acc_open = False, l_open = False, l_closing = False, posted_closes = 0\<rparr>"

text \<open>
  \<open>async_listen\<close>, with the error codes of the four calls: an acceptor that is already open refuses to
  open again. \<open>address\<close> is the exception of \<open>make_address\<close> for a malformed host.
\<close>

record listen_calls =
  address :: "exn option"
  open_ec :: error_code
  option_ec :: error_code
  bind_ec :: error_code
  listen_ec :: error_code

definition tcp_async_listen :: "listen_calls \<Rightarrow> tcp_listener \<Rightarrow> (exn + unit) \<times> tcp_listener" where
  "tcp_async_listen lc l =
     (case address lc of
        Some e \<Rightarrow> (Inl e, l)
      | None \<Rightarrow>
          if ec_is_error (open_ec lc) then (Inl (System_error (open_ec lc)), l)
          else let l = l\<lparr>acc_open := True\<rparr> in
            if ec_is_error (option_ec lc) then (Inl (System_error (option_ec lc)), l)
            else if ec_is_error (bind_ec lc) then (Inl (System_error (bind_ec lc)), l)
            else if ec_is_error (listen_ec lc) then (Inl (System_error (listen_ec lc)), l)
            else (Inr (), l\<lparr>l_open := True, l_closing := False\<rparr>))"

text \<open>
  \<open>async_accept\<close>: the new stream needs the network service too (\<open>net_ex\<close>); the value \<open>()\<close> stands for
  the accepted stream.
\<close>

definition tcp_async_accept ::
  "exn option \<Rightarrow> cancel_store \<Rightarrow> cancel_store \<Rightarrow> cancel_store \<Rightarrow> cancel_token \<Rightarrow> unit asio_op \<Rightarrow>
   tcp_listener \<Rightarrow> exn + unit" where
  "tcp_async_accept net_ex m m' m'' ct op l =
     (if cancel_token_is_cancelled m ct \<or> \<not> l_open l then Inl (System_error cancelled_ec)
      else (case net_ex of Some e \<Rightarrow> Inl e | None \<Rightarrow> co_asio_void m' m'' ct op))"

text \<open>\<open>post_throws\<close>: posting to the network thread fails, and \<open>close()\<close> closes directly.\<close>

definition tcp_listener_close :: "bool \<Rightarrow> tcp_listener \<Rightarrow> tcp_listener" where
  "tcp_listener_close post_throws l =
     (if l_closing l then l\<lparr>l_open := False\<rparr>
      else if post_throws then l\<lparr>acc_open := False, l_open := False, l_closing := True\<rparr>
      else l\<lparr>l_open := False, l_closing := True, posted_closes := Suc (posted_closes l)\<rparr>)"

text \<open>The posted function, on the network thread.\<close>

definition tcp_listener_run_posted :: "tcp_listener \<Rightarrow> tcp_listener" where
  "tcp_listener_run_posted l =
     (if posted_closes l = 0 then l
      else l\<lparr>acc_open := False, posted_closes := posted_closes l - 1\<rparr>)"

definition tcp_listener_is_open :: "tcp_listener \<Rightarrow> bool" where
  "tcp_listener_is_open l = l_open l"

datatype listener_event = Listen_event listen_calls | Close_event bool | Posted_runs

text \<open>Asio's acceptor reports an error when it is opened twice.\<close>

definition listen_possible :: "listen_calls \<Rightarrow> tcp_listener \<Rightarrow> bool" where
  "listen_possible lc l \<longleftrightarrow> (acc_open l \<longrightarrow> address lc = None \<longrightarrow> ec_is_error (open_ec lc))"

fun listener_step :: "tcp_listener \<Rightarrow> listener_event \<Rightarrow> tcp_listener" where
  "listener_step l (Listen_event lc) = (if listen_possible lc l then snd (tcp_async_listen lc l) else l)"
| "listener_step l (Close_event post_throws) = tcp_listener_close post_throws l"
| "listener_step l Posted_runs = tcp_listener_run_posted l"

section \<open>UDP and DNS\<close>

record udp_endpoint =
  udp_host :: string
  udp_port :: port

record udp_datagram =
  dgram_from :: udp_endpoint
  dgram_bytes :: nat

definition udp_async_bind :: "exn option \<Rightarrow> error_code \<Rightarrow> error_code \<Rightarrow> bool \<Rightarrow> (exn + unit) \<times> bool" where
  "udp_async_bind addr oec bec sock_is_open =
     (case addr of
        Some e \<Rightarrow> (Inl e, sock_is_open)
      | None \<Rightarrow>
          if ec_is_error oec then (Inl (System_error oec), sock_is_open)
          else if ec_is_error bec then (Inl (System_error bec), True)
          else (Inr (), True))"

definition udp_async_send_to ::
  "(string \<Rightarrow> exn + 'a) \<Rightarrow> (nat \<Rightarrow> 'a \<times> port \<Rightarrow> nat asio_op) \<Rightarrow> cancel_store \<Rightarrow> cancel_store \<Rightarrow>
   cancel_token \<Rightarrow> nat \<Rightarrow> udp_endpoint \<Rightarrow> ub + (exn + nat)" where
  "udp_async_send_to make_address send_to m m' ct len ep =
     (case make_address (udp_host ep) of
        Inl e \<Rightarrow> Inr (Inl e)
      | Inr addr \<Rightarrow> co_asio_value m m' ct (send_to len (addr, udp_port ep)))"

text \<open>\<open>receive_from\<close> fills in the sender: its address as text and its port.\<close>

definition udp_async_recv_from ::
  "(nat \<Rightarrow> nat asio_op \<times> string \<times> port) \<Rightarrow> cancel_store \<Rightarrow> cancel_store \<Rightarrow> cancel_token \<Rightarrow> nat \<Rightarrow>
   ub + (exn + udp_datagram)" where
  "udp_async_recv_from receive_from m m' ct len =
     (case receive_from len of
        (op, host, p) \<Rightarrow>
          (case co_asio_value m m' ct op of
             Inl u \<Rightarrow> Inl u
           | Inr (Inl e) \<Rightarrow> Inr (Inl e)
           | Inr (Inr received) \<Rightarrow>
               Inr (Inr \<lparr>dgram_from = \<lparr>udp_host = host, udp_port = p\<rparr>, dgram_bytes = received\<rparr>)))"

definition udp_socket_close :: "bool \<Rightarrow> socket_call list" where
  "udp_socket_close sock_is_open = (if \<not> sock_is_open then [] else [Cancel_call, Close_call])"

record resolved_address =
  ip :: string
  addr_port :: port

text \<open>The loop over the results, in order; a result is the address as text and the port.\<close>

primrec collect_addresses :: "(string \<times> port) list \<Rightarrow> resolved_address list \<Rightarrow> resolved_address list" where
  "collect_addresses [] out = out"
| "collect_addresses (e # es) out = collect_addresses es (out @ [\<lparr>ip = fst e, addr_port = snd e\<rparr>])"

definition dns_async_resolve ::
  "(string \<Rightarrow> string \<Rightarrow> (string \<times> port) list asio_op) \<Rightarrow> cancel_store \<Rightarrow> cancel_store \<Rightarrow>
   cancel_token \<Rightarrow> string \<Rightarrow> port \<Rightarrow> ub + (exn + resolved_address list)" where
  "dns_async_resolve resolve m m' ct host p =
     (case co_asio_value m m' ct (resolve host (to_string_port p)) of
        Inl u \<Rightarrow> Inl u
      | Inr (Inl e) \<Rightarrow> Inr (Inl e)
      | Inr (Inr results) \<Rightarrow> Inr (Inr (collect_addresses results [])))"

section \<open>Lemmas\<close>

lemmas asio_ops =
  asio_await_suspend_def asio_awaitable_new_def asio_complete_value_def asio_complete_void_def
  asio_await_resume_value_def asio_await_resume_void_def to_system_error_def

text \<open>What an operation amounts to when nobody cancels.\<close>

definition op_outcome :: "'v asio_op \<Rightarrow> exn + 'v" where
  "op_outcome op =
     (case op of
        Start_throws e \<Rightarrow> Inl e
      | Completes ec v \<Rightarrow> if ec_is_error ec then Inl (System_error ec) else Inr v)"

lemma no_error_ok [simp]: "\<not> ec_is_error no_error"
  by (simp add: no_error_def ec_is_error_def)

lemma co_asio_value_outcome:
  assumes "cancel_token_is_cancelled m ct \<Longrightarrow> cancel_token_is_cancelled m' ct"
  shows "co_asio_value m m' ct op =
    Inr (if cancel_token_is_cancelled m' ct then Inl (System_error cancelled_ec) else op_outcome op)"
  using assms by (auto simp: co_asio_value_def asio_ops op_outcome_def split: asio_op.splits)

lemma co_asio_void_outcome:
  assumes "cancel_token_is_cancelled m ct \<Longrightarrow> cancel_token_is_cancelled m' ct"
  shows "co_asio_void m m' ct op =
    (if cancel_token_is_cancelled m' ct then Inl (System_error cancelled_ec) else op_outcome op)"
  using assms by (auto simp: co_asio_void_def asio_ops op_outcome_def split: asio_op.splits)

text \<open>The store at the moments a coroutine reads its token: it only ever grows.\<close>

definition store_history :: "cancel_token \<Rightarrow> (nat \<Rightarrow> cancel_store) \<Rightarrow> bool" where
  "store_history ct m \<longleftrightarrow> token_bound_in (m 0) ct \<and> (\<forall>i. cancel_step\<^sup>*\<^sup>* (m i) (m (Suc i)))"

lemma store_history_steps: "store_history ct m \<Longrightarrow> i \<le> j \<Longrightarrow> cancel_step\<^sup>*\<^sup>* (m i) (m j)"
proof (induction j)
  case (Suc j)
  then show ?case
    by (cases "i = Suc j") (auto simp: store_history_def intro: rtranclp_trans)
qed simp

lemma store_history_mono:
  assumes "store_history ct m" "i \<le> j" "cancel_token_is_cancelled (m i) ct"
  shows "cancel_token_is_cancelled (m j) ct"
proof -
  have "token_bound_in (m i) ct"
    using cancel_memory.live_steps [OF store_history_steps [OF assms(1), of 0 i]] assms(1)
    by (simp add: store_history_def)
  then show ?thesis
    using cancel_memory.cancelled_steps [OF store_history_steps [OF assms(1,2)]] assms(3) by blast
qed

lemma collect_addresses_map:
  "collect_addresses es out = out @ map (\<lambda>e. \<lparr>ip = fst e, addr_port = snd e\<rparr>) es"
  by (induction es arbitrary: out) simp_all

text \<open>Reading a decimal numeral.\<close>

definition numeral_value :: "string \<Rightarrow> nat" where
  "numeral_value = foldl (\<lambda>n c. 10 * n + (of_char c - 48)) 0"

lemma decimal_value: "numeral_value (decimal n) = n"
proof (induction n rule: decimal.induct)
  case (1 n)
  have digit: "of_char (char_of (48 + d) :: char) - 48 = d" if "d < 10" for d :: nat
    using that by simp
  show ?case
  proof (cases "n < 10")
    case True
    then show ?thesis by (simp add: decimal.simps [of n] numeral_value_def)
  next
    case False
    with 1 have "numeral_value (decimal (n div 10)) = n div 10" by simp
    with False show ?thesis by (simp add: decimal.simps [of n] numeral_value_def)
  qed
qed

lemma decimal_digits: "\<forall>c \<in> set (decimal n). c \<in> set ''0123456789''"
proof (induction n rule: decimal.induct)
  case (1 n)
  have digit: "char_of (48 + d) \<in> set ''0123456789''" if "d < 10" for d :: nat
  proof -
    have "d \<in> {0, 1, 2, 3, 4, 5, 6, 7, 8, 9}" using that by auto
    then show ?thesis by (elim insertE emptyE) (simp_all add: char_of_def bit_0)
  qed
  then show ?case using 1 digit [of n] digit [of "n mod 10"] by (auto simp: decimal.simps [of n])
qed

subsection \<open>The listener\<close>

lemmas listener_ops =
  tcp_async_listen_def tcp_listener_close_def tcp_listener_run_posted_def tcp_listener_is_open_def
  listen_possible_def Let_def

text \<open>Closing only a listener that listens.\<close>

definition polite :: "tcp_listener \<Rightarrow> listener_event \<Rightarrow> bool" where
  "polite l e = (case e of Close_event _ \<Rightarrow> l_open l | _ \<Rightarrow> True)"

fun polite_run :: "tcp_listener \<Rightarrow> listener_event list \<Rightarrow> bool" where
  "polite_run l [] \<longleftrightarrow> True"
| "polite_run l (e # es) \<longleftrightarrow> polite l e \<and> polite_run (listener_step l e) es"

definition listener_ok :: "tcp_listener \<Rightarrow> bool" where
  "listener_ok l \<longleftrightarrow>
     (l_open l \<longrightarrow> acc_open l \<and> posted_closes l = 0 \<and> \<not> l_closing l) \<and>
     (posted_closes l > 0 \<longrightarrow> acc_open l \<and> l_closing l) \<and> posted_closes l \<le> 1"

lemma listener_ok_step: "listener_ok l \<Longrightarrow> polite l e \<Longrightarrow> listener_ok (listener_step l e)"
  by (cases e) (auto simp: listener_ok_def polite_def listener_ops split: option.splits)

lemma listener_ok_run: "listener_ok l \<Longrightarrow> polite_run l es \<Longrightarrow> listener_ok (run_events listener_step l es)"
  by (induction es arbitrary: l) (auto intro: listener_ok_step)

definition listens :: "tcp_listener \<Rightarrow> listener_event \<Rightarrow> bool" where
  "listens l e =
     (case e of Listen_event lc \<Rightarrow> listen_possible lc l \<and> fst (tcp_async_listen lc l) = Inr () | _ \<Rightarrow> False)"

fun no_listen :: "tcp_listener \<Rightarrow> listener_event list \<Rightarrow> bool" where
  "no_listen l [] \<longleftrightarrow> True"
| "no_listen l (e # es) \<longleftrightarrow> \<not> listens l e \<and> no_listen (listener_step l e) es"

lemma stays_closed:
  "\<not> l_open l \<Longrightarrow> no_listen l es \<Longrightarrow> \<not> l_open (run_events listener_step l es)"
proof (induction es arbitrary: l)
  case (Cons e es)
  have "\<not> l_open (listener_step l e)"
    using Cons.prems
    by (cases e) (auto simp: listens_def listener_ops split: option.splits if_splits)
  with Cons show ?case by simp
qed simp

text \<open>
  While the loop runs, a completion is handed to it exactly once; after a stop request the coroutine
  runs on the network thread instead.
\<close>

lemma resume_on_ctx_running:
  "\<not> scheduler_stop_requested s \<Longrightarrow>
   \<exists>s'. resume_on_ctx (Some s) (Some c) = Resume_posted s' \<and> handle_q s' = handle_q s @ [Some c] \<and> fn_q s' = fn_q s"
  by (simp add: resume_on_ctx_def async_ops)

lemma resume_after_stop_is_inline: "scheduler_stop_requested s \<Longrightarrow> resume_on_ctx (Some s) (Some c) = Resume_inline c"
  by (simp add: resume_on_ctx_def)

section \<open>Properties\<close>

text \<open>
  C16: What awaiting an Asio operation does and yields, whenever and wherever it completes. The operation is
  started exactly when the token is not cancelled beforehand, and the coroutine is resumed at once exactly
  when it was not started or the starter threw. The result is the cancellation error if the token is
  cancelled by the time the coroutine is resumed; otherwise the exception of the starter, the error code
  of the operation, or its value. The stored result is never read while it is empty.
\<close>
theorem asio_await_result:
  assumes "cancel_step\<^sup>*\<^sup>* m m'" "token_bound_in m ct"
  shows "(aa_started (fst (asio_await_suspend m op (asio_awaitable_new ct))) \<longleftrightarrow> \<not> cancel_token_is_cancelled m ct) \<and>
    (snd (asio_await_suspend m op (asio_awaitable_new ct)) \<longleftrightarrow>
       cancel_token_is_cancelled m ct \<or> (\<exists>e. op = Start_throws e)) \<and>
    co_asio_value m m' ct op =
      Inr (if cancel_token_is_cancelled m' ct then Inl (System_error cancelled_ec) else op_outcome op) \<and>
    co_asio_void m m' ct op' =
      (if cancel_token_is_cancelled m' ct then Inl (System_error cancelled_ec) else op_outcome op')"
  using cancel_memory.cancelled_steps [OF assms]
  by (auto simp: co_asio_value_outcome co_asio_void_outcome asio_await_suspend_def asio_awaitable_new_def
      split: asio_op.splits)

theorem asio_await_result_witness:
  "let m = snd (cancel_source_new cancel_store_init);
       m' = cancel_source_request_cancel \<lparr>source_st = Some 0\<rparr> m; ct = \<lparr>token_st = Some 0\<rparr>;
       refused = \<lparr>ec_value = 111, ec_category = Foreign_category 1\<rparr>
   in co_asio_value m m ct (Completes no_error ''data'') = Inr (Inr ''data'') \<and>
      co_asio_void m m ct (Completes refused ()) = Inl (System_error refused) \<and>
      co_asio_value m m' ct (Completes no_error ''data'') = Inr (Inl (System_error cancelled_ec)) \<and>
      \<not> aa_started (fst (asio_await_suspend m' (Completes no_error ''data'') (asio_awaitable_new ct)))"
proof -
  let ?m = "snd (cancel_source_new cancel_store_init)"
  let ?m' = "cancel_source_request_cancel \<lparr>source_st = Some 0\<rparr> ?m" let ?ct = "\<lparr>token_st = Some 0\<rparr>"
  let ?refused = "\<lparr>ec_value = 111, ec_category = Foreign_category 1\<rparr>"
  have steps: "cancel_step\<^sup>*\<^sup>* ?m ?m" "cancel_step\<^sup>*\<^sup>* ?m ?m'" "cancel_step\<^sup>*\<^sup>* ?m' ?m'"
    by (auto intro: cancel_step.request)
  have toks: "token_bound_in ?m ?ct" "token_bound_in ?m' ?ct" "\<not> cancel_token_is_cancelled ?m ?ct"
    "cancel_token_is_cancelled ?m' ?ct"
    by (simp_all add: token_bound_in_def cancel_store_init_def async_ops)
  have "op_outcome (Completes no_error ''data'') = Inr ''data''"
    "op_outcome (Completes ?refused ()) = Inl (System_error ?refused)"
    by (simp_all add: op_outcome_def ec_is_error_def no_error_def)
  with toks show ?thesis
    using asio_await_result [OF steps(1) toks(1), of "Completes no_error ''data''" "Completes ?refused ()"]
      asio_await_result [OF steps(2) toks(1), of "Completes no_error ''data''" "Completes ?refused ()"]
      asio_await_result [OF steps(3) toks(2), of "Completes no_error ''data''" "Completes ?refused ()"]
    unfolding Let_def by simp
qed

text \<open>
  C37: \<open>async_connect\<close> succeeds exactly when the network service was available, the host and the port in
  decimal were resolved, a connection to the results was made, and the token was not cancelled up to the last check; every other case is an
  exception, and none is undefined.
\<close>
theorem tcp_connect_succeeds_iff:
  assumes "store_history ct m"
  shows "(tcp_async_connect net_ex resolve connect m ct ep = Inr (Inr ()) \<longleftrightarrow>
      net_ex = None \<and> \<not> cancel_token_is_cancelled (m 3) ct \<and>
      (\<exists>ec rs ec'. resolve (tcp_host ep) (to_string_port (tcp_port ep)) = Completes ec rs \<and>
         \<not> ec_is_error ec \<and> connect rs = Completes ec' () \<and> \<not> ec_is_error ec')) \<and>
    (\<forall>u. tcp_async_connect net_ex resolve connect m ct ep \<noteq> Inl u)"
proof -
  note mono = store_history_mono [OF assms]
  have "co_asio_value (m 0) (m 1) ct op =
      Inr (if cancel_token_is_cancelled (m 1) ct then Inl (System_error cancelled_ec) else op_outcome op)" for op :: "'a asio_op"
    by (rule co_asio_value_outcome) (rule mono [of 0 1], simp_all)
  moreover have "co_asio_void (m 2) (m 3) ct op =
      (if cancel_token_is_cancelled (m 3) ct then Inl (System_error cancelled_ec) else op_outcome op)" for op
    by (rule co_asio_void_outcome) (rule mono [of 2 3], simp_all)
  moreover have "cancel_token_is_cancelled (m 1) ct \<Longrightarrow> cancel_token_is_cancelled (m 3) ct"
    by (rule mono [of 1 3]) simp_all
  ultimately show ?thesis
    by (auto simp: tcp_async_connect_def op_outcome_def split: asio_op.splits sum.splits if_splits option.splits)
qed

theorem tcp_connect_succeeds_iff_witness:
  "tcp_async_connect None (\<lambda>host p. Completes no_error (host, p)) (\<lambda>_. Completes no_error ())
     (\<lambda>_. cancel_store_init) cancel_token_default \<lparr>tcp_host = ''localhost'', tcp_port = 8080\<rparr> = Inr (Inr ())"
  using tcp_connect_succeeds_iff [of cancel_token_default "\<lambda>_. cancel_store_init" None
      "\<lambda>host p. Completes no_error (host, p)" "\<lambda>_. Completes no_error ()"
      "\<lparr>tcp_host = ''localhost'', tcp_port = 8080\<rparr>"]
  by (simp add: store_history_def)

text \<open>
  The text of a port denotes the port: what the resolver is given for it is a decimal numeral, and
  reading that numeral gives the port back.
\<close>
lemma port_text_round_trip:
  "numeral_value (to_string_port p) = unat p \<and>
   (\<forall>c \<in> set (to_string_port p). c \<in> set ''0123456789'')"
  by (simp add: to_string_port_def decimal_value decimal_digits del: list.set)

text \<open>
  C38: A listener's \<open>is_open()\<close> can be trusted if it is only closed while it listens: in every such
  execution, with successful and failing calls of \<open>async_listen\<close>, whenever \<open>is_open()\<close> holds Asio's
  acceptor is open and no closing function is on its way to the network thread.
\<close>
theorem listener_open_means_accepting:
  assumes "polite_run tcp_listener_new es" "l = run_events listener_step tcp_listener_new es"
    and "tcp_listener_is_open l"
  shows "acc_open l \<and> posted_closes l = 0"
proof -
  have "listener_ok tcp_listener_new" by (simp add: listener_ok_def tcp_listener_new_def)
  from listener_ok_run [OF this assms(1)] assms(2,3) show ?thesis
    by (simp add: listener_ok_def tcp_listener_is_open_def)
qed

definition listen_succeeds :: listen_calls where
  "listen_succeeds =
     \<lparr>address = None, open_ec = no_error, option_ec = no_error, bind_ec = no_error, listen_ec = no_error\<rparr>"

theorem listener_open_means_accepting_witness:
  "let l = run_events listener_step tcp_listener_new
       [Listen_event listen_succeeds, Close_event False, Posted_runs, Listen_event listen_succeeds]
   in tcp_listener_is_open l \<and> acc_open l \<and> posted_closes l = 0"
proof -
  let ?es = "[Listen_event listen_succeeds, Close_event False, Posted_runs, Listen_event listen_succeeds]"
  let ?l = "run_events listener_step tcp_listener_new ?es"
  have "polite_run tcp_listener_new ?es" "tcp_listener_is_open ?l"
    by (simp_all add: polite_def listener_ops tcp_listener_new_def listen_succeeds_def)
  with listener_open_means_accepting [of ?es ?l] show ?thesis by (simp only: Let_def)
qed

text \<open>
  Closing before listening breaks the listener, whatever its state: if \<open>close()\<close> is called on a listener
  that is neither open nor closing, and a following \<open>async_listen\<close> succeeds before the posted closing
  function runs, that function closes the acceptor that has just been opened, while \<open>is_open()\<close> goes on
  saying that the listener is open and \<open>async_accept\<close> goes on to the acceptor instead of refusing.
\<close>
lemma listener_early_close_hits_later_listen:
  assumes "\<not> tcp_listener_is_open l" "\<not> l_closing l"
    and "listen_possible lc (tcp_listener_close False l)"
    and "fst (tcp_async_listen lc (tcp_listener_close False l)) = Inr ()"
    and "l' = run_events listener_step l [Close_event False, Listen_event lc, Posted_runs]"
  shows "tcp_listener_is_open l' \<and> \<not> acc_open l' \<and>
    (\<not> cancel_token_is_cancelled m ct \<longrightarrow> tcp_async_accept None m m' m'' ct op l' = co_asio_void m' m'' ct op)"
  using assms by (auto simp: listener_ops tcp_async_accept_def split: option.splits if_splits)

text \<open>
  After \<open>close()\<close>, and until \<open>async_listen\<close> succeeds again, the listener is not open and
  \<open>async_accept\<close> fails with the cancellation error without touching the acceptor.
\<close>
lemma listener_closed_refuses_accept:
  assumes "no_listen (tcp_listener_close thrown l) es"
    and "l' = run_events listener_step (tcp_listener_close thrown l) es"
  shows "\<not> tcp_listener_is_open l' \<and>
    tcp_async_accept net_ex m m' m'' ct op l' = Inl (System_error cancelled_ec)"
proof -
  have "\<not> l_open (tcp_listener_close thrown l)" by (simp add: tcp_listener_close_def)
  from stays_closed [OF this assms(1)] assms(2) show ?thesis
    by (simp add: tcp_listener_is_open_def tcp_async_accept_def)
qed

end
