(* ===== verification/Async_Io_Context.thy ===== *)
theory Async_Io_Context
  imports Async_Thread_Pool Async_Timer Async_Signal Async_Net
begin

text \<open>
  The owner of everything (\<open>include/vix/async/core/io_context.hpp\<close>, \<open>src/core/io_context.cpp\<close>): the
  scheduler, the four services it creates on first use, and the shutdown that destroys them. All
  operations here run under \<open>lifecycle_mutex_\<close>, so an execution is a sequence of them.
\<close>

section \<open>State\<close>

text \<open>
  A service is absent until its first use. The timer always has a worker thread; the signal set has one
  once \<open>async_wait\<close> was called. \<open>ctx_built\<close> lists the services that were constructed, in order.
\<close>

datatype service = Svc_scheduler | Svc_net | Svc_signals | Svc_timer | Svc_pool

record ('fn, 'g, 'h) io_context =
  ctx_sched :: "'fn scheduler"
  ctx_pool :: "'g thread_pool option"
  ctx_timer :: "('fn timer \<times> nat) option"
  ctx_signals :: "('h signal_set \<times> nat option) option"
  ctx_net :: "asio_net_service option"
  ctx_shutdown_done :: bool
  ctx_built :: "service list"

definition io_context_new :: "('fn, 'g, 'h) io_context" where
  "io_context_new =
     \<lparr>ctx_sched = scheduler_init, ctx_pool = None, ctx_timer = None, ctx_signals = None, ctx_net = None,
      ctx_shutdown_done = False, ctx_built = []\<rparr>"

section \<open>Operations\<close>

definition io_context_is_shutdown :: "('fn, 'g, 'h) io_context \<Rightarrow> bool" where
  "io_context_is_shutdown c = ctx_shutdown_done c"

definition ensure_not_shutdown :: "('fn, 'g, 'h) io_context \<Rightarrow> exn option" where
  "ensure_not_shutdown c =
     (if io_context_is_shutdown c then Some (Runtime_error ''io_context is shut down'') else None)"

text \<open>
  The accessors: an exception, or the service with the context that owns it. \<open>n\<close> is the number of
  hardware threads, \<open>t\<close> the thread that a new service starts.
\<close>

definition io_context_cpu_pool ::
  "nat \<Rightarrow> ('fn, 'g, 'h) io_context \<Rightarrow> exn + ('g thread_pool \<times> ('fn, 'g, 'h) io_context)" where
  "io_context_cpu_pool n c =
     (case ensure_not_shutdown c of
        Some e \<Rightarrow> Inl e
      | None \<Rightarrow>
          (case ctx_pool c of
             Some p \<Rightarrow> Inr (p, c)
           | None \<Rightarrow> (let p = thread_pool_new n
               in Inr (p, c\<lparr>ctx_pool := Some p, ctx_built := ctx_built c @ [Svc_pool]\<rparr>))))"

definition io_context_timers ::
  "nat \<Rightarrow> ('fn, 'g, 'h) io_context \<Rightarrow> exn + ('fn timer \<times> ('fn, 'g, 'h) io_context)" where
  "io_context_timers t c =
     (case ensure_not_shutdown c of
        Some e \<Rightarrow> Inl e
      | None \<Rightarrow>
          (case ctx_timer c of
             Some (tmr, w) \<Rightarrow> Inr (tmr, c)
           | None \<Rightarrow> Inr (timer_init, c\<lparr>ctx_timer := Some (timer_init, t), ctx_built := ctx_built c @ [Svc_timer]\<rparr>)))"

definition io_context_signals ::
  "('fn, 'g, 'h) io_context \<Rightarrow> exn + ('h signal_set \<times> ('fn, 'g, 'h) io_context)" where
  "io_context_signals c =
     (case ensure_not_shutdown c of
        Some e \<Rightarrow> Inl e
      | None \<Rightarrow>
          (case ctx_signals c of
             Some (s, w) \<Rightarrow> Inr (s, c)
           | None \<Rightarrow>
               Inr (signal_set_init,
                 c\<lparr>ctx_signals := Some (signal_set_init, None), ctx_built := ctx_built c @ [Svc_signals]\<rparr>)))"

definition io_context_net ::
  "nat \<Rightarrow> ('fn, 'g, 'h) io_context \<Rightarrow> exn + (asio_net_service \<times> ('fn, 'g, 'h) io_context)" where
  "io_context_net t c =
     (case ensure_not_shutdown c of
        Some e \<Rightarrow> Inl e
      | None \<Rightarrow>
          (case ctx_net c of
             Some n \<Rightarrow> Inr (n, c)
           | None \<Rightarrow> (let n = asio_net_service_new t
               in Inr (n, c\<lparr>ctx_net := Some n, ctx_built := ctx_built c @ [Svc_net]\<rparr>))))"

text \<open>
  What \<open>shutdown()\<close> does, in order: stop the scheduler, then destroy the services that exist.
  \<open>self\<close> is the calling thread; \<open>throws\<close> says for which threads \<open>join\<close> throws.
\<close>

datatype teardown =
    Scheduler_stopped
  | Net_destroyed net_join
  | Signals_destroyed signal_worker_end
  | Timer_destroyed worker_end
  | Pool_destroyed "thread_op list"

definition destroy_net :: "nat \<Rightarrow> (nat \<Rightarrow> bool) \<Rightarrow> asio_net_service option \<Rightarrow> teardown list" where
  "destroy_net self throws n =
     (case n of
        None \<Rightarrow> []
      | Some s \<Rightarrow> [Net_destroyed (snd (asio_net_service_destroy self
                     (case net_thread s of Some t \<Rightarrow> throws t | None \<Rightarrow> False) s))])"

definition destroy_signals ::
  "nat \<Rightarrow> (nat \<Rightarrow> bool) \<Rightarrow> ('h signal_set \<times> nat option) option \<Rightarrow> teardown list" where
  "destroy_signals self throws ss =
     (case ss of
        None \<Rightarrow> []
      | Some (s, w) \<Rightarrow> [Signals_destroyed (snd (signal_destroy w self
                          (case w of Some t \<Rightarrow> throws t | None \<Rightarrow> False) s))])"

definition destroy_timer :: "nat \<Rightarrow> (nat \<Rightarrow> bool) \<Rightarrow> ('fn timer \<times> nat) option \<Rightarrow> teardown list" where
  "destroy_timer self throws tt =
     (case tt of
        None \<Rightarrow> []
      | Some (t, w) \<Rightarrow> [Timer_destroyed (snd (timer_destroy (Some w) self (throws w) t))])"

definition destroy_pool :: "nat \<Rightarrow> (nat \<Rightarrow> bool) \<Rightarrow> 'g thread_pool option \<Rightarrow> teardown list" where
  "destroy_pool self throws pp =
     (case pp of
        None \<Rightarrow> []
      | Some p \<Rightarrow> [Pool_destroyed (shutdown_threads self throws p)])"

definition io_context_shutdown ::
  "nat \<Rightarrow> (nat \<Rightarrow> bool) \<Rightarrow> ('fn, 'g, 'h) io_context \<Rightarrow> ('fn, 'g, 'h) io_context \<times> teardown list" where
  "io_context_shutdown self throws c =
     (if ctx_shutdown_done c then (c, [])
      else
        (c\<lparr>ctx_sched := scheduler_stop (ctx_sched c), ctx_pool := None, ctx_timer := None,
           ctx_signals := None, ctx_net := None, ctx_shutdown_done := True\<rparr>,
         [Scheduler_stopped] @ destroy_net self throws (ctx_net c) @
         destroy_signals self throws (ctx_signals c) @ destroy_timer self throws (ctx_timer c) @
         destroy_pool self throws (ctx_pool c)))"

section \<open>The life of a context\<close>

text \<open>
  \<open>Work\<close> is anything the program does with the scheduler and with the services that exist, between two
  lifecycle operations.
\<close>

datatype ('fn, 'g, 'h) ctx_event =
    Use_pool nat
  | Use_timers nat
  | Use_signals
  | Use_net nat
  | Shutdown_ctx nat "nat \<Rightarrow> bool"
  | Work "'fn scheduler \<Rightarrow> 'fn scheduler" "'g thread_pool \<Rightarrow> 'g thread_pool"
      "'fn timer \<times> nat \<Rightarrow> 'fn timer \<times> nat" "'h signal_set \<times> nat option \<Rightarrow> 'h signal_set \<times> nat option"

definition ctx_after :: "('fn, 'g, 'h) io_context \<Rightarrow> exn + ('a \<times> ('fn, 'g, 'h) io_context) \<Rightarrow> ('fn, 'g, 'h) io_context" where
  "ctx_after c r = (case r of Inl _ \<Rightarrow> c | Inr (_, c') \<Rightarrow> c')"

fun ctx_step :: "('fn, 'g, 'h) io_context \<Rightarrow> ('fn, 'g, 'h) ctx_event \<Rightarrow> ('fn, 'g, 'h) io_context" where
  "ctx_step c (Use_pool n) = ctx_after c (io_context_cpu_pool n c)"
| "ctx_step c (Use_timers t) = ctx_after c (io_context_timers t c)"
| "ctx_step c Use_signals = ctx_after c (io_context_signals c)"
| "ctx_step c (Use_net t) = ctx_after c (io_context_net t c)"
| "ctx_step c (Shutdown_ctx self throws) = fst (io_context_shutdown self throws c)"
| "ctx_step c (Work fs fp ft fsig) =
     c\<lparr>ctx_sched := fs (ctx_sched c), ctx_pool := map_option fp (ctx_pool c),
       ctx_timer := map_option ft (ctx_timer c), ctx_signals := map_option fsig (ctx_signals c)\<rparr>"

text \<open>Services by kind: those the context owns, and those an event tears down.\<close>

fun service_rank :: "service \<Rightarrow> nat" where
  "service_rank Svc_scheduler = 0"
| "service_rank Svc_net = 1"
| "service_rank Svc_signals = 2"
| "service_rank Svc_timer = 3"
| "service_rank Svc_pool = 4"

fun teardown_service :: "teardown \<Rightarrow> service" where
  "teardown_service Scheduler_stopped = Svc_scheduler"
| "teardown_service (Net_destroyed _) = Svc_net"
| "teardown_service (Signals_destroyed _) = Svc_signals"
| "teardown_service (Timer_destroyed _) = Svc_timer"
| "teardown_service (Pool_destroyed _) = Svc_pool"

definition present_services :: "('fn, 'g, 'h) io_context \<Rightarrow> service list" where
  "present_services c =
     (if ctx_net c = None then [] else [Svc_net]) @ (if ctx_signals c = None then [] else [Svc_signals]) @
     (if ctx_timer c = None then [] else [Svc_timer]) @ (if ctx_pool c = None then [] else [Svc_pool])"

definition torn_down :: "('fn, 'g, 'h) io_context \<Rightarrow> ('fn, 'g, 'h) ctx_event \<Rightarrow> service list" where
  "torn_down c e =
     (case e of
        Shutdown_ctx self throws \<Rightarrow> map teardown_service (snd (io_context_shutdown self throws c))
      | _ \<Rightarrow> [])"

definition destroyed_services :: "('fn, 'g, 'h) io_context \<Rightarrow> ('fn, 'g, 'h) ctx_event \<Rightarrow> service list" where
  "destroyed_services c e = filter (\<lambda>s. s \<noteq> Svc_scheduler) (torn_down c e)"

section \<open>Lemmas\<close>

lemmas ctx_ops =
  io_context_cpu_pool_def io_context_timers_def io_context_signals_def io_context_net_def
  ensure_not_shutdown_def io_context_is_shutdown_def ctx_after_def Let_def

lemma shutdown_services:
  "\<not> ctx_shutdown_done c \<Longrightarrow>
   map teardown_service (snd (io_context_shutdown self throws c)) = Svc_scheduler # present_services c"
  by (auto simp: io_context_shutdown_def destroy_net_def destroy_signals_def destroy_timer_def
      destroy_pool_def present_services_def split: option.splits)

lemma shutdown_empties: "\<not> ctx_shutdown_done c \<Longrightarrow> present_services (fst (io_context_shutdown self throws c)) = []"
  by (simp add: io_context_shutdown_def present_services_def)

text \<open>What an event constructs: the part by which the list of constructed services grew.\<close>

definition constructed :: "('fn, 'g, 'h) io_context \<Rightarrow> ('fn, 'g, 'h) ctx_event \<Rightarrow> service list" where
  "constructed c e = drop (length (ctx_built c)) (ctx_built (ctx_step c e))"

lemma built_step: "ctx_built (ctx_step c e) = ctx_built c @ constructed c e"
  by (cases e) (auto simp: constructed_def ctx_ops io_context_shutdown_def split: option.splits)

lemma built_run: "ctx_built (run_events ctx_step c es) = ctx_built c @ log_events ctx_step constructed c es"
  by (induction es arbitrary: c) (simp_all add: built_step)

lemma services_conserve:
  "mset (destroyed_services c e) + mset (present_services (ctx_step c e)) =
     mset (present_services c) + mset (constructed c e)"
proof (cases e)
  case (Shutdown_ctx self throws)
  show ?thesis
  proof (cases "ctx_shutdown_done c")
    case True
    with Shutdown_ctx show ?thesis
      by (simp add: destroyed_services_def torn_down_def constructed_def io_context_shutdown_def)
  next
    case False
    have "filter (\<lambda>s. s \<noteq> Svc_scheduler) (present_services c) = present_services c"
      by (simp add: present_services_def)
    moreover have "constructed c e = []" by (simp add: Shutdown_ctx constructed_def io_context_shutdown_def)
    ultimately show ?thesis using False
      by (simp add: Shutdown_ctx destroyed_services_def torn_down_def shutdown_services shutdown_empties)
  qed
qed (auto simp: destroyed_services_def torn_down_def constructed_def present_services_def ctx_ops
    split: option.splits)

interpretation ctx_services:
  bag_component ctx_step constructed destroyed_services "\<lambda>c. mset (present_services c)"
  by unfold_locales (rule services_conserve)

text \<open>A service that exists is among those constructed, and is not constructed again.\<close>

definition built_ok :: "('fn, 'g, 'h) io_context \<Rightarrow> bool" where
  "built_ok c \<longleftrightarrow>
     distinct (ctx_built c) \<and> (\<not> ctx_shutdown_done c \<longrightarrow> set (ctx_built c) = set (present_services c))"

lemma built_ok_step: "built_ok c \<Longrightarrow> built_ok (ctx_step c e)"
  by (cases e)
    (auto simp: built_ok_def present_services_def ctx_ops io_context_shutdown_def split: option.splits if_splits)

lemma built_ok_reachable: "built_ok (run_events ctx_step io_context_new es)"
  by (rule run_events_invariant [where I = built_ok])
    (erule built_ok_step, simp add: built_ok_def io_context_new_def present_services_def)

text \<open>After shutdown the context owns nothing, for good.\<close>

definition ctx_clean :: "('fn, 'g, 'h) io_context \<Rightarrow> bool" where
  "ctx_clean c \<longleftrightarrow> (ctx_shutdown_done c \<longrightarrow> present_services c = [])"

lemma ctx_clean_step: "ctx_clean c \<Longrightarrow> ctx_clean (ctx_step c e)"
  by (cases e)
    (auto simp: ctx_clean_def present_services_def ctx_ops io_context_shutdown_def
      split: option.splits if_splits)

lemma shutdown_persists: "ctx_shutdown_done c \<Longrightarrow> ctx_shutdown_done (ctx_step c e)"
  by (cases e) (auto simp: ctx_ops io_context_shutdown_def split: option.splits)

lemma shutdown_persists_run: "ctx_shutdown_done c \<Longrightarrow> ctx_shutdown_done (run_events ctx_step c es)"
  by (rule run_events_invariant [where I = ctx_shutdown_done]) (rule shutdown_persists)

lemma ctx_clean_reachable: "ctx_clean (run_events ctx_step io_context_new es)"
  by (rule run_events_invariant [where I = ctx_clean])
    (erule ctx_clean_step, simp add: ctx_clean_def io_context_new_def)

lemma torn_down_after_shutdown:
  "ctx_shutdown_done c \<Longrightarrow> log_events ctx_step torn_down c es = []"
proof (induction es arbitrary: c)
  case (Cons e es)
  then have "torn_down c e = []"
    by (cases e) (simp_all add: torn_down_def io_context_shutdown_def)
  with Cons show ?case by (simp add: shutdown_persists)
qed simp

lemma present_services_ordered: "sorted_wrt (\<lambda>a b. service_rank a < service_rank b) (Svc_scheduler # present_services c)"
  by (simp add: present_services_def)

lemma torn_down_ordered:
  "sorted_wrt (\<lambda>a b. service_rank a < service_rank b) (log_events ctx_step torn_down c es)"
proof (induction es arbitrary: c)
  case (Cons e es)
  show ?case
  proof (cases "torn_down c e = []")
    case True
    with Cons show ?thesis by simp
  next
    case False
    then obtain self throws where e: "e = Shutdown_ctx self throws" and alive: "\<not> ctx_shutdown_done c"
      by (cases e) (auto simp: torn_down_def io_context_shutdown_def split: if_splits)
    have "torn_down c e = Svc_scheduler # present_services c"
      using alive by (simp add: torn_down_def shutdown_services e)
    moreover have "ctx_shutdown_done (ctx_step c e)" by (simp add: e io_context_shutdown_def)
    ultimately show ?thesis
      using present_services_ordered [of c] by (simp add: torn_down_after_shutdown)
  qed
qed simp

section \<open>Properties\<close>

text \<open>
  C15: A context constructs each service at most once and destroys exactly those it constructed, once each,
  in the fixed order network, signals, timer, pool, after stopping the scheduler: in every life of a
  context no service was constructed twice; the services destroyed together with those it still owns are
  the services constructed; the sequence of teardown actions is strictly ordered; after a shutdown nothing
  is owned any more; and before it an accessor hands out the service the context owns, unchanged.
\<close>
theorem io_context_lifecycle:
  fixes es :: "('fn, 'g, 'h) ctx_event list"
  assumes "c = run_events ctx_step io_context_new es"
  shows "distinct (ctx_built c) \<and>
    mset (log_events ctx_step destroyed_services io_context_new es) + mset (present_services c) =
      mset (ctx_built c) \<and>
    sorted_wrt (\<lambda>a b. service_rank a < service_rank b) (log_events ctx_step torn_down io_context_new es) \<and>
    (ctx_shutdown_done c \<longrightarrow> present_services c = []) \<and>
    (\<not> ctx_shutdown_done c \<longrightarrow>
      (\<forall>p. ctx_pool c = Some p \<longrightarrow> io_context_cpu_pool n c = Inr (p, c)) \<and>
      (\<forall>tmr w. ctx_timer c = Some (tmr, w) \<longrightarrow> io_context_timers t c = Inr (tmr, c)) \<and>
      (\<forall>s w. ctx_signals c = Some (s, w) \<longrightarrow> io_context_signals c = Inr (s, c)) \<and>
      (\<forall>net. ctx_net c = Some net \<longrightarrow> io_context_net t c = Inr (net, c)))"
proof -
  have "ctx_built c = log_events ctx_step constructed io_context_new es"
    using built_run [of io_context_new es] assms by (simp add: io_context_new_def)
  moreover have "present_services io_context_new = []" by (simp add: present_services_def io_context_new_def)
  moreover have "\<not> ctx_shutdown_done c \<longrightarrow>
      (\<forall>p. ctx_pool c = Some p \<longrightarrow> io_context_cpu_pool n c = Inr (p, c)) \<and>
      (\<forall>tmr w. ctx_timer c = Some (tmr, w) \<longrightarrow> io_context_timers t c = Inr (tmr, c)) \<and>
      (\<forall>s w. ctx_signals c = Some (s, w) \<longrightarrow> io_context_signals c = Inr (s, c)) \<and>
      (\<forall>net. ctx_net c = Some net \<longrightarrow> io_context_net t c = Inr (net, c))"
    by (simp add: ctx_ops)
  ultimately show ?thesis
    using ctx_services.bag_conserve_run [of io_context_new es] torn_down_ordered [of io_context_new es]
      ctx_clean_reachable [of es] built_ok_reachable [of es] assms
    by (simp add: ctx_clean_def built_ok_def)
qed

theorem io_context_lifecycle_witness:
  "let es = [Use_timers 1, Use_pool 4, Use_timers 2, Shutdown_ctx 0 (\<lambda>_. False), Shutdown_ctx 0 (\<lambda>_. False), Use_pool 4];
       c = run_events ctx_step (io_context_new :: (bool, bool, bool) io_context) es
   in log_events ctx_step torn_down io_context_new es = [Svc_scheduler, Svc_timer, Svc_pool] \<and>
      ctx_built c = [Svc_timer, Svc_pool] \<and> present_services c = []"
proof -
  let ?es = "[Use_timers 1, Use_pool 4, Use_timers 2, Shutdown_ctx 0 (\<lambda>_. False), Shutdown_ctx 0 (\<lambda>_. False),
    Use_pool 4] :: (bool, bool, bool) ctx_event list"
  let ?c = "run_events ctx_step io_context_new ?es"
  have c: "ctx_shutdown_done ?c" "ctx_built ?c = [Svc_timer, Svc_pool]"
    by (simp_all add: io_context_new_def ctx_ops io_context_shutdown_def)
  have "log_events ctx_step torn_down io_context_new ?es = [Svc_scheduler, Svc_timer, Svc_pool]"
    by (simp add: torn_down_def io_context_new_def ctx_ops io_context_shutdown_def destroy_net_def
        destroy_signals_def destroy_timer_def destroy_pool_def)
  moreover have "present_services ?c = []" using io_context_lifecycle [OF refl, of ?es] c(1) by blast
  ultimately show ?thesis using c(2) unfolding Let_def by blast
qed

text \<open>
  C36: After \<open>shutdown()\<close> the context is closed for good: whatever happens afterwards, every accessor
  throws "io_context is shut down" and leaves no service behind, the scheduler's stop flag was set,
  and another \<open>shutdown()\<close>, as in the destructor, does nothing.
\<close>
theorem io_context_unusable_after_shutdown:
  fixes es :: "('fn, 'g, 'h) ctx_event list"
  assumes "c = run_events ctx_step (fst (io_context_shutdown self throws c0)) es"
  shows "(\<not> ctx_shutdown_done c0 \<longrightarrow>
      scheduler_stop_requested (ctx_sched (fst (io_context_shutdown self throws c0)))) \<and>
    io_context_cpu_pool n c = Inl (Runtime_error ''io_context is shut down'') \<and>
    io_context_timers t c = Inl (Runtime_error ''io_context is shut down'') \<and>
    io_context_signals c = Inl (Runtime_error ''io_context is shut down'') \<and>
    io_context_net t c = Inl (Runtime_error ''io_context is shut down'') \<and>
    io_context_shutdown self' throws' c = (c, [])"
proof -
  have "ctx_shutdown_done (fst (io_context_shutdown self throws c0))"
    by (simp add: io_context_shutdown_def)
  then have "ctx_shutdown_done c" using assms by (simp add: shutdown_persists_run)
  then show ?thesis
    by (simp add: ctx_ops io_context_shutdown_def scheduler_stop_requested_def scheduler_stop_def)
qed

theorem io_context_unusable_after_shutdown_witness:
  "io_context_cpu_pool 4 (run_events ctx_step
     (fst (io_context_shutdown 0 (\<lambda>_. False) (io_context_new :: (bool, bool, bool) io_context))) [Use_net 3]) =
   Inl (Runtime_error ''io_context is shut down'')"
  using io_context_unusable_after_shutdown [OF refl] by blast

end
