(* ===== verification/Async_Log.thy ===== *)
theory Async_Log
  imports Async_Prelude
begin

text \<open>
  Logging and assertions (\<open>include/vix/async/detail/log.hpp\<close>, \<open>include/vix/async/detail/asserts.hpp\<close>):
  the levels with their order, the filter, the line that is written and the abort.
\<close>

section \<open>Levels\<close>

datatype log_level = Lvl_trace | Lvl_debug | Lvl_info | Lvl_warn | Lvl_error | Lvl_fatal | Lvl_off

fun level_value :: "log_level \<Rightarrow> int" where
  "level_value Lvl_trace = 0"
| "level_value Lvl_debug = 1"
| "level_value Lvl_info = 2"
| "level_value Lvl_warn = 3"
| "level_value Lvl_error = 4"
| "level_value Lvl_fatal = 5"
| "level_value Lvl_off = 6"

text \<open>An \<open>enum class\<close> is compared by its underlying value.\<close>

instantiation log_level :: linorder
begin

definition less_eq_log_level :: "log_level \<Rightarrow> log_level \<Rightarrow> bool" where
  "less_eq_log_level a b \<longleftrightarrow> level_value a \<le> level_value b"

definition less_log_level :: "log_level \<Rightarrow> log_level \<Rightarrow> bool" where
  "less_log_level a b \<longleftrightarrow> level_value a < level_value b"

instance
proof
  fix a b :: log_level
  show "a \<le> b \<Longrightarrow> b \<le> a \<Longrightarrow> a = b"
    by (cases a; cases b) (simp_all add: less_eq_log_level_def)
qed (auto simp: less_eq_log_level_def less_log_level_def)

end

fun log_to_string :: "log_level \<Rightarrow> string" where
  "log_to_string Lvl_trace = ''Trace''"
| "log_to_string Lvl_debug = ''Debug''"
| "log_to_string Lvl_info = ''Info''"
| "log_to_string Lvl_warn = ''Warn''"
| "log_to_string Lvl_error = ''Error''"
| "log_to_string Lvl_fatal = ''Fatal''"
| "log_to_string Lvl_off = ''Of''"

section \<open>Writing\<close>

text \<open>The global level, what has been written to the error stream, and whether the process aborted.\<close>

record log_state =
  g_log_level :: log_level
  err_lines :: "string list"
  aborted :: bool

definition log_init :: log_state where
  "log_init = \<lparr>g_log_level = Lvl_info, err_lines = [], aborted = False\<rparr>"

definition set_log_level :: "log_level \<Rightarrow> log_state \<Rightarrow> log_state" where
  "set_log_level lvl s = s\<lparr>g_log_level := lvl\<rparr>"

definition get_log_level :: "log_state \<Rightarrow> log_level" where
  "get_log_level s = g_log_level s"

text \<open>\<open>buf\<close> is the time of day as text.\<close>

definition log_message :: "string \<Rightarrow> log_level \<Rightarrow> string \<Rightarrow> log_state \<Rightarrow> log_state" where
  "log_message buf lvl msg s =
     (if lvl < get_log_level s then s
      else s\<lparr>err_lines := err_lines s @ [''['' @ buf @ ''] ['' @ log_to_string lvl @ ''] '' @ msg],
             aborted := aborted s \<or> lvl = Lvl_fatal\<rparr>)"

text \<open>\<open>assert_fail\<close>, reached by \<open>ASYNC_ASSERT\<close> only when assertions are enabled and the condition is false.\<close>

definition assert_fail :: "string \<Rightarrow> string \<Rightarrow> string \<Rightarrow> string option \<Rightarrow> log_state \<Rightarrow> log_state" where
  "assert_fail expr file line msg s =
     s\<lparr>err_lines := err_lines s @ [''[async][assert] failed: '' @ expr, ''  at '' @ file @ '':'' @ line] @
          (case msg of None \<Rightarrow> [] | Some m \<Rightarrow> [''  message: '' @ m]),
        aborted := True\<rparr>"

definition async_assert :: "bool \<Rightarrow> bool \<Rightarrow> string \<Rightarrow> string \<Rightarrow> string \<Rightarrow> string option \<Rightarrow> log_state \<Rightarrow> log_state" where
  "async_assert enabled cond expr file line msg s =
     (if enabled \<and> \<not> cond then assert_fail expr file line msg s else s)"

section \<open>Lemmas\<close>

lemma log_to_string_inj: "log_to_string a = log_to_string b \<longleftrightarrow> a = b"
  by (cases a; cases b) simp_all

text \<open>What a message does depends on the order of the levels only.\<close>

lemma log_message_written:
  "err_lines (log_message buf lvl msg s) \<noteq> err_lines s \<longleftrightarrow> g_log_level s \<le> lvl"
  by (auto simp: log_message_def get_log_level_def)

text \<open>
  The level \<open>off\<close> is the greatest, so a message of level \<open>off\<close> passes every filter, and a fatal message
  does not abort when logging is off.
\<close>

lemma log_off_is_written: "err_lines (log_message buf Lvl_off msg s) \<noteq> err_lines s"
proof -
  have "g_log_level s \<le> Lvl_off" by (cases "g_log_level s") (simp_all add: less_eq_log_level_def)
  then show ?thesis by (simp add: log_message_written)
qed

lemma fatal_filtered_by_off: "log_message buf Lvl_fatal msg (set_log_level Lvl_off s) = set_log_level Lvl_off s"
  by (simp add: log_message_def get_log_level_def set_log_level_def less_log_level_def)

end
