(* ===== verification/Async_Runtime.thy ===== *)
theory Async_Runtime
  imports Async_Thread_Pool Async_Timer
begin

text \<open>
  The running program: the event loop with its coroutines, the timer thread and the pool workers over
  one scheduler, in any interleaving. Coroutine code that uses the \<open>io_context\<close> (prints, awaits tasks,
  \<open>sleep_for\<close> and \<open>submit\<close>, asks for a stop) is a term of \<open>app\<close>; \<open>app_body\<close> is the coroutine the
  machine runs for it, and \<open>app_big\<close> what the same code means when it is read as a sequential program
  with a clock.
\<close>

section \<open>State\<close>

text \<open>
  The callables given to the timer: the lambda of \<open>sleep_for\<close>, which posts a handle, and a callback that
  prints a line. A line on \<open>std::cout\<close> is recorded with the time and with who wrote it.
\<close>

datatype rt_fn = Wake handle | Say string

datatype writer = Coroutine nat | Callback

type_synonym line = "time_point \<times> writer \<times> string"

record rt =
  rt_timer :: "rt_fn timer"
  rt_worker :: "rt_fn timer_pc"
  rt_now :: time_point
  rt_pool :: "rt_fn job thread_pool"
  rt_jobs :: "rt_fn job func list"
  rt_started :: "thread_id \<Rightarrow> bool"
  rt_exited :: "thread_id \<Rightarrow> bool"
  rt_await :: "nat \<Rightarrow> submit_awaitable"
  rt_tokens :: cancel_store
  rt_out :: "line list"

text \<open>What the event loop does when it calls one of the timer's callables.\<close>

fun rt_call :: "rt_fn \<Rightarrow> rt \<Rightarrow> rt \<times> handle list" where
  "rt_call (Wake h) r = sleep_job h r"
| "rt_call (Say s) r = (r\<lparr>rt_out := rt_out r @ [(rt_now r, Callback, s)]\<rparr>, [])"

text \<open>
  The services as the components model them. Their \<open>io_context\<close> is a mailbox: what a service posts in
  one step is handed over to the scheduler of the event loop in the same step.
\<close>

definition timer_view :: "rt \<Rightarrow> rt_fn timer_system" where
  "timer_view r =
     \<lparr>tm = rt_timer r, pc = rt_worker r, tnow = rt_now r, tctx = scheduler_init, ttokens = rt_tokens r\<rparr>"

definition pool_view :: "rt \<Rightarrow> rt_fn pool_system" where
  "pool_view r =
     \<lparr>pool = rt_pool r, running_jobs = rt_jobs r, job_started = rt_started r, exited = rt_exited r, awaitables = rt_await r,
      pool_ctx = scheduler_init, tokens = rt_tokens r\<rparr>"

record rt_system =
  rs_world :: "rt world"
  rs_left :: bool

section \<open>Steps\<close>

datatype rt_event =
    Loop
  | Timer_thread
  | Pool_takes thread_id
  | Pool_starts thread_id
  | Pool_finishes thread_id
  | Time_passes int
  | Cancels cancel_source

fun leaves :: "'fn choice \<Rightarrow> bool" where
  "leaves Leave_loop = True"
| "leaves _ = False"

lemma leaves_iff [simp]: "leaves c \<longleftrightarrow> c = Leave_loop"
  by (cases c) simp_all

text \<open>
  One step of the thread in \<open>io_context::run\<close>: a step of the executing coroutine or one pass of the
  loop, until it leaves.
\<close>

definition rt_loop_step :: "rt_system \<Rightarrow> ub + rt_system" where
  "rt_loop_step s =
     (if rs_left s then Inr s
      else if cur (rs_world s) = None \<and> leaves (fst (scheduler_pick (sched (rs_world s))))
      then Inr (s\<lparr>rs_left := True\<rparr>)
      else (case world_step (rs_world s) of Inl u \<Rightarrow> Inl u | Inr w \<Rightarrow> Inr (s\<lparr>rs_world := w\<rparr>)))"

definition rt_timer_step :: "rt world \<Rightarrow> rt world" where
  "rt_timer_step w =
     (let v = timer_event_step (timer_view (shared w)) Worker_step
      in w\<lparr>shared := (shared w)\<lparr>rt_timer := tm v, rt_worker := pc v\<rparr>,
           sched := fold (\<lambda>f. scheduler_post_fn (map_option rt_call f)) (fn_q (tctx v)) (sched w)\<rparr>)"

definition rt_pool_step :: "rt_fn pool_event \<Rightarrow> rt world \<Rightarrow> rt world" where
  "rt_pool_step e w =
     (let v = pool_step (pool_view (shared w)) e
      in w\<lparr>shared := (shared w)\<lparr>rt_pool := pool v, rt_jobs := running_jobs v, rt_started := job_started v,
             rt_exited := exited v, rt_await := awaitables v\<rparr>,
           sched := post_all (handle_q (pool_ctx v)) (sched w)\<rparr>)"

abbreviation on_world :: "(rt world \<Rightarrow> rt world) \<Rightarrow> rt_system \<Rightarrow> rt_system" where
  "on_world f s \<equiv> s\<lparr>rs_world := f (rs_world s)\<rparr>"

abbreviation on_shared :: "(rt \<Rightarrow> rt) \<Rightarrow> rt_system \<Rightarrow> rt_system" where
  "on_shared f \<equiv> on_world (\<lambda>w. w\<lparr>shared := f (shared w)\<rparr>)"

fun rt_step :: "rt_system \<Rightarrow> rt_event \<Rightarrow> ub + rt_system" where
  "rt_step s Loop = rt_loop_step s"
| "rt_step s Timer_thread = Inr (on_world rt_timer_step s)"
| "rt_step s (Pool_takes t) = Inr (on_world (rt_pool_step (Worker_take t)) s)"
| "rt_step s (Pool_starts t) = Inr (on_world (rt_pool_step (Worker_start t)) s)"
| "rt_step s (Pool_finishes t) = Inr (on_world (rt_pool_step (Worker_finish t)) s)"
| "rt_step s (Time_passes d) = Inr (on_shared (\<lambda>r. r\<lparr>rt_now := rt_now r + max 0 d\<rparr>) s)"
| "rt_step s (Cancels src) =
     Inr (on_shared (\<lambda>r. r\<lparr>rt_tokens := cancel_source_request_cancel src (rt_tokens r)\<rparr>) s)"

primrec rt_run :: "rt_system \<Rightarrow> rt_event list \<Rightarrow> ub + rt_system" where
  "rt_run s [] = Inr s"
| "rt_run s (e # es) = (case rt_step s e of Inl u \<Rightarrow> Inl u | Inr s' \<Rightarrow> rt_run s' es)"

section \<open>Coroutine code\<close>

text \<open>
  \<open>App_print i\<close> prints as coroutine \<open>i\<close>; \<open>App_stop\<close> is \<open>ctx.stop()\<close>; \<open>App_after\<close> is \<open>timers().after\<close> with
  a printing callback; \<open>App_call\<close> awaits a temporary task and goes on with its outcome; \<open>App_discard\<close>
  calls a coroutine function and drops the task; \<open>App_schedule\<close> is \<open>co_await sched.schedule()\<close>.
  \<open>App_sleep\<close> and \<open>App_submit\<close> are the \<open>co_await awaitable{...}\<close> inside \<open>sleep_for\<close> and \<open>submit\<close>; the
  flag of the latter says that the callable returns \<open>void\<close>. \<open>App_abort\<close> is what a failed \<open>assert\<close> does.
\<close>

datatype app =
    App_return "val option"
  | App_throw exn
  | App_abort
  | App_print nat string app
  | App_stop app
  | App_after duration string app
  | App_call promise_kind app "exn + val option \<Rightarrow> app"
  | App_discard promise_kind app app
  | App_schedule app
  | App_sleep duration cancel_token "exn + unit \<Rightarrow> app"
  | App_submit "exn + val option" bool cancel_token "exn + val option \<Rightarrow> app"

definition sleep_register :: "duration \<Rightarrow> coro \<Rightarrow> rt \<Rightarrow> ub + rt \<times> handle list" where
  "sleep_register d c r =
     (case sleep_await_suspend Wake (rt_now r) d (Some c) (rt_timer r) of
        Inl u \<Rightarrow> Inl u
      | Inr t \<Rightarrow> Inr (r\<lparr>rt_timer := t\<rparr>, []))"

definition submit_register :: "exn + val option \<Rightarrow> cancel_token \<Rightarrow> coro \<Rightarrow> rt \<Rightarrow> ub + rt \<times> handle list" where
  "submit_register fn ct c r =
     Inr (r\<lparr>rt_await := (rt_await r)(c := submit_awaitable_new fn ct),
            rt_pool := submit_await_suspend c c (rt_pool r)\<rparr>, [])"

definition sleep_resumed :: "cancel_token \<Rightarrow> (exn + unit \<Rightarrow> rt body) \<Rightarrow> rt body" where
  "sleep_resumed ct k = Co_do (\<lambda>r. (r, [], k (sleep_await_resume (rt_tokens r) ct)))"

definition submit_resumed :: "bool \<Rightarrow> (exn + val option \<Rightarrow> rt body) \<Rightarrow> coro \<Rightarrow> rt body" where
  "submit_resumed is_void k c =
     Co_do (\<lambda>r. (r, [],
       case submit_await_resume is_void (rt_await r c) of Inl u \<Rightarrow> Co_undefined u | Inr x \<Rightarrow> k x))"

primrec app_body :: "app \<Rightarrow> rt body" where
  "app_body (App_return v) = Co_return v"
| "app_body (App_throw e) = Co_throw e"
| "app_body App_abort = Co_undefined Assertion_failed"
| "app_body (App_print i s p) =
     Co_do (\<lambda>r. (r\<lparr>rt_out := rt_out r @ [(rt_now r, Coroutine i, s)]\<rparr>, [], app_body p))"
| "app_body (App_stop p) = Co_stop (app_body p)"
| "app_body (App_after d s p) =
     Co_do (\<lambda>r.
       case timer_after (rt_now r) d (Say s) cancel_token_default (rt_timer r) of
         Inl u \<Rightarrow> (r, [], Co_undefined u)
       | Inr t \<Rightarrow> (r\<lparr>rt_timer := t\<rparr>, [], app_body p))"
| "app_body (App_call kd q k) =
     Co_call kd (app_body q) [] (\<lambda>h. Co_await h (\<lambda>x. Co_drop h ((app_body \<circ> k) x)))"
| "app_body (App_discard kd q p) = Co_call kd (app_body q) [] (\<lambda>h. Co_drop h (app_body p))"
| "app_body (App_schedule p) = Co_schedule (app_body p)"
| "app_body (App_sleep d ct k) =
     Co_do (\<lambda>r. (r, [],
       if sleep_await_ready d (rt_tokens r) ct then sleep_resumed ct (app_body \<circ> k)
       else Co_await_suspend (sleep_register d) (\<lambda>_. sleep_resumed ct (app_body \<circ> k))))"
| "app_body (App_submit fn is_void ct k) =
     Co_await_suspend (submit_register fn ct) (submit_resumed is_void (app_body \<circ> k))"

text \<open>The coroutines \<open>timer::sleep_for\<close> and \<open>thread_pool::submit\<close>.\<close>

definition sleep_for :: "duration \<Rightarrow> cancel_token \<Rightarrow> app" where
  "sleep_for d ct = App_sleep d ct (\<lambda>x. case x of Inl e \<Rightarrow> App_throw e | Inr _ \<Rightarrow> App_return None)"

definition submit :: "exn + val option \<Rightarrow> bool \<Rightarrow> cancel_token \<Rightarrow> app" where
  "submit fn is_void ct =
     App_submit fn is_void ct (\<lambda>x. case x of Inl e \<Rightarrow> App_throw e | Inr v \<Rightarrow> App_return v)"

text \<open>
  \<open>main()\<close> creates one task per program, posts its handle, and runs the loop. The frame of task \<open>i\<close> is
  number \<open>i\<close>. The services exist, \<open>n\<close> is the number of pool threads asked for, and the sources of \<open>m\<close> have
  been created.
\<close>

definition rt_init :: "nat \<Rightarrow> time_point \<Rightarrow> cancel_store \<Rightarrow> rt" where
  "rt_init n t0 m =
     \<lparr>rt_timer = timer_init, rt_worker = At_top, rt_now = t0, rt_pool = thread_pool_new n,
      rt_jobs = replicate (thread_pool_size (thread_pool_new n :: rt_fn job thread_pool)) None,
      rt_started = (\<lambda>_. False), rt_exited = (\<lambda>_. False),
      rt_await = (\<lambda>_. submit_awaitable_new (Inr None) cancel_token_default),
      rt_tokens = m, rt_out = []\<rparr>"

definition rt_start :: "nat \<Rightarrow> time_point \<Rightarrow> cancel_store \<Rightarrow> app list \<Rightarrow> rt_system" where
  "rt_start n t0 m ps =
     \<lparr>rs_world =
        \<lparr>frames = fmap_of_list (map (\<lambda>i. (i, frame_new Void_promise (app_body (ps ! i)) [])) [0..<length ps]),
         fresh = length ps, cur = None,
         sched = fold (\<lambda>i. io_context_post (Some i)) [0..<length ps] scheduler_init,
         shared = rt_init n t0 m\<rparr>,
      rs_left = False\<rparr>"

section \<open>The same code as a sequential program\<close>

text \<open>What awaiting can yield: a token that belongs to no source is never cancelled.\<close>

definition sleep_outcome :: "cancel_token \<Rightarrow> exn + unit \<Rightarrow> bool" where
  "sleep_outcome ct y \<longleftrightarrow> y = Inr () \<or> y = Inl (System_error cancelled_ec) \<and> token_st ct \<noteq> None"

definition submit_outcome :: "exn + val option \<Rightarrow> cancel_token \<Rightarrow> exn + val option \<Rightarrow> bool" where
  "submit_outcome fn ct y \<longleftrightarrow> y = fn \<or> y = Inl (System_error cancelled_ec) \<and> token_st ct \<noteq> None"

text \<open>The outcomes the code may have.\<close>

primrec outcomes :: "app \<Rightarrow> (exn + val option) set" where
  "outcomes (App_return v) = {Inr v}"
| "outcomes (App_throw e) = {Inl e}"
| "outcomes App_abort = {}"
| "outcomes (App_print i s p) = outcomes p"
| "outcomes (App_stop p) = outcomes p"
| "outcomes (App_after d s p) = outcomes p"
| "outcomes (App_call kd q k) = (\<Union>x \<in> outcomes q. (outcomes \<circ> k) x)"
| "outcomes (App_discard kd q p) = outcomes p"
| "outcomes (App_schedule p) = outcomes p"
| "outcomes (App_sleep d ct k) = (\<Union>x \<in> Collect (sleep_outcome ct). (outcomes \<circ> k) x)"
| "outcomes (App_submit fn is_void ct k) = (\<Union>x \<in> Collect (submit_outcome fn ct). (outcomes \<circ> k) x)"

text \<open>
  \<open>app_wf i kd p\<close>: the code of a coroutine that prints as \<open>i\<close> and has a promise of kind \<open>kd\<close>. It returns
  values of the right type, submits callables of the declared type, and its assertions hold whatever the
  awaited code yields. A discarded task may have any code, since it never runs.
\<close>

definition submit_typed :: "bool \<Rightarrow> exn + val option \<Rightarrow> bool" where
  "submit_typed is_void x = (case x of Inl _ \<Rightarrow> True | Inr v \<Rightarrow> is_void \<longleftrightarrow> v = None)"

primrec app_wf :: "nat \<Rightarrow> promise_kind \<Rightarrow> app \<Rightarrow> bool" where
  "app_wf i kd (App_return v) \<longleftrightarrow> (kd = Value_promise \<and> v \<noteq> None) \<or> (kd = Void_promise \<and> v = None)"
| "app_wf i kd (App_throw e) \<longleftrightarrow> kd \<noteq> Detached_promise"
| "app_wf i kd App_abort \<longleftrightarrow> False"
| "app_wf i kd (App_print j s p) \<longleftrightarrow> j = i \<and> app_wf i kd p"
| "app_wf i kd (App_stop p) \<longleftrightarrow> app_wf i kd p"
| "app_wf i kd (App_after d s p) \<longleftrightarrow> app_wf i kd p"
| "app_wf i kd (App_call kd' q k) \<longleftrightarrow> app_wf i kd' q \<and> (\<forall>x \<in> outcomes q. (app_wf i kd \<circ> k) x)"
| "app_wf i kd (App_discard kd' q p) \<longleftrightarrow> app_wf i kd p"
| "app_wf i kd (App_schedule p) \<longleftrightarrow> app_wf i kd p"
| "app_wf i kd (App_sleep d ct k) \<longleftrightarrow> (\<forall>x \<in> Collect (sleep_outcome ct). (app_wf i kd \<circ> k) x)"
| "app_wf i kd (App_submit fn is_void ct k) \<longleftrightarrow>
     submit_typed is_void fn \<and> (\<forall>x \<in> Collect (submit_outcome fn ct). (app_wf i kd \<circ> k) x)"

text \<open>The programs of \<open>main()\<close>, and that all of them have ended.\<close>

definition apps_wf :: "app list \<Rightarrow> bool" where
  "apps_wf ps \<longleftrightarrow> (\<forall>i < length ps. app_wf i Void_promise (ps ! i))"

definition programs_ended :: "app list \<Rightarrow> rt_system \<Rightarrow> bool" where
  "programs_ended ps s \<longleftrightarrow>
     list_all (\<lambda>i. case fmlookup (frames (rs_world s)) i of Some f \<Rightarrow> frame_done f | None \<Rightarrow> False) [0..<length ps]"

text \<open>
  \<open>app_big p t ls x t'\<close>: started at time \<open>t\<close>, the code may write the lines \<open>ls\<close>, end at time \<open>t'\<close> and
  yield \<open>x\<close>. Time passes freely, but a sleep that is not cancelled takes at least its duration.
\<close>

inductive app_big ::
  "app \<Rightarrow> time_point \<Rightarrow> line list \<Rightarrow> exn + val option \<Rightarrow> time_point \<Rightarrow> bool" where
  big_return: "t \<le> t' \<Longrightarrow> app_big (App_return v) t [] (Inr v) t'"
| big_throw: "t \<le> t' \<Longrightarrow> app_big (App_throw e) t [] (Inl e) t'"
| big_print: "t \<le> t1 \<Longrightarrow> app_big p t1 ls x t' \<Longrightarrow> app_big (App_print i s p) t ((t1, Coroutine i, s) # ls) x t'"
| big_stop: "app_big p t ls x t' \<Longrightarrow> app_big (App_stop p) t ls x t'"
| big_after: "app_big p t ls x t' \<Longrightarrow> app_big (App_after d s p) t ls x t'"
| big_call: "app_big q t ls y t1 \<Longrightarrow> app_big (k y) t1 ls' x t' \<Longrightarrow> app_big (App_call kd q k) t (ls @ ls') x t'"
| big_discard: "app_big p t ls x t' \<Longrightarrow> app_big (App_discard kd q p) t ls x t'"
| big_schedule: "app_big p t ls x t' \<Longrightarrow> app_big (App_schedule p) t ls x t'"
| big_sleep: "sleep_outcome ct y \<Longrightarrow> t \<le> t1 \<Longrightarrow> (y = Inr () \<Longrightarrow> t + d \<le> t1) \<Longrightarrow> app_big (k y) t1 ls x t' \<Longrightarrow>
    app_big (App_sleep d ct k) t ls x t'"
| big_submit: "submit_outcome fn ct y \<Longrightarrow> t \<le> t1 \<Longrightarrow> app_big (k y) t1 ls x t' \<Longrightarrow>
    app_big (App_submit fn is_void ct k) t ls x t'"

inductive_cases big_returnE [elim!]: "app_big (App_return v) t ls x t'"
inductive_cases big_throwE [elim!]: "app_big (App_throw e) t ls x t'"
inductive_cases big_printE [elim!]: "app_big (App_print i s p) t ls x t'"
inductive_cases big_stopE [elim!]: "app_big (App_stop p) t ls x t'"
inductive_cases big_afterE [elim!]: "app_big (App_after d s p) t ls x t'"
inductive_cases big_callE [elim!]: "app_big (App_call kd q k) t ls x t'"
inductive_cases big_discardE [elim!]: "app_big (App_discard kd q p) t ls x t'"
inductive_cases big_scheduleE [elim!]: "app_big (App_schedule p) t ls x t'"
inductive_cases big_sleepE [elim!]: "app_big (App_sleep d ct k) t ls x t'"
inductive_cases big_submitE [elim!]: "app_big (App_submit fn is_void ct k) t ls x t'"

inductive_simps big_iffs:
  "app_big (App_return v) t ls x t'"
  "app_big (App_print i s p) t ls x t'"
  "app_big (App_stop p) t ls x t'"
  "app_big (App_after d s p) t ls x t'"
  "app_big (App_discard kd q p) t ls x t'"

lemma app_big_earlier: "app_big p t ls x t' \<Longrightarrow> t0 \<le> t \<Longrightarrow> app_big p t0 ls x t'"
proof (induction arbitrary: t0 rule: app_big.induct)
  case (big_sleep ct y t t1 d k ls x t')
  show ?case
  proof (rule app_big.big_sleep [of ct y t0 t1 d k ls x t'])
    show "y = Inr () \<Longrightarrow> t0 + d \<le> t1" using big_sleep.hyps(3) big_sleep.prems by simp
  qed (use big_sleep in auto)
next
  case (big_submit fn ct y t t1 k ls x t' is_void)
  show ?case by (rule app_big.big_submit [of fn ct y t0 t1]) (use big_submit in auto)
qed (force intro: app_big.intros)+

lemma app_big_time: "app_big p t ls x t' \<Longrightarrow> t \<le> t'"
  by (induction rule: app_big.induct) auto

lemma app_wf_outcomes: "app_wf i kd p \<Longrightarrow> x \<in> outcomes p \<Longrightarrow> outcome_typed kd x"
proof (induction p arbitrary: kd)
  case (App_call kd' q k)
  then obtain y where y: "y \<in> outcomes q" "x \<in> outcomes (k y)" by auto
  with App_call.prems(1) have "app_wf i kd (k y)" by simp
  from App_call.IH(2) [OF rangeI this y(2)] show ?case .
qed (auto simp: outcome_typed_def [of _ "Inl _"] outcome_typed_def [of _ "Inr _"])

lemma outcomes_exist: "app_wf i kd p \<Longrightarrow> outcomes p \<noteq> {}"
proof (induction p arbitrary: kd)
  case (App_call kd' q k)
  then obtain x where "x \<in> outcomes q" by fastforce
  with App_call show ?case by fastforce
next
  case (App_sleep d ct k)
  have "sleep_outcome ct (Inr ())" by (simp add: sleep_outcome_def)
  with App_sleep show ?case by fastforce
next
  case (App_submit fn is_void ct k)
  have "submit_outcome fn ct fn" by (simp add: submit_outcome_def)
  with App_submit show ?case by fastforce
qed auto

lemma app_wf_kind:
  assumes "app_wf i kd p"
  shows "kd \<noteq> Detached_promise"
proof -
  obtain x where "x \<in> outcomes p" using outcomes_exist [OF assms] by blast
  from app_wf_outcomes [OF assms this] show ?thesis by (auto simp: outcome_typed_def split: sum.splits)
qed

text \<open>A token that belongs to no source.\<close>

lemma default_outcomes [simp]:
  "sleep_outcome cancel_token_default y \<longleftrightarrow> y = Inr ()" "submit_outcome fn cancel_token_default z \<longleftrightarrow> z = fn"
  by (auto simp: sleep_outcome_def submit_outcome_def cancel_token_default_def)

lemma app_big_outcomes: "app_big p t ls x t' \<Longrightarrow> x \<in> outcomes p"
  by (induction rule: app_big.induct) auto

end
