(* ===== verification/Async_Threads.thy ===== *)
theory Async_Threads
  imports Async_Runtime
begin

text \<open>
  The invariant of the running program. A state of the runtime is described by its coroutine threads: a
  chain of frames each awaiting the next, with the innermost one executing, queued, or registered with
  exactly one service. This theory shows that the steps of the timer thread, of the pool workers, of the
  clock and of cancellations keep it, and defines the order in which threads advance.
\<close>

section \<open>Coroutine threads\<close>

text \<open>Where the innermost frame of a chain stands: in its code, or inside an awaitable.\<close>

datatype phase =
    At app
  | Sleep_suspend duration cancel_token "exn + unit \<Rightarrow> app"
  | Sleep_resume time_point cancel_token "exn + unit \<Rightarrow> app"
  | Submit_resume "exn + val option" bool cancel_token "exn + val option \<Rightarrow> app"
  | Overflow

fun phase_body :: "coro \<Rightarrow> phase \<Rightarrow> rt body" where
  "phase_body c (At p) = app_body p"
| "phase_body c (Sleep_suspend d ct k) =
     Co_await_suspend (sleep_register d) (\<lambda>_. sleep_resumed ct (app_body \<circ> k))"
| "phase_body c (Sleep_resume dl ct k) = sleep_resumed ct (app_body \<circ> k)"
| "phase_body c (Submit_resume fn is_void ct k) = submit_resumed is_void (app_body \<circ> k) c"
| "phase_body c Overflow = Co_undefined Signed_overflow"

fun phase_outcomes :: "phase \<Rightarrow> (exn + val option) set" where
  "phase_outcomes (At p) = outcomes p"
| "phase_outcomes (Sleep_suspend d ct k) = (\<Union>x \<in> Collect (sleep_outcome ct). outcomes (k x))"
| "phase_outcomes (Sleep_resume dl ct k) = (\<Union>x \<in> Collect (sleep_outcome ct). outcomes (k x))"
| "phase_outcomes (Submit_resume fn is_void ct k) = (\<Union>x \<in> Collect (submit_outcome fn ct). outcomes (k x))"
| "phase_outcomes Overflow = {}"

fun phase_wf :: "nat \<Rightarrow> promise_kind \<Rightarrow> phase \<Rightarrow> bool" where
  "phase_wf i kd (At p) \<longleftrightarrow> app_wf i kd p"
| "phase_wf i kd (Sleep_suspend d ct k) \<longleftrightarrow> (\<forall>x. sleep_outcome ct x \<longrightarrow> app_wf i kd (k x))"
| "phase_wf i kd (Sleep_resume dl ct k) \<longleftrightarrow> (\<forall>x. sleep_outcome ct x \<longrightarrow> app_wf i kd (k x))"
| "phase_wf i kd (Submit_resume fn is_void ct k) \<longleftrightarrow>
     submit_typed is_void fn \<and> (\<forall>x. submit_outcome fn ct x \<longrightarrow> app_wf i kd (k x))"
| "phase_wf i kd Overflow \<longleftrightarrow> kd \<noteq> Detached_promise"

type_synonym big = "time_point \<Rightarrow> line list \<Rightarrow> exn + val option \<Rightarrow> time_point \<Rightarrow> bool"

fun phase_big :: "phase \<Rightarrow> big" where
  "phase_big (At p) t ls x t' \<longleftrightarrow> app_big p t ls x t'"
| "phase_big (Sleep_suspend d ct k) t ls x t' \<longleftrightarrow> app_big (App_sleep d ct k) t ls x t'"
| "phase_big (Sleep_resume dl ct k) t ls x t' \<longleftrightarrow>
     (\<exists>y t1. sleep_outcome ct y \<and> t \<le> t1 \<and> (y = Inr () \<longrightarrow> dl \<le> t1) \<and> app_big (k y) t1 ls x t')"
| "phase_big (Submit_resume fn is_void ct k) t ls x t' \<longleftrightarrow>
     (\<exists>y t1. submit_outcome fn ct y \<and> t \<le> t1 \<and> app_big (k y) t1 ls x t')"
| "phase_big Overflow t ls x t' \<longleftrightarrow> False"

text \<open>A waiting frame: its name, the kind of its promise, and how it goes on.\<close>

type_synonym stack = "(coro \<times> promise_kind \<times> (exn + val option \<Rightarrow> app)) list"

fun stack_big :: "stack \<Rightarrow> big \<Rightarrow> big" where
  "stack_big [] R t ls x t' \<longleftrightarrow> R t ls x t'"
| "stack_big (e # st) R t ls x t' \<longleftrightarrow>
     stack_big st (\<lambda>t ls x t'. \<exists>ls1 y t1 ls2. R t ls1 y t1 \<and> app_big (snd (snd e) y) t1 ls2 x t' \<and> ls = ls1 @ ls2)
       t ls x t'"

text \<open>\<open>X\<close>: the outcomes of the frame the innermost stack entry waits for.\<close>

fun stack_wf :: "nat \<Rightarrow> (exn + val option) set \<Rightarrow> stack \<Rightarrow> bool" where
  "stack_wf i X [] \<longleftrightarrow> True"
| "stack_wf i X ((c, kd, k) # st) \<longleftrightarrow>
     (\<forall>x \<in> X. app_wf i kd (k x)) \<and> stack_wf i (\<Union>x \<in> X. outcomes (k x)) st"

record thread =
  r_id :: nat
  r_prog :: app
  r_stack :: stack
  r_top :: coro
  r_kind :: promise_kind
  r_phase :: phase

datatype status =
    Running
  | Calling coro
  | Dropping coro "rt frame"
  | Queued bool
  | Sleeping
  | Waking
  | Submitted
  | Ended "exn + val option"

type_synonym unit_of = "thread \<times> status"

abbreviation top_of :: "unit_of \<Rightarrow> coro" where
  "top_of u \<equiv> r_top (fst u)"

definition cont_of :: "stack \<Rightarrow> handle" where
  "cont_of st = (case st of [] \<Rightarrow> None | e # _ \<Rightarrow> Some (fst e))"

definition chain_frame :: "promise_kind \<Rightarrow> stack \<Rightarrow> rt point \<Rightarrow> handle list \<Rightarrow> rt frame" where
  "chain_frame kd st pt ow = \<lparr>prom = (promise_new kd)\<lparr>continuation := cont_of st\<rparr>, point = pt, owned = ow\<rparr>"

abbreviation awaits :: "coro \<Rightarrow> (exn + val option \<Rightarrow> app) \<Rightarrow> exn + val option \<Rightarrow> rt body" where
  "awaits d k \<equiv> \<lambda>x. Co_drop (Some d) ((app_body \<circ> k) x)"

fun stack_frames :: "coro \<Rightarrow> stack \<Rightarrow> (coro \<times> rt frame) list" where
  "stack_frames d [] = []"
| "stack_frames d ((c, kd, k) # st) =
     (c, chain_frame kd st (Awaiting (Some d) (awaits d k)) [Some d]) # stack_frames c st"

fun top_frames :: "thread \<Rightarrow> status \<Rightarrow> (coro \<times> rt frame) list" where
  "top_frames r Running = [(r_top r, chain_frame (r_kind r) (r_stack r) Executing [])]"
| "top_frames r (Calling d) =
     [(r_top r, chain_frame (r_kind r) (r_stack r) Executing [Some d]),
      (d, case r_phase r of
            At (App_call kd q k) \<Rightarrow> frame_new kd (app_body q) [] | _ \<Rightarrow> frame_new Void_promise (Co_return None) [])]"
| "top_frames r (Dropping d g) = [(r_top r, chain_frame (r_kind r) (r_stack r) Executing [Some d]), (d, g)]"
| "top_frames r (Queued new) =
     [(r_top r, chain_frame (r_kind r) (r_stack r)
        ((if new then At_start else Parked) (phase_body (r_top r) (r_phase r))) [])]"
| "top_frames r (Ended x) =
     [(r_top r, \<lparr>prom = promise_complete x (promise_new (r_kind r)), point = At_end, owned = []\<rparr>)]"
| "top_frames r _ =
     [(r_top r, chain_frame (r_kind r) (r_stack r) (Parked (phase_body (r_top r) (r_phase r))) [])]"

definition unit_frames :: "unit_of \<Rightarrow> (coro \<times> rt frame) list" where
  "unit_frames u = top_frames (fst u) (snd u) @ stack_frames (r_top (fst u)) (r_stack (fst u))"

section \<open>The invariant\<close>

text \<open>The heap is exactly the frames of the threads.\<close>

definition heap_is :: "rt heap \<Rightarrow> unit_of list \<Rightarrow> bool" where
  "heap_is fs us \<longleftrightarrow>
     fmlookup fs = map_of (concat (map unit_frames us)) \<and>
     distinct (map fst (concat (map unit_frames us)))"

fun executing :: "status \<Rightarrow> bool" where
  "executing Running = True"
| "executing (Calling _) = True"
| "executing (Dropping _ _) = True"
| "executing _ = False"

fun unit_body :: "unit_of \<Rightarrow> rt body" where
  "unit_body (r, Calling d) =
     (case r_phase r of At (App_call kd q k) \<Rightarrow> Co_await (Some d) (awaits d k) | _ \<Rightarrow> Co_return None)"
| "unit_body (r, Dropping d g) = Co_drop (Some d) (phase_body (r_top r) (r_phase r))"
| "unit_body (r, _) = phase_body (r_top r) (r_phase r)"

definition units :: "(status \<Rightarrow> bool) \<Rightarrow> (unit_of \<Rightarrow> 'a) \<Rightarrow> unit_of list \<Rightarrow> 'a multiset" where
  "units P f us = mset (map f (filter (\<lambda>u. P (snd u)) us))"

definition deadline :: "unit_of \<Rightarrow> time_point" where
  "deadline u = (case r_phase (fst u) of Sleep_resume dl ct k \<Rightarrow> dl | _ \<Rightarrow> 0)"

definition wake_of :: "rt_fn \<Rightarrow> handle list" where
  "wake_of f = (case f of Wake h \<Rightarrow> [h] | Say _ \<Rightarrow> [])"

definition entry_wake :: "rt_fn entry \<Rightarrow> (handle \<times> time_point) list" where
  "entry_wake e = (case entry_job e of Some (Wake h) \<Rightarrow> [(h, entry_when e)] | _ \<Rightarrow> [])"

text \<open>The awaitable of a submitted job until it is finished: untouched, or the worker has read the token.\<close>

definition submit_begun :: "exn + val option \<Rightarrow> cancel_token \<Rightarrow> submit_awaitable \<Rightarrow> bool" where
  "submit_begun fn ct aw \<longleftrightarrow> aw = submit_awaitable_new fn ct \<or> (\<exists>m. aw = submit_start m (submit_awaitable_new fn ct))"

text \<open>What a resumed frame finds.\<close>

fun phase_ready :: "rt \<Rightarrow> coro \<Rightarrow> phase \<Rightarrow> bool" where
  "phase_ready r c (Sleep_resume dl ct k) \<longleftrightarrow> dl \<le> rt_now r \<or> cancel_token_is_cancelled (rt_tokens r) ct"
| "phase_ready r c (Submit_resume fn is_void ct k) \<longleftrightarrow>
     (\<exists>aw. submit_begun fn ct aw \<and> rt_await r c = submit_finish aw)"
| "phase_ready r c _ \<longleftrightarrow> True"

fun status_ok :: "rt \<Rightarrow> thread \<Rightarrow> status \<Rightarrow> bool" where
  "status_ok r th Running \<longleftrightarrow> phase_ready r (r_top th) (r_phase th)"
| "status_ok r th (Calling d) \<longleftrightarrow> (\<exists>kd q k. r_phase th = At (App_call kd q k))"
| "status_ok r th (Dropping d g) \<longleftrightarrow> (\<exists>p. r_phase th = At p) \<and> \<not> frame_executing g \<and> owned g = []"
| "status_ok r th (Queued _) \<longleftrightarrow> phase_ready r (r_top th) (r_phase th)"
| "status_ok r th Sleeping \<longleftrightarrow> (\<exists>dl ct k. r_phase th = Sleep_resume dl ct k)"
| "status_ok r th Waking \<longleftrightarrow> (\<exists>dl ct k. r_phase th = Sleep_resume dl ct k \<and> dl \<le> rt_now r)"
| "status_ok r th Submitted \<longleftrightarrow>
     (\<exists>fn v ct k. r_phase th = Submit_resume fn v ct k \<and> submit_begun fn ct (rt_await r (r_top th)))"
| "status_ok r th (Ended x) \<longleftrightarrow>
     r_stack th = [] \<and> r_phase th = At (case x of Inl e \<Rightarrow> App_throw e | Inr v \<Rightarrow> App_return v)"

definition own_lines :: "nat \<Rightarrow> line list \<Rightarrow> line list" where
  "own_lines i ls = filter (\<lambda>l. fst (snd l) = Coroutine i) ls"

definition thread_spec :: "time_point \<Rightarrow> rt \<Rightarrow> thread \<Rightarrow> bool" where
  "thread_spec t0 r th \<longleftrightarrow>
     (\<forall>ls x t'. stack_big (r_stack th) (phase_big (r_phase th)) (rt_now r) ls x t' \<longrightarrow>
        app_big (r_prog th) t0 (own_lines (r_id th) (rt_out r) @ ls) x t')"

text \<open>The outermost frame.\<close>

definition thread_root :: "thread \<Rightarrow> coro \<times> promise_kind" where
  "thread_root th = last ((r_top th, r_kind th) # map (\<lambda>e. (fst e, fst (snd e))) (r_stack th))"

definition thread_wf :: "thread \<Rightarrow> bool" where
  "thread_wf th \<longleftrightarrow>
     stack_wf (r_id th) (phase_outcomes (r_phase th)) (r_stack th) \<and> phase_wf (r_id th) (r_kind th) (r_phase th) \<and>
     thread_root th = (r_id th, Void_promise)"

definition unit_ok :: "time_point \<Rightarrow> rt \<Rightarrow> unit_of \<Rightarrow> bool" where
  "unit_ok t0 r u \<longleftrightarrow> thread_wf (fst u) \<and> status_ok r (fst u) (snd u) \<and> thread_spec t0 r (fst u)"

fun is_queued :: "status \<Rightarrow> bool" where
  "is_queued (Queued _) = True"
| "is_queued _ = False"

definition timer_ok :: "rt \<Rightarrow> unit_of list \<Rightarrow> bool" where
  "timer_ok r us \<longleftrightarrow>
     mset (concat (map entry_wake (timer_pending (timer_view r)))) =
       units ((=) Sleeping) (\<lambda>u. (Some (top_of u), deadline u)) us \<and>
     (\<forall>e \<in> set (timer_pending (timer_view r)). entry_ct e = cancel_token_default \<and> entry_job e \<noteq> None) \<and>
     due_in_time (timer_view r) \<and> \<not> timer_stopped (rt_timer r) \<and> rt_worker r \<noteq> Left"

definition pool_ok :: "rt \<Rightarrow> unit_of list \<Rightarrow> bool" where
  "pool_ok r us \<longleftrightarrow>
     jobs_inside (pool_view r) = units ((=) Submitted) (\<lambda>u. Some (Await_job (top_of u) (top_of u))) us \<and>
     \<not> pool_stopped (rt_pool r) \<and> rt_jobs r \<noteq> [] \<and> None \<notin> set (pool_q (rt_pool r)) \<and>
     rt_exited r = (\<lambda>_. False)"

definition queues_ok :: "(rt \<Rightarrow> rt \<times> handle list) scheduler \<Rightarrow> unit_of list \<Rightarrow> bool" where
  "queues_ok s us \<longleftrightarrow>
     mset (handle_q s) = units is_queued (\<lambda>u. Some (top_of u)) us \<and>
     (\<exists>fs. fn_q s = map (Some \<circ> rt_call) fs \<and>
        mset (concat (map wake_of fs)) = units ((=) Waking) (\<lambda>u. Some (top_of u)) us)"

definition cur_ok :: "(coro \<times> rt body) option \<Rightarrow> unit_of list \<Rightarrow> bool" where
  "cur_ok cu us \<longleftrightarrow>
     units executing (\<lambda>u. (top_of u, unit_body u)) us = (case cu of None \<Rightarrow> {#} | Some x \<Rightarrow> {#x#})"

definition rt_inv :: "time_point \<Rightarrow> rt world \<Rightarrow> unit_of list \<Rightarrow> bool" where
  "rt_inv t0 w us \<longleftrightarrow>
     heap_is (frames w) us \<and> (\<forall>c \<in> set (map fst (concat (map unit_frames us))). c < fresh w) \<and>
     cur_ok (cur w) us \<and> queues_ok (sched w) us \<and> timer_ok (shared w) us \<and> pool_ok (shared w) us \<and>
     distinct (map (r_id \<circ> fst) us) \<and> (\<forall>u \<in> set us. unit_ok t0 (shared w) u)"

section \<open>Progress\<close>

text \<open>
  What a thread still has to do: the continuations on its stack and its phase. \<open>cfg_step\<close> is how that
  changes; every chain of such steps ends.
\<close>

type_synonym cfg = "(exn + val option \<Rightarrow> app) list \<times> phase"

definition thread_cfg :: "thread \<Rightarrow> cfg" where
  "thread_cfg th = (map (\<lambda>e. snd (snd e)) (r_stack th), r_phase th)"

abbreviation outcome_app :: "exn + val option \<Rightarrow> app" where
  "outcome_app x \<equiv> (case x of Inl e \<Rightarrow> App_throw e | Inr v \<Rightarrow> App_return v)"

inductive cfg_step :: "cfg \<Rightarrow> cfg \<Rightarrow> bool" where
  cfg_print: "cfg_step (ks, At (App_print i s p)) (ks, At p)"
| cfg_stop: "cfg_step (ks, At (App_stop p)) (ks, At p)"
| cfg_after: "cfg_step (ks, At (App_after d s p)) (ks, At p)"
| cfg_overflow: "cfg_step (ks, At (App_after d s p)) (ks, Overflow)"
| cfg_call: "cfg_step (ks, At (App_call kd q k)) (k # ks, At q)"
| cfg_outcome: "cfg_step (k # ks, At (outcome_app x)) (ks, At (k x))"
| cfg_discard: "cfg_step (ks, At (App_discard kd q p)) (ks, At p)"
| cfg_schedule: "cfg_step (ks, At (App_schedule p)) (ks, At p)"
| cfg_sleep: "cfg_step (ks, At (App_sleep d ct k)) (ks, Sleep_suspend d ct k)"
| cfg_awake: "cfg_step (ks, At (App_sleep d ct k)) (ks, Sleep_resume dl ct k)"
| cfg_suspend: "cfg_step (ks, Sleep_suspend d ct k) (ks, Sleep_resume dl ct k)"
| cfg_slept: "sleep_outcome ct y \<Longrightarrow> cfg_step (ks, Sleep_resume dl ct k) (ks, At (k y))"
| cfg_submit: "cfg_step (ks, At (App_submit fn v ct k)) (ks, Submit_resume fn v ct k)"
| cfg_submitted: "submit_outcome fn ct z \<Longrightarrow> cfg_step (ks, Submit_resume fn v ct k) (ks, At (k z))"

lemmas cfg_steps [simp] =
  cfg_print cfg_stop cfg_after cfg_overflow cfg_call cfg_discard cfg_schedule cfg_sleep cfg_awake cfg_suspend
  cfg_slept cfg_submit cfg_submitted

inductive_cases cfg_atE: "cfg_step (ks, At p) c"
inductive_cases cfg_suspendE: "cfg_step (ks, Sleep_suspend d ct k) c"
inductive_cases cfg_resumeE: "cfg_step (ks, Sleep_resume dl ct k) c"
inductive_cases cfg_submitE: "cfg_step (ks, Submit_resume fn v ct k) c"
inductive_cases cfg_overflowE: "cfg_step (ks, Overflow) c"

fun status_rank :: "status \<Rightarrow> nat" where
  "status_rank (Ended _) = 0"
| "status_rank (Calling _) = 1"
| "status_rank Running = 2"
| "status_rank (Dropping _ _) = 3"
| "status_rank (Queued _) = 4"
| "status_rank Waking = 5"
| "status_rank _ = 6"

definition unit_order :: "(unit_of \<times> unit_of) set" where
  "unit_order =
     inv_image ({(c', c). cfg_step c c'} <*lex*> less_than) (\<lambda>u. (thread_cfg (fst u), status_rank (snd u)))"

definition advance :: "unit_of list \<Rightarrow> unit_of list \<Rightarrow> bool" where
  "advance us' us \<longleftrightarrow> (mset us', mset us) \<in> mult1 unit_order"

abbreviation halts :: "cfg \<Rightarrow> bool" where
  "halts \<equiv> Wellfounded.accp (\<lambda>c' c. cfg_step c c')"

lemma halts_app:
  assumes "\<And>x. halts (ks, At (outcome_app x))"
  shows "halts (ks, At p)"
  using assms
proof (induction p arbitrary: ks)
  case (App_return v)
  from App_return [of "Inr v"] show ?case by simp
next
  case (App_throw e)
  from App_throw [of "Inl e"] show ?case by simp
next
  case (App_call kd q k)
  have *: "halts (ks, At (k y))" for y using App_call.prems by (rule App_call.IH(2) [OF rangeI])
  have "halts (k # ks, At (outcome_app x))" for x
    by (rule accp.accI) (use * in \<open>cases x; auto elim: cfg_atE\<close>)
  then have "halts (k # ks, At q)" by (rule App_call.IH(1))
  then show ?case by - (rule accp.accI, auto elim!: cfg_atE split: sum.splits)
next
  case (App_sleep d ct k)
  have *: "halts (ks, Sleep_resume dl ct k)" for dl
    using App_sleep by - (rule accp.accI, auto elim!: cfg_resumeE)
  then have "halts (ks, Sleep_suspend d ct k)" by - (rule accp.accI, auto elim!: cfg_suspendE)
  with * show ?case by - (rule accp.accI, auto elim!: cfg_atE split: sum.splits)
next
  case (App_submit fn v ct k)
  have "halts (ks, Submit_resume fn v ct k)"
    using App_submit by - (rule accp.accI, auto elim!: cfg_submitE)
  then show ?case by - (rule accp.accI, auto elim!: cfg_atE split: sum.splits)
next
  case (App_after d s p)
  have "halts (ks, Overflow)" by - (rule accp.accI, auto elim!: cfg_overflowE)
  with App_after show ?case by - (rule accp.accI, auto elim!: cfg_atE split: sum.splits)
qed (rule accp.accI, auto elim!: cfg_atE split: sum.splits)+

section \<open>Lemmas on threads\<close>

lemma stack_wf_mono: "stack_wf i X st \<Longrightarrow> X' \<subseteq> X \<Longrightarrow> stack_wf i X' st"
proof (induction st arbitrary: X X')
  case (Cons e st)
  obtain c kd k where e: "e = (c, kd, k)" by (cases e)
  have "(\<Union>x \<in> X'. outcomes (k x)) \<subseteq> (\<Union>x \<in> X. outcomes (k x))" using Cons.prems(2) by blast
  with Cons.IH Cons.prems show ?case unfolding e by auto
qed simp

lemma cfg_step_outcomes: "cfg_step (ks, ph) (ks, ph') \<Longrightarrow> phase_outcomes ph' \<subseteq> phase_outcomes ph"
  by (erule cfg_step.cases) auto

lemma stack_big_step:
  assumes "\<And>ls x t'. R s ls x t' \<Longrightarrow> R' s' (pre @ ls) x t'" "stack_big st R s ls x t'"
  shows "stack_big st R' s' (pre @ ls) x t'"
  using assms
proof (induction st arbitrary: R R' ls x t')
  case (Cons e st)
  show ?case
    unfolding stack_big.simps
    by (rule Cons.IH [OF _ Cons.prems(2) [unfolded stack_big.simps]])
      (use Cons.prems(1) in fastforce)
qed simp

lemma units_simps [simp]:
  "units P f [] = {#}"
  "units P f (u # us) = (if P (snd u) then add_mset (f u) (units P f us) else units P f us)"
  by (auto simp: units_def)

lemma mset_eq_units: "mset us = mset us' \<Longrightarrow> units P f us = units P f us'"
  by (metis units_def mset_filter mset_map)

lemma mset_concat_map: "mset us = mset us' \<Longrightarrow> mset (concat (map g us)) = mset (concat (map g us'))"
proof -
  have *: "mset (concat (map g us)) = \<Sum>\<^sub># (image_mset (mset \<circ> g) (mset us))" for us
    by (induction us) simp_all
  show "mset us = mset us' \<Longrightarrow> ?thesis" by (simp add: *)
qed

lemma map_of_mset_eq:
  "distinct (map fst xs) \<Longrightarrow> mset xs = mset ys \<Longrightarrow> map_of xs = map_of ys"
  by (metis distinct_map map_of_inject_set mset_eq_setD mset_eq_imp_distinct_iff mset_map)

lemma heap_is_mset: "mset us = mset us' \<Longrightarrow> heap_is fs us \<Longrightarrow> heap_is fs us'"
proof -
  assume *: "mset us = mset us'" "heap_is fs us"
  let ?x = "concat (map unit_frames us)" and ?y = "concat (map unit_frames us')"
  have "mset ?x = mset ?y" using mset_concat_map [OF *(1)] .
  moreover from this have "distinct (map fst ?x) = distinct (map fst ?y)"
    by (metis mset_eq_imp_distinct_iff mset_map)
  ultimately show ?thesis using *(2) map_of_mset_eq [of ?x ?y] by (auto simp: heap_is_def)
qed

lemma rt_inv_mset:
  assumes "mset us = mset us'" "rt_inv t0 w us"
  shows "rt_inv t0 w us'"
proof -
  have "set (map fst (concat (map unit_frames us))) = set (map fst (concat (map unit_frames us')))"
    "set us = set us'"
    using mset_concat_map [OF assms(1), of unit_frames] assms(1) by (metis mset_eq_setD mset_map)+
  moreover have "distinct (map (r_id \<circ> fst) us) = distinct (map (r_id \<circ> fst) us')"
    using assms(1) by (metis mset_eq_imp_distinct_iff mset_map)
  ultimately show ?thesis
    using assms(2) heap_is_mset [OF assms(1), of "frames w"]
    unfolding rt_inv_def cur_ok_def queues_ok_def timer_ok_def pool_ok_def mset_eq_units [OF assms(1)]
    by simp
qed

text \<open>The thread concerned can be taken to be the first.\<close>

lemma rt_inv_first:
  assumes "rt_inv t0 w us" "u \<in> set us"
  obtains us' where "mset us = mset (u # us')" "rt_inv t0 w (u # us')"
proof -
  from assms(2) have "mset us = mset (u # remove1 u us)" by simp
  with assms(1) that show ?thesis by (metis rt_inv_mset)
qed

text \<open>Which programs run.\<close>

definition idents :: "unit_of list \<Rightarrow> (nat \<times> app) multiset" where
  "idents us = mset (map (\<lambda>u. (r_id (fst u), r_prog (fst u))) us)"

lemma mset_eq_idents: "mset us = mset us' \<Longrightarrow> idents us = idents us'"
  by (simp add: idents_def)

lemma advanceI:
  "mset us = mset (u # us0) \<Longrightarrow> (u', u) \<in> unit_order \<Longrightarrow> advance (u' # us0) us"
  by (auto simp: advance_def intro!: mult1I [of _ u "mset us0" _ "{#u'#}"])

lemma in_units: "x \<in># units P f us \<longleftrightarrow> (\<exists>u \<in> set us. P (snd u) \<and> x = f u)"
  by (auto simp: units_def)

lemma in_unitsE:
  assumes "x \<in># units P f us"
  obtains u where "u \<in> set us" "P (snd u)" "x = f u"
  using assms unfolding in_units by (elim bexE conjE) (rule that)

lemma phase_big_earlier: "phase_big ph t ls x t' \<Longrightarrow> t0 \<le> t \<Longrightarrow> phase_big ph t0 ls x t'"
proof (cases ph)
  case (Sleep_resume dl ct k)
  assume "phase_big ph t ls x t'" "t0 \<le> t"
  with Sleep_resume show ?thesis by simp (metis order_trans)
next
  case (Submit_resume fn is_void ct k)
  assume "phase_big ph t ls x t'" "t0 \<le> t"
  with Submit_resume show ?thesis by simp (metis order_trans)
qed (simp_all only: phase_big.simps app_big_earlier)

lemma thread_spec_step:
  assumes "thread_spec t0 r th" "r_prog th' = r_prog th" "r_id th' = r_id th"
    and "own_lines (r_id th) (rt_out r') = own_lines (r_id th) (rt_out r) @ pre"
    and "\<And>ls x t'. stack_big (r_stack th') (phase_big (r_phase th')) (rt_now r') ls x t' \<Longrightarrow>
      stack_big (r_stack th) (phase_big (r_phase th)) (rt_now r) (pre @ ls) x t'"
  shows "thread_spec t0 r' th'"
  using assms unfolding thread_spec_def by (metis append.assoc)

lemma thread_spec_cong:
  "rt_now r' = rt_now r \<Longrightarrow> rt_out r' = rt_out r \<Longrightarrow> thread_spec t0 r' th = thread_spec t0 r th"
  by (simp add: thread_spec_def)

text \<open>Steps of others leave a thread alone: time passes, tokens get cancelled, others print.\<close>

definition undisturbed :: "rt \<Rightarrow> rt \<Rightarrow> thread \<Rightarrow> bool" where
  "undisturbed r r' th \<longleftrightarrow>
     rt_now r \<le> rt_now r' \<and> own_lines (r_id th) (rt_out r') = own_lines (r_id th) (rt_out r) \<and>
     (\<forall>ct. cancel_token_is_cancelled (rt_tokens r) ct \<longrightarrow> cancel_token_is_cancelled (rt_tokens r') ct) \<and>
     rt_await r' (r_top th) = rt_await r (r_top th)"

lemma thread_spec_undisturbed:
  assumes "thread_spec t0 r th" "undisturbed r r' th"
  shows "thread_spec t0 r' th"
proof (rule thread_spec_step [OF assms(1), where pre = "[]"])
  fix ls x t'
  assume "stack_big (r_stack th) (phase_big (r_phase th)) (rt_now r') ls x t'"
  then have "stack_big (r_stack th) (phase_big (r_phase th)) (rt_now r) ([] @ ls) x t'"
    by (rule stack_big_step [rotated])
      (use assms(2) in \<open>auto simp: undisturbed_def intro: phase_big_earlier\<close>)
  then show "stack_big (r_stack th) (phase_big (r_phase th)) (rt_now r) ([] @ ls) x t'" .
qed (use assms(2) in \<open>simp_all add: undisturbed_def\<close>)

lemma phase_ready_undisturbed:
  "phase_ready r (r_top th) ph \<Longrightarrow> undisturbed r r' th \<Longrightarrow> phase_ready r' (r_top th) ph"
  by (cases ph) (auto simp: undisturbed_def)

lemma unit_ok_undisturbed:
  assumes "unit_ok t0 r u" "undisturbed r r' (fst u)"
  shows "unit_ok t0 r' u"
proof -
  have "status_ok r' (fst u) (snd u)"
    using assms phase_ready_undisturbed [of r "fst u" "r_phase (fst u)" r']
    by (cases "snd u") (auto simp: unit_ok_def undisturbed_def)
  with assms thread_spec_undisturbed [of t0 r "fst u" r'] show ?thesis by (simp add: unit_ok_def)
qed

lemma rt_inv_parts:
  assumes "rt_inv t0 w us"
  shows "heap_is (frames w) us" "cur_ok (cur w) us" "queues_ok (sched w) us" "timer_ok (shared w) us"
    "pool_ok (shared w) us" "distinct (map (r_id \<circ> fst) us)" "\<And>u. u \<in> set us \<Longrightarrow> unit_ok t0 (shared w) u"
    "\<And>u c. u \<in> set us \<Longrightarrow> c \<in> fst ` set (unit_frames u) \<Longrightarrow> c < fresh w"
  using assms by (auto simp: rt_inv_def)

lemma rt_inv_update:
  assumes "rt_inv t0 w (u # us)" "r_id (fst u') = r_id (fst u)"
    and "heap_is (frames w') (u' # us)" "\<forall>c \<in> fst ` set (unit_frames u'). c < fresh w'" "fresh w \<le> fresh w'"
    and "cur_ok (cur w') (u' # us)" "queues_ok (sched w') (u' # us)" "timer_ok (shared w') (u' # us)"
    and "pool_ok (shared w') (u' # us)" "unit_ok t0 (shared w') u'"
    and "\<And>v. v \<in> set us \<Longrightarrow> undisturbed (shared w) (shared w') (fst v)"
  shows "rt_inv t0 w' (u' # us)"
proof -
  have "unit_ok t0 (shared w') v" if "v \<in> set us" for v
    using that assms(1) by (intro unit_ok_undisturbed [OF _ assms(11)]) (auto simp: rt_inv_def)
  moreover have "fst c < fresh w'" if "v \<in> set us" "c \<in> set (unit_frames v)" for v c
    using rt_inv_parts(8) [OF assms(1), of v "fst c"] that assms(5) by auto
  ultimately show ?thesis
    using assms(1-4,6-10) by (auto simp: rt_inv_def)
qed

lemma top_in_frames: "top_of u \<in> fst ` set (unit_frames u)"
  by (cases "snd u") (auto simp: unit_frames_def)

lemma tops_distinct:
  assumes "distinct (map fst (concat (map unit_frames (u # us))))" "v \<in> set us"
  shows "top_of v \<noteq> top_of u"
proof -
  from assms have "fst ` set (unit_frames u) \<inter> fst ` set (unit_frames v) = {}" by auto
  with top_in_frames [of u] top_in_frames [of v] show ?thesis by (metis disjoint_iff)
qed

lemma tops_differ: "heap_is fs (u # us) \<Longrightarrow> v \<in> set us \<Longrightarrow> top_of v \<noteq> top_of u"
  by (rule tops_distinct) (simp_all only: heap_is_def)

section \<open>Steps of the services\<close>

lemma timer_view_simps [simp]:
  "timer_pending (timer_view r) = held (rt_worker r) @ timer_q (rt_timer r)"
  "due_in_time (timer_view r) \<longleftrightarrow>
     (\<forall>e. rt_worker r = Due e \<or> rt_worker r = Posting e \<longrightarrow> entry_when e \<le> rt_now r)"
  by (auto simp: timer_pending_def due_in_time_def timer_view_def split: timer_pc.splits)

lemma jobs_inside_view [simp]: "jobs_inside (pool_view r) = present (pool_q (rt_pool r)) + present (rt_jobs r)"
  by (simp add: jobs_inside_def pool_view_def)

lemma rt_inv_env:
  assumes "rt_inv t0 w us" "timer_ok r' us" "pool_ok r' us" "\<And>th. undisturbed (shared w) r' th"
  shows "rt_inv t0 (w\<lparr>shared := r'\<rparr>) us"
  using assms(1-3) unit_ok_undisturbed [OF _ assms(4)] by (simp add: rt_inv_def)

lemma time_passes_inv:
  assumes "rt_inv t0 w us"
  shows "rt_inv t0 (w\<lparr>shared := (shared w)\<lparr>rt_now := rt_now (shared w) + max 0 d\<rparr>\<rparr>) us"
  by (rule rt_inv_env [OF assms]; use rt_inv_parts [OF assms] in
      \<open>auto simp: timer_ok_def pool_ok_def undisturbed_def\<close>)

lemma cancels_inv:
  assumes "rt_inv t0 w us"
  shows "rt_inv t0
    (w\<lparr>shared := (shared w)\<lparr>rt_tokens := cancel_source_request_cancel src (rt_tokens (shared w))\<rparr>\<rparr>) us"
  by (rule rt_inv_env [OF assms]; use rt_inv_parts [OF assms] in
      \<open>simp add: timer_ok_def pool_ok_def undisturbed_def request_cancel_token\<close>)

text \<open>A frame that is parked at one place goes to the next one on its way back.\<close>

lemma parked_frames:
  "unit_frames (th, Sleeping) = unit_frames (th, Queued False)"
  "unit_frames (th, Submitted) = unit_frames (th, Queued False)"
  "unit_frames (th, Waking) = unit_frames (th, Queued False)"
  by (simp_all add: unit_frames_def)

lemma moves_place:
  assumes inv: "rt_inv t0 w us" and u: "u \<in> set us" "snd u \<in> {Sleeping, Waking, Submitted}"
    and st: "st \<in> {Waking, Queued False}" "status_rank st < status_rank (snd u)"
    and same: "rt_now r' = rt_now (shared w)" "rt_tokens r' = rt_tokens (shared w)" "rt_out r' = rt_out (shared w)"
    and await: "\<And>c. c \<noteq> top_of u \<Longrightarrow> rt_await r' c = rt_await (shared w) c"
    and ok: "status_ok r' (fst u) st"
    and services: "\<And>us'. mset us = mset (u # us') \<Longrightarrow>
      timer_ok r' ((fst u, st) # us') \<and> pool_ok r' ((fst u, st) # us') \<and> queues_ok s' ((fst u, st) # us')"
  obtains us' where "rt_inv t0 (w\<lparr>shared := r', sched := s'\<rparr>) us'" "idents us' = idents us" "advance us' us"
proof -
  obtain us' where us': "mset us = mset (u # us')" and inv': "rt_inv t0 w (u # us')"
    using rt_inv_first [OF inv u(1)] .
  let ?u = "(fst u, st)" let ?w = "w\<lparr>shared := r', sched := s'\<rparr>"
  have frames: "unit_frames u = unit_frames ?u" using u(2) st(1) by (cases u) (auto simp: parked_frames)
  have "rt_inv t0 ?w (?u # us')"
  proof (rule rt_inv_update [OF inv'])
    have "thread_spec t0 r' (fst u)"
      using rt_inv_parts(7) [OF inv', of u] same by (subst thread_spec_cong [of _ "shared w"]) (simp_all add: unit_ok_def)
    with rt_inv_parts(7) [OF inv', of u] ok show "unit_ok t0 (shared ?w) ?u" by (simp add: unit_ok_def)
    show "undisturbed (shared w) (shared ?w) (fst x)" if "x \<in> set us'" for x
      using tops_differ [OF rt_inv_parts(1) [OF inv'] that] same await by (simp add: undisturbed_def)
    show "\<forall>c \<in> fst ` set (unit_frames ?u). c < fresh ?w"
      using rt_inv_parts(8) [OF inv', of u] frames by simp
    show "cur_ok (cur ?w) (?u # us')" using rt_inv_parts(2) [OF inv'] u(2) st(1) by (auto simp: cur_ok_def)
  qed (use rt_inv_parts(1) [OF inv'] frames services [OF us'] in \<open>simp_all add: heap_is_def\<close>)
  moreover have "idents (?u # us') = idents us" using mset_eq_idents [OF us'] by (simp add: idents_def)
  moreover have "advance (?u # us') us" using st(2) by (intro advanceI [OF us']) (simp add: unit_order_def)
  ultimately show thesis by (rule that)
qed

lemma rt_inv_services:
  assumes "rt_inv t0 w us" "timer_ok r' us" "pool_ok r' us" "queues_ok s' us" "\<And>th. undisturbed (shared w) r' th"
  shows "rt_inv t0 (w\<lparr>shared := r', sched := s'\<rparr>) us"
  using rt_inv_env [OF assms(1-3,5)] assms(4) by (simp add: rt_inv_def)

lemma post_fn_queues [simp]:
  "handle_q (scheduler_post_fn f s) = handle_q s" "fn_q (scheduler_post_fn f s) = fn_q s @ [f]"
  by (simp_all add: scheduler_post_fn_def)

lemma submit_begun_new [simp]: "submit_begun fn ct (submit_awaitable_new fn ct)"
  by (simp add: submit_begun_def)

lemma submit_begun_start: "submit_begun fn ct aw \<Longrightarrow> submit_begun fn ct (submit_start m aw)"
  by (auto simp: submit_begun_def submit_start_def submit_awaitable_new_def)

text \<open>The pool after a step of one of its workers.\<close>

definition pool_updated :: "rt \<Rightarrow> rt_fn pool_system \<Rightarrow> rt" where
  "pool_updated r v =
     r\<lparr>rt_pool := pool v, rt_jobs := running_jobs v, rt_started := job_started v, rt_exited := exited v,
       rt_await := awaitables v\<rparr>"

lemma pool_updated_simps [simp]:
  "rt_pool (pool_updated r v) = pool v" "rt_jobs (pool_updated r v) = running_jobs v"
  "rt_started (pool_updated r v) = job_started v" "rt_exited (pool_updated r v) = exited v"
  "rt_await (pool_updated r v) = awaitables v" "rt_timer (pool_updated r v) = rt_timer r"
  "rt_worker (pool_updated r v) = rt_worker r" "rt_now (pool_updated r v) = rt_now r"
  "rt_tokens (pool_updated r v) = rt_tokens r" "rt_out (pool_updated r v) = rt_out r"
  by (simp_all add: pool_updated_def)

lemma pool_step_keeps:
  fixes r :: rt
  assumes "e \<in> {Worker_take t, Worker_start t, Worker_finish t}"
  defines "v \<equiv> pool_step (pool_view r) e"
  shows "pool_stopped (pool v) = pool_stopped (rt_pool r)" "length (running_jobs v) = length (rt_jobs r)"
    and "None \<notin> set (pool_q (rt_pool r)) \<Longrightarrow> None \<notin> set (pool_q (pool v))"
    and "mset (pool_finishes (pool_view r) e) + (present (pool_q (pool v)) + present (running_jobs v)) =
      jobs_inside (pool_view r)"
    and "\<not> pool_stopped (rt_pool r) \<Longrightarrow> exited v = rt_exited r"
proof -
  show "\<not> pool_stopped (rt_pool r) \<Longrightarrow> exited v = rt_exited r"
    using assms(1) by (auto simp: v_def pool_view_def async_ops split: list.splits)
  show "pool_stopped (pool v) = pool_stopped (rt_pool r)" "length (running_jobs v) = length (rt_jobs r)"
    "None \<notin> set (pool_q (rt_pool r)) \<Longrightarrow> None \<notin> set (pool_q (pool v))"
    using assms(1) by (auto simp: v_def pool_view_def pool_take_def split: list.splits if_splits)
  have "pool_accepts (pool_view r) e = []" using assms(1) by auto
  then show "mset (pool_finishes (pool_view r) e) + (present (pool_q (pool v)) + present (running_jobs v)) =
      jobs_inside (pool_view r)"
    using pool_conserves_jobs [of "pool_view r" e] by (simp add: v_def jobs_inside_def [of "pool_step _ _"])
qed

lemma pool_takes_inv:
  assumes "rt_inv t0 w us"
  shows "rt_inv t0 (rt_pool_step (Worker_take t) w) us"
proof -
  let ?r = "shared w" let ?v = "pool_step (pool_view ?r) (Worker_take t)"
  let ?r' = "pool_updated ?r ?v"
  note keeps = pool_step_keeps [of "Worker_take t" t ?r]
  have same: "awaitables ?v = rt_await ?r" "handle_q (pool_ctx ?v) = []"
    "pool_finishes (pool_view ?r) (Worker_take t) = []"
    by (auto simp: pool_view_def pool_finishes_eq async_ops split: list.splits)
  have "rt_inv t0 (w\<lparr>shared := ?r'\<rparr>) us"
    using rt_inv_parts(4,5) [OF assms] keeps same(1,3)
    by (intro rt_inv_env [OF assms]) (auto simp: timer_ok_def pool_ok_def undisturbed_def simp del: pool_step.simps)
  then show ?thesis unfolding rt_pool_step_def Let_def same(2) post_all_def
    by (simp add: pool_updated_def del: pool_step.simps)
qed

text \<open>A worker that has nothing to start, or nothing it has started to finish.\<close>

lemma pool_idle_inv:
  assumes "rt_inv t0 w us" "pool_step (pool_view (shared w)) e = pool_view (shared w)"
  shows "rt_inv t0 (rt_pool_step e w) us"
proof -
  have "rt_pool_step e w = w" unfolding rt_pool_step_def assms(2) by (simp add: pool_view_def post_all_def Let_def)
  with assms(1) show ?thesis by simp
qed

lemma pool_finishes_idle:
  assumes "rt_inv t0 w us"
    and "\<not> (t < length (rt_jobs (shared w)) \<and> rt_started (shared w) t \<and> rt_jobs (shared w) ! t \<noteq> None)"
  shows "rt_inv t0 (rt_pool_step (Worker_finish t) w) us"
proof (cases "t < length (rt_jobs (shared w)) \<and> rt_started (shared w) t")
  case False
  then show ?thesis by (intro pool_idle_inv [OF assms(1)]) (auto simp: pool_view_def)
next
  case True
  with assms(2) have none: "rt_jobs (shared w) ! t = None" by simp
  let ?r = "shared w" let ?v = "pool_step (pool_view ?r) (Worker_finish t)"
  have same: "awaitables ?v = rt_await ?r" "handle_q (pool_ctx ?v) = []" "pool ?v = rt_pool ?r"
    "running_jobs ?v = rt_jobs ?r" "exited ?v = rt_exited ?r"
    using none by (auto simp: pool_view_def finish_job_def) (metis list_update_id)
  have "rt_inv t0 (w\<lparr>shared := pool_updated ?r ?v\<rparr>) us"
    using rt_inv_parts(4,5) [OF assms(1)] same
    by (intro rt_inv_env [OF assms(1)]) (auto simp: timer_ok_def pool_ok_def undisturbed_def simp del: pool_step.simps)
  then show ?thesis unfolding rt_pool_step_def Let_def same(2) post_all_def
    by (simp add: pool_updated_def del: pool_step.simps)
qed

lemma running_job_unit:
  assumes inv: "rt_inv t0 w us" and job: "t < length (rt_jobs (shared w))" "rt_jobs (shared w) ! t \<noteq> None"
  obtains u where "u \<in> set us" "snd u = Submitted" "rt_jobs (shared w) ! t = Some (Await_job (top_of u) (top_of u))"
proof -
  let ?j = "rt_jobs (shared w) ! t"
  have "?j \<in># jobs_inside (pool_view (shared w))" using job by (simp add: present_def)
  then have "?j \<in># units ((=) Submitted) (\<lambda>u. Some (Await_job (top_of u) (top_of u))) us"
    using rt_inv_parts(5) [OF inv] by (simp only: pool_ok_def)
  then show thesis by (rule in_unitsE) (simp only: that)
qed

lemma pool_starts_inv:
  assumes inv: "rt_inv t0 w us"
  shows "rt_inv t0 (rt_pool_step (Worker_start t) w) us"
proof (cases "t < length (rt_jobs (shared w)) \<and> rt_jobs (shared w) ! t \<noteq> None \<and> \<not> rt_started (shared w) t")
  case False
  then show ?thesis by (intro pool_idle_inv [OF inv]) (auto simp: pool_view_def)
next
  case True
  let ?r = "shared w" let ?v = "pool_step (pool_view ?r) (Worker_start t)" let ?r' = "pool_updated ?r ?v"
  obtain u where u: "u \<in> set us" "snd u = Submitted" "rt_jobs ?r ! t = Some (Await_job (top_of u) (top_of u))"
    using running_job_unit [OF inv] True by blast
  let ?c = "top_of u"
  have v: "awaitables ?v = (rt_await ?r)(?c := submit_start (rt_tokens ?r) (rt_await ?r ?c))"
    "handle_q (pool_ctx ?v) = []" "running_jobs ?v = rt_jobs ?r" "pool ?v = rt_pool ?r"
    "exited ?v = rt_exited ?r"
    using True u(3) by (simp_all add: pool_view_def start_job_def)
  obtain us' where us': "mset us = mset (u # us')" and inv': "rt_inv t0 w (u # us')"
    using rt_inv_first [OF inv u(1)] .
  have "rt_inv t0 (w\<lparr>shared := ?r'\<rparr>) (u # us')"
  proof (rule rt_inv_update [OF inv'])
    have "thread_spec t0 ?r' (fst u)"
      using rt_inv_parts(7) [OF inv', of u] by (subst thread_spec_cong [of _ ?r]) (simp_all add: unit_ok_def)
    with rt_inv_parts(7) [OF inv', of u] u(2) show "unit_ok t0 (shared (w\<lparr>shared := ?r'\<rparr>)) u"
      by (auto simp: unit_ok_def v(1) submit_begun_start simp del: pool_step.simps)
    show "undisturbed (shared w) (shared (w\<lparr>shared := ?r'\<rparr>)) (fst x)" if "x \<in> set us'" for x
      using tops_differ [OF rt_inv_parts(1) [OF inv'] that] by (simp add: undisturbed_def v(1) del: pool_step.simps)
    show "timer_ok (shared (w\<lparr>shared := ?r'\<rparr>)) (u # us')" "pool_ok (shared (w\<lparr>shared := ?r'\<rparr>)) (u # us')"
      using rt_inv_parts(4,5) [OF inv'] v(3-5) by (simp_all add: timer_ok_def pool_ok_def del: pool_step.simps)
    show "\<forall>c \<in> fst ` set (unit_frames u). c < fresh (w\<lparr>shared := ?r'\<rparr>)"
      using rt_inv_parts(8) [OF inv', of u] by simp
  qed (use rt_inv_parts [OF inv'] in simp_all)
  moreover have "rt_pool_step (Worker_start t) w = w\<lparr>shared := ?r'\<rparr>"
    unfolding rt_pool_step_def Let_def v(2) post_all_def by (simp add: pool_updated_def del: pool_step.simps)
  ultimately show ?thesis using us' by (metis rt_inv_mset)
qed

lemma pool_finishes_job:
  assumes inv: "rt_inv t0 w us" and job: "t < length (rt_jobs (shared w))" "rt_jobs (shared w) ! t \<noteq> None"
    and started: "rt_started (shared w) t"
  obtains us' where "rt_inv t0 (rt_pool_step (Worker_finish t) w) us'" "idents us' = idents us" "advance us' us"
proof -
  let ?r = "shared w" let ?v = "pool_step (pool_view ?r) (Worker_finish t)" let ?j = "rt_jobs ?r ! t"
  let ?r' = "pool_updated ?r ?v"
  note keeps = pool_step_keeps [of "Worker_finish t" t ?r]
  have fin: "pool_finishes (pool_view ?r) (Worker_finish t) = [?j]"
    using job started by (simp add: pool_view_def pool_finishes_eq)
  obtain u where u: "u \<in> set us" "snd u = Submitted" "?j = Some (Await_job (top_of u) (top_of u))"
    using running_job_unit [OF inv job] .
  let ?c = "top_of u"
  have v: "awaitables ?v = (rt_await ?r)(?c := submit_finish (rt_await ?r ?c))" "handle_q (pool_ctx ?v) = [Some ?c]"
    using job started u(3) by (simp_all add: pool_view_def finish_job_def async_ops)
  have step: "rt_pool_step (Worker_finish t) w = w\<lparr>shared := ?r', sched := post_all [Some ?c] (sched w)\<rparr>"
    by (simp add: rt_pool_step_def Let_def v(2) pool_updated_def del: pool_step.simps)
  show thesis
  proof (rule moves_place [OF inv u(1), where st = "Queued False" and r' = ?r' and s' = "post_all [Some ?c] (sched w)"])
    show "status_ok ?r' (fst u) (Queued False)"
      using rt_inv_parts(7) [OF inv u(1)] u(2) v(1) by (auto simp: unit_ok_def simp del: pool_step.simps)
    fix us'
    assume us': "mset us = mset (u # us')"
    show "timer_ok ?r' ((fst u, Queued False) # us') \<and> pool_ok ?r' ((fst u, Queued False) # us') \<and>
        queues_ok (post_all [Some ?c] (sched w)) ((fst u, Queued False) # us')"
      using rt_inv_parts(3-5) [OF inv] u(2,3) keeps fin
      by (auto simp: mset_eq_units [OF us'] timer_ok_def pool_ok_def queues_ok_def post_all_def async_ops
          simp del: pool_step.simps)
  qed (use u(2) v(1) that step in \<open>auto simp del: pool_step.simps\<close>)
qed

text \<open>A step of the timer thread either moves entries around or posts the one it found due.\<close>

lemma timer_thread_cases:
  assumes "timer_ok r us"
  defines "v \<equiv> timer_event_step (timer_view r) Worker_step"
  shows "\<not> timer_stopped (tm v) \<and> pc v \<noteq> Left \<and> due_in_time v"
    and "\<And>P. (mset (timer_pending v) = mset (timer_pending (timer_view r)) \<Longrightarrow> fn_q (tctx v) = [] \<Longrightarrow> P) \<Longrightarrow>
      (\<And>e f. add_mset e (mset (timer_pending v)) = mset (timer_pending (timer_view r)) \<Longrightarrow>
        fn_q (tctx v) = [Some f] \<Longrightarrow> entry_job e = Some f \<Longrightarrow> entry_when e \<le> rt_now r \<Longrightarrow> P) \<Longrightarrow> P"
proof -
  let ?v = "timer_view r"
  have live: "\<not> timer_stopped (rt_timer r)" "rt_worker r \<noteq> Left" and due: "due_in_time ?v"
    and entries: "\<forall>e \<in> set (timer_pending ?v). entry_ct e = cancel_token_default \<and> entry_job e \<noteq> None"
    using assms(1) by (simp_all add: timer_ok_def)
  show "\<not> timer_stopped (tm v) \<and> pc v \<noteq> Left \<and> due_in_time v"
    using due_in_time_step [OF due, of Worker_step] live
    by (cases "rt_worker r") (auto simp: v_def timer_view_def split: list.splits option.splits)
  have bag: "mset (timer_retires ?v Worker_step) + mset (timer_pending v) = mset (timer_pending ?v)"
    using timer_conserves [of ?v Worker_step] by (simp add: v_def)
  have fns: "fn_q (tctx v) = map entry_job (timer_posts ?v Worker_step)"
    using timer_step_posts [of ?v Worker_step] by (simp add: v_def timer_view_def)
  fix P
  assume quiet: "mset (timer_pending v) = mset (timer_pending ?v) \<Longrightarrow> fn_q (tctx v) = [] \<Longrightarrow> P"
    and posts: "\<And>e f. add_mset e (mset (timer_pending v)) = mset (timer_pending ?v) \<Longrightarrow>
      fn_q (tctx v) = [Some f] \<Longrightarrow> entry_job e = Some f \<Longrightarrow> entry_when e \<le> rt_now r \<Longrightarrow> P"
  show P
  proof (cases "\<exists>e. rt_worker r = Posting e")
    case True
    then obtain e where e: "rt_worker r = Posting e" by blast
    then obtain f where f: "entry_job e = Some f" "entry_ct e = cancel_token_default"
      using entries by (auto simp: held_def)
    with e live have "timer_retires ?v Worker_step = [e]" "timer_posts ?v Worker_step = [e]"
      by (simp_all add: timer_fates timer_view_def)
    with bag fns f(1) due e show P by (intro posts [of e f]) simp_all
  next
    case False
    have "timer_posts ?v Worker_step = []" using False by (cases "rt_worker r") (simp_all add: timer_posts_eq timer_view_def)
    moreover have "timer_skips ?v Worker_step = []" using entries
      by (cases "rt_worker r") (auto simp: timer_skips_eq timer_view_def timer_pending_def held_def)
    moreover have "timer_drops ?v Worker_step = []" using live by (simp add: timer_drops_eq timer_view_def)
    ultimately have "timer_retires ?v Worker_step = []" "timer_posts ?v Worker_step = []"
      by (simp_all add: timer_retires_def)
    with bag fns show P by (intro quiet) simp_all
  qed
qed

lemma timer_ok_stepped:
  assumes ok: "timer_ok r us"
  defines "v \<equiv> timer_event_step (timer_view r) Worker_step"
  assumes "mset (concat (map entry_wake (timer_pending v))) =
      units ((=) Sleeping) (\<lambda>u. (Some (top_of u), deadline u)) xs"
    and "mset (timer_pending v) \<subseteq># mset (timer_pending (timer_view r))"
  shows "timer_ok (r\<lparr>rt_timer := tm v, rt_worker := pc v\<rparr>) xs"
proof -
  let ?r' = "r\<lparr>rt_timer := tm v, rt_worker := pc v\<rparr>"
  have sub: "set (timer_pending v) \<subseteq> set (timer_pending (timer_view r))"
    using assms(4) by (metis set_mset_mono set_mset_mset)
  have now: "tnow v = rt_now r"
    using tnow_step [of "timer_view r" Worker_step] by (simp add: v_def event_ticks_def timer_view_def)
  have pend: "timer_pending (timer_view ?r') = timer_pending v" by (simp add: timer_pending_def [of v])
  have "due_in_time (timer_view ?r')" "\<not> timer_stopped (rt_timer ?r')" "rt_worker ?r' \<noteq> Left"
    using timer_thread_cases(1) [OF ok, folded v_def] now by (auto simp: due_in_time_def [of v])
  then show ?thesis using ok assms(3) sub unfolding timer_ok_def pend by blast
qed

lemma timer_wakes:
  assumes inv: "rt_inv t0 w us"
  defines "v \<equiv> timer_event_step (timer_view (shared w)) Worker_step"
  assumes fired: "add_mset e (mset (timer_pending v)) = mset (timer_pending (timer_view (shared w)))"
    and job: "entry_job e = Some (Wake h)" and late: "entry_when e \<le> rt_now (shared w)"
  obtains us' where "rt_inv t0 (w\<lparr>shared := (shared w)\<lparr>rt_timer := tm v, rt_worker := pc v\<rparr>,
      sched := scheduler_post_fn (Some (rt_call (Wake h))) (sched w)\<rparr>) us'"
    "idents us' = idents us" "advance us' us"
proof -
  let ?r = "shared w" let ?r' = "?r\<lparr>rt_timer := tm v, rt_worker := pc v\<rparr>"
  let ?s = "scheduler_post_fn (Some (rt_call (Wake h))) (sched w)"
  let ?sleeping = "units ((=) Sleeping) (\<lambda>u. (Some (top_of u), deadline u))"
  note ok = rt_inv_parts(4) [OF inv]
  have wakes: "add_mset (h, entry_when e) (mset (concat (map entry_wake (timer_pending v)))) = ?sleeping us"
    using mset_concat_map [of "e # timer_pending v" "timer_pending (timer_view ?r)" entry_wake] fired ok job
    by (simp add: timer_ok_def entry_wake_def)
  then have "(h, entry_when e) \<in># ?sleeping us" by (metis union_single_eq_member)
  then obtain u where u: "u \<in> set us" "snd u = Sleeping" "h = Some (top_of u)" "entry_when e = deadline u"
    by (rule in_unitsE) (simp add: that)
  obtain fs where fs: "fn_q (sched w) = map (Some \<circ> rt_call) fs"
    "mset (concat (map wake_of fs)) = units ((=) Waking) (\<lambda>u. Some (top_of u)) us"
    using rt_inv_parts(3) [OF inv] by (auto simp: queues_ok_def)
  show thesis
  proof (rule moves_place [OF inv u(1), where st = Waking and r' = ?r' and s' = ?s])
    show "status_ok ?r' (fst u) Waking"
      using rt_inv_parts(7) [OF inv u(1)] u(2,4) late by (auto simp: unit_ok_def deadline_def)
    fix us'
    assume us': "mset us = mset (u # us')"
    note eqs = mset_eq_units [OF us']
    have "mset (timer_pending v) \<subseteq># mset (timer_pending (timer_view ?r))"
      by (metis fired mset_subset_eq_insertD subset_mset.dual_order.refl subset_mset.less_imp_le)
    moreover have "mset (concat (map entry_wake (timer_pending v))) = ?sleeping ((fst u, Waking) # us')"
      using wakes u(2-4) by (simp add: eqs)
    ultimately have "timer_ok ?r' ((fst u, Waking) # us')"
      using timer_ok_stepped [OF ok] unfolding v_def by blast
    moreover have "queues_ok ?s ((fst u, Waking) # us')"
      using rt_inv_parts(3) [OF inv] fs u(2,3) unfolding queues_ok_def
      by (intro conjI exI [of _ "fs @ [Wake h]"]) (simp_all add: wake_of_def eqs)
    ultimately show "timer_ok ?r' ((fst u, Waking) # us') \<and> pool_ok ?r' ((fst u, Waking) # us') \<and>
        queues_ok ?s ((fst u, Waking) # us')"
      using rt_inv_parts(5) [OF inv] u(2) by (simp add: pool_ok_def eqs)
  qed (use u(2) that in simp_all)
qed

lemma timer_thread_inv:
  assumes inv: "rt_inv t0 w us"
  obtains us' where "rt_inv t0 (rt_timer_step w) us'" "idents us' = idents us" "us' = us \<or> advance us' us"
proof -
  let ?r = "shared w" let ?v = "timer_event_step (timer_view ?r) Worker_step"
  let ?r' = "?r\<lparr>rt_timer := tm ?v, rt_worker := pc ?v\<rparr>"
  let ?post = "\<lambda>f. scheduler_post_fn (map_option rt_call f)"
  have step: "rt_timer_step w = w\<lparr>shared := ?r', sched := fold ?post (fn_q (tctx ?v)) (sched w)\<rparr>"
    by (simp add: rt_timer_step_def Let_def)
  note ok = rt_inv_parts(4) [OF inv]
  have stays: "rt_inv t0 (w\<lparr>shared := ?r', sched := s'\<rparr>) us"
    if "mset (concat (map entry_wake (timer_pending ?v))) =
        units ((=) Sleeping) (\<lambda>u. (Some (top_of u), deadline u)) us"
      and "mset (timer_pending ?v) \<subseteq># mset (timer_pending (timer_view ?r))" and "queues_ok s' us" for s'
    using timer_ok_stepped [OF ok that(1,2)] that(3) rt_inv_parts(5) [OF inv]
    by (intro rt_inv_services [OF inv]) (simp_all add: undisturbed_def pool_ok_def)
  show thesis
  proof (rule timer_thread_cases(2) [OF ok])
    assume same: "mset (timer_pending ?v) = mset (timer_pending (timer_view ?r))" and none: "fn_q (tctx ?v) = []"
    from same have "rt_inv t0 (w\<lparr>shared := ?r', sched := sched w\<rparr>) us"
      using ok rt_inv_parts(3) [OF inv] mset_concat_map [OF same, of entry_wake]
      by (intro stays) (simp_all add: timer_ok_def)
    with none that [of us] show thesis unfolding step by simp
  next
    fix e f
    assume fired: "add_mset e (mset (timer_pending ?v)) = mset (timer_pending (timer_view ?r))"
      and fn: "fn_q (tctx ?v) = [Some f]" and job: "entry_job e = Some f" and late: "entry_when e \<le> rt_now ?r"
    show thesis
    proof (cases f)
      case (Wake h)
      show thesis
        by (rule timer_wakes [OF inv fired _ late, of h]) (use job fn Wake that step in simp_all)
    next
      case (Say x)
      obtain fs where fs: "fn_q (sched w) = map (Some \<circ> rt_call) fs"
        "mset (concat (map wake_of fs)) = units ((=) Waking) (\<lambda>u. Some (top_of u)) us"
        using rt_inv_parts(3) [OF inv] by (auto simp: queues_ok_def)
      have "mset (concat (map entry_wake (timer_pending ?v))) =
          units ((=) Sleeping) (\<lambda>u. (Some (top_of u), deadline u)) us"
        using mset_concat_map [of "e # timer_pending ?v" "timer_pending (timer_view ?r)" entry_wake] fired ok job Say
        by (simp add: timer_ok_def entry_wake_def del: timer_event_step.simps)
      moreover have "mset (timer_pending ?v) \<subseteq># mset (timer_pending (timer_view ?r))"
        by (metis fired mset_subset_eq_insertD subset_mset.dual_order.refl subset_mset.less_imp_le)
      moreover have "queues_ok (?post (Some f) (sched w)) us"
        using rt_inv_parts(3) [OF inv] fs unfolding queues_ok_def
        by (intro conjI exI [of _ "fs @ [f]"]) (simp_all add: Say wake_of_def)
      ultimately have "rt_inv t0 (w\<lparr>shared := ?r', sched := ?post (Some f) (sched w)\<rparr>) us" by (rule stays)
      with fn that [of us] show thesis unfolding step by simp
    qed
  qed
qed

end
