(* ===== verification/Async_Refinement.thy ===== *)
theory Async_Refinement
  imports Async_Threads
begin

text \<open>
  The steps of the event loop keep the invariant of \<open>Async_Threads\<close>, and with that all executions of the
  running program: it refines the sequential reading of the coroutine code, has no undefined behaviour
  except the overflow of a deadline, and forgets and leaks no coroutine.
\<close>

section \<open>Steps of the event loop\<close>

definition heap_list :: "rt heap \<Rightarrow> (coro \<times> rt frame) list \<Rightarrow> bool" where
  "heap_list fs L \<longleftrightarrow> fmlookup fs = map_of L \<and> distinct (map fst L)"

lemma heap_is_list: "heap_is fs (u # us) = heap_list fs (unit_frames u @ concat (map unit_frames us))"
  by (simp add: heap_is_def heap_list_def)

lemma heap_list_lookup: "heap_list fs L \<Longrightarrow> (c, f) \<in> set L \<Longrightarrow> fmlookup fs c = Some f"
  by (simp add: heap_list_def)

lemma heap_list_upd: "heap_list fs ((c, f) # L) \<Longrightarrow> heap_list (fmupd c f' fs) ((c, f') # L)"
  by (auto simp: heap_list_def)

lemma heap_list_add: "heap_list fs L \<Longrightarrow> d \<notin> fst ` set L \<Longrightarrow> heap_list (fmupd d g fs) ((d, g) # L)"
  by (auto simp: heap_list_def)

lemma heap_list_drop: "heap_list fs ((d, g) # L) \<Longrightarrow> heap_list (fmdrop d fs) L"
  by (auto simp: heap_list_def fun_eq_iff) (metis map_of_eq_None_iff)

lemma heap_list_swap: "heap_list fs (x # y # L) \<Longrightarrow> heap_list fs (y # x # L)"
  by (auto simp: heap_list_def fun_eq_iff)

lemma running_alone:
  assumes "rt_inv t0 w (u # us)" "executing (snd u)"
  shows "cur w = Some (top_of u, unit_body u)" "units executing (\<lambda>u. (top_of u, unit_body u)) us = {#}"
  using rt_inv_parts(2) [OF assms(1)] assms(2) by (auto simp: cur_ok_def split: option.splits)

lemma phase_step_spec:
  assumes "thread_spec t0 r th"
    and "own_lines (r_id th) (rt_out r') = own_lines (r_id th) (rt_out r) @ pre"
    and "\<And>ls x t'. phase_big ph' (rt_now r') ls x t' \<Longrightarrow> phase_big (r_phase th) (rt_now r) (pre @ ls) x t'"
  shows "thread_spec t0 r' (th\<lparr>r_phase := ph'\<rparr>)"
  using assms(1,2) stack_big_step [of "phase_big ph'" "rt_now r'" "phase_big (r_phase th)" "rt_now r" pre, OF assms(3)]
  by (intro thread_spec_step [OF assms(1), where pre = pre]) simp_all

text \<open>A step in which the executing frame stays the executing one, and only moves on in its code.\<close>

lemma running_step:
  assumes inv: "rt_inv t0 w ((th, Running) # us)"
    and wf: "phase_wf (r_id th) (r_kind th) ph'" and ready: "phase_ready r' (r_top th) ph'"
    and sub: "phase_outcomes ph' \<subseteq> phase_outcomes (r_phase th)"
    and out: "rt_out r' = rt_out (shared w) @ ls" "\<forall>l \<in> set ls. fst (snd l) = Coroutine (r_id th)"
    and same: "rt_now r' = rt_now (shared w)" "rt_tokens r' = rt_tokens (shared w)" "rt_await r' = rt_await (shared w)"
    and big: "\<And>ls' x t'. phase_big ph' (rt_now r') ls' x t' \<Longrightarrow>
      phase_big (r_phase th) (rt_now (shared w)) (ls @ ls') x t'"
    and timer: "timer_ok r' ((th\<lparr>r_phase := ph'\<rparr>, Running) # us)"
    and pool: "rt_pool r' = rt_pool (shared w)" "rt_jobs r' = rt_jobs (shared w) \<and> rt_exited r' = rt_exited (shared w)"
    and queues: "handle_q s' = handle_q (sched w)" "fn_q s' = fn_q (sched w)"
  shows "rt_inv t0 (w\<lparr>shared := r', sched := s', cur := Some (r_top th, phase_body (r_top th) ph')\<rparr>)
    ((th\<lparr>r_phase := ph'\<rparr>, Running) # us)"
proof (rule rt_inv_update [OF inv])
  let ?w = "w\<lparr>shared := r', sched := s', cur := Some (r_top th, phase_body (r_top th) ph')\<rparr>"
  let ?u = "(th\<lparr>r_phase := ph'\<rparr>, Running)"
  have frames: "unit_frames ?u = unit_frames (th, Running)" by (simp add: unit_frames_def)
  show "heap_is (frames ?w) (?u # us)" using rt_inv_parts(1) [OF inv] frames by (simp add: heap_is_def)
  show "\<forall>c \<in> fst ` set (unit_frames ?u). c < fresh ?w" using rt_inv_parts(8) [OF inv, of "(th, Running)"] frames by simp
  show "cur_ok (cur ?w) (?u # us)" using running_alone [OF inv] by (simp add: cur_ok_def)
  show "unit_ok t0 (shared ?w) ?u"
  proof -
    have "thread_spec t0 r' (th\<lparr>r_phase := ph'\<rparr>)"
      using rt_inv_parts(7) [OF inv, of "(th, Running)"] out big
      by (intro phase_step_spec [where r = "shared w" and pre = ls]) (auto simp: unit_ok_def own_lines_def)
    with rt_inv_parts(7) [OF inv, of "(th, Running)"] wf ready stack_wf_mono [OF _ sub] show ?thesis
      by (simp add: unit_ok_def thread_wf_def thread_root_def)
  qed
  show "undisturbed (shared w) (shared ?w) (fst v)" if "v \<in> set us" for v
  proof -
    have "r_id (fst v) \<noteq> r_id th" using rt_inv_parts(6) [OF inv] that by (auto simp: rev_image_eqI)
    with out have "own_lines (r_id (fst v)) ls = []" by (auto simp: own_lines_def filter_empty_conv)
    with out(1) same show ?thesis by (simp add: undisturbed_def own_lines_def)
  qed
qed (use rt_inv_parts(3,5) [OF inv] queues timer pool in \<open>simp_all add: queues_ok_def pool_ok_def\<close>)

text \<open>
  The step of the event loop overflows, or leads to a state of the invariant in which one thread has
  advanced. The jobs the workers are busy with are not its business.
\<close>

definition next_ok :: "time_point \<Rightarrow> rt world \<Rightarrow> unit_of list \<Rightarrow> bool" where
  "next_ok t0 w us =
     (case world_step w of
        Inl u \<Rightarrow> u = Signed_overflow
      | Inr w' \<Rightarrow> rt_jobs (shared w') = rt_jobs (shared w) \<and>
          (\<exists>us'. rt_inv t0 w' us' \<and> idents us' = idents us \<and> advance us' us))"

lemma next_okI:
  assumes "world_step w = Inr w'" "rt_inv t0 w' (u' # us)" "(u', u) \<in> unit_order"
    and "r_id (fst u') = r_id (fst u)" "r_prog (fst u') = r_prog (fst u)" "rt_jobs (shared w') = rt_jobs (shared w)"
  shows "next_ok t0 w (u # us)"
  using assms advanceI [OF refl assms(3), of us]
  by (auto simp: next_ok_def idents_def intro!: exI [of _ "u' # us"])

lemma in_unit_order [simp]:
  "((th', st'), th, st) \<in> unit_order \<longleftrightarrow>
     cfg_step (thread_cfg th) (thread_cfg th') \<or> thread_cfg th' = thread_cfg th \<and> status_rank st' < status_rank st"
  by (simp add: unit_order_def)

declare thread_cfg_def [simp]

lemma next_ok_mset:
  assumes "next_ok t0 w us" "mset us' = mset us"
  shows "next_ok t0 w us'"
  using assms(1) unfolding next_ok_def advance_def mset_eq_idents [OF assms(2)] assms(2) .

lemma current_facts:
  assumes "rt_inv t0 w ((th, Running) # us)"
  shows "cur w = Some (r_top th, phase_body (r_top th) (r_phase th))"
    and "phase_wf (r_id th) (r_kind th) (r_phase th)" "phase_ready (shared w) (r_top th) (r_phase th)"
    and "fmlookup (frames w) (r_top th) = Some (chain_frame (r_kind th) (r_stack th) Executing [])"
    and "\<And>th'. timer_ok (shared w) ((th', Running) # us)"
  using running_alone(1) [OF assms] rt_inv_parts(7) [OF assms, of "(th, Running)"]
    rt_inv_parts(1,4) [OF assms]
  by (simp_all add: unit_ok_def thread_wf_def heap_is_def unit_frames_def timer_ok_def)

text \<open>The phase changes, the shared data at most in the timer and the output.\<close>

lemma moves_on:
  assumes inv: "rt_inv t0 w ((th, Running) # us)"
    and step: "world_step w = Inr (w\<lparr>shared := r', sched := s', cur := Some (r_top th, phase_body (r_top th) ph')\<rparr>)"
    and "phase_wf (r_id th) (r_kind th) ph'" "phase_ready r' (r_top th) ph'"
    and "rt_out r' = rt_out (shared w) @ ls" "\<forall>l \<in> set ls. fst (snd l) = Coroutine (r_id th)"
    and "rt_now r' = rt_now (shared w)" "rt_tokens r' = rt_tokens (shared w)" "rt_await r' = rt_await (shared w)"
    and "\<And>ls' x t'. phase_big ph' (rt_now (shared w)) ls' x t' \<Longrightarrow>
      phase_big (r_phase th) (rt_now (shared w)) (ls @ ls') x t'"
    and "timer_ok r' ((th\<lparr>r_phase := ph'\<rparr>, Running) # us)"
    and "rt_pool r' = rt_pool (shared w)" "rt_jobs r' = rt_jobs (shared w) \<and> rt_exited r' = rt_exited (shared w)"
    and "handle_q s' = handle_q (sched w)" "fn_q s' = fn_q (sched w)" "\<And>ks. cfg_step (ks, r_phase th) (ks, ph')"
  shows "next_ok t0 w ((th, Running) # us)"
  by (rule next_okI [OF step running_step [OF inv assms(3,4) cfg_step_outcomes [OF assms(16)] assms(5-9) _ assms(11-15)]])
    (use assms(7,10,13,16) in simp_all)

lemma step_print:
  assumes "rt_inv t0 w ((th, Running) # us)" "r_phase th = At (App_print i s p)"
  shows "next_ok t0 w ((th, Running) # us)"
  using current_facts [OF assms(1)] assms(2)
  by (intro moves_on [OF assms(1), where ph' = "At p" and ls = "[(rt_now (shared w), Coroutine i, s)]"
        and r' = "(shared w)\<lparr>rt_out := rt_out (shared w) @ [(rt_now (shared w), Coroutine i, s)]\<rparr>"
        and s' = "sched w"])
    (auto simp: world_step_def co_step_def post_all_def timer_ok_def intro: big_print)

lemma step_stop:
  assumes "rt_inv t0 w ((th, Running) # us)" "r_phase th = At (App_stop p)"
  shows "next_ok t0 w ((th, Running) # us)"
  using current_facts [OF assms(1)] assms(2)
  by (intro moves_on [OF assms(1), where ph' = "At p" and ls = "[]" and r' = "shared w"
        and s' = "scheduler_stop (sched w)"])
    (auto simp: world_step_def co_step_def scheduler_stop_def intro: big_stop)

lemma step_sleep:
  assumes "rt_inv t0 w ((th, Running) # us)" "r_phase th = At (App_sleep d ct k)"
  shows "next_ok t0 w ((th, Running) # us)"
proof -
  let ?r = "shared w"
  note cf = current_facts [OF assms(1)]
  have step: "world_step w = Inr (w\<lparr>shared := ?r, sched := sched w,
      cur := Some (r_top th, phase_body (r_top th)
        (if sleep_await_ready d (rt_tokens ?r) ct then Sleep_resume (rt_now ?r + d) ct k else Sleep_suspend d ct k))\<rparr>)"
    using cf(1) assms(2) by (simp add: world_step_def co_step_def post_all_def)
  show ?thesis
    by (rule moves_on [OF assms(1) step, where ls = "[]"])
      (use cf assms(2) in \<open>auto simp: sleep_await_ready_def intro: big_sleep split: if_splits\<close>)
qed

lemma step_sleep_resume:
  assumes "rt_inv t0 w ((th, Running) # us)" "r_phase th = Sleep_resume dl ct k"
  shows "next_ok t0 w ((th, Running) # us)"
proof -
  let ?r = "shared w" let ?y = "sleep_await_resume (rt_tokens ?r) ct"
  note cf = current_facts [OF assms(1)]
  have step: "world_step w = Inr (w\<lparr>shared := ?r, sched := sched w,
      cur := Some (r_top th, phase_body (r_top th) (At (k ?y)))\<rparr>)"
    using cf(1) assms(2) by (simp add: world_step_def co_step_def post_all_def sleep_resumed_def)
  have y: "sleep_outcome ct ?y" "?y = Inr () \<longrightarrow> dl \<le> rt_now ?r"
    using cf(3) assms(2)
    by (auto simp: sleep_await_resume_def sleep_outcome_def cancel_token_is_cancelled_def split: option.splits if_splits)
  show ?thesis
    by (rule moves_on [OF assms(1) step, where ls = "[]"]) (use cf assms(2) y in auto)
qed

lemma submit_resumes:
  assumes "submit_begun fn ct aw" "submit_typed is_void fn"
  obtains y where "submit_await_resume is_void (submit_finish aw) = Inr y" "submit_outcome fn ct y"
proof (cases "aw = submit_awaitable_new fn ct")
  case True
  with assms(2) show thesis
    by (intro that [of fn])
      (auto simp: submit_typed_def submit_finish_def submit_awaitable_new_def submit_await_resume_def submit_outcome_def
        result_store_set_def result_store_take_def split: sum.splits option.splits)
next
  case False
  then obtain m where "aw = submit_start m (submit_awaitable_new fn ct)" using assms(1) by (auto simp: submit_begun_def)
  with False have aw: "aw = (submit_awaitable_new fn ct)\<lparr>sa_ex := Some (System_error cancelled_ec)\<rparr>"
    and "cancel_token_is_cancelled m ct"
    by (auto simp: submit_start_def submit_awaitable_new_def split: if_splits)
  then have "token_st ct \<noteq> None" by (auto simp: cancel_token_is_cancelled_def split: option.splits)
  then show thesis
    by (intro that [of "Inl (System_error cancelled_ec)"])
      (simp_all add: aw submit_finish_def submit_await_resume_def submit_outcome_def)
qed

lemma step_submit_resume:
  assumes "rt_inv t0 w ((th, Running) # us)" "r_phase th = Submit_resume fn is_void ct k"
  shows "next_ok t0 w ((th, Running) # us)"
proof -
  let ?r = "shared w"
  note cf = current_facts [OF assms(1)]
  obtain aw where aw: "submit_begun fn ct aw" "rt_await ?r (r_top th) = submit_finish aw"
    using cf(3) assms(2) by auto
  have typed: "submit_typed is_void fn" using cf(2) assms(2) by simp
  obtain y where y: "submit_await_resume is_void (rt_await ?r (r_top th)) = Inr y" "submit_outcome fn ct y"
    using submit_resumes [OF aw(1) typed] unfolding aw(2) .
  have step: "world_step w = Inr (w\<lparr>shared := ?r, sched := sched w,
      cur := Some (r_top th, phase_body (r_top th) (At (k y)))\<rparr>)"
    using cf(1) assms(2) y(1) by (simp add: world_step_def co_step_def post_all_def submit_resumed_def)
  show ?thesis
    by (rule moves_on [OF assms(1) step, where ls = "[]"])
      (use cf assms(2) y in auto)
qed

text \<open>Scheduling an entry.\<close>

lemma timer_ok_schedule:
  assumes "timer_ok r us"
    and "units ((=) Sleeping) (\<lambda>u. (Some (top_of u), deadline u)) us' =
      mset (case f of Wake h \<Rightarrow> [(h, tp)] | Say _ \<Rightarrow> []) +
      units ((=) Sleeping) (\<lambda>u. (Some (top_of u), deadline u)) us"
    and "r' = r\<lparr>rt_timer := timer_schedule tp (Some f) cancel_token_default (rt_timer r)\<rparr>"
  shows "timer_ok r' us'"
proof -
  let ?e = "\<lparr>entry_when = tp, entry_id = seq (rt_timer r) + 1, entry_ct = cancel_token_default, entry_job = Some f\<rparr>"
  have q: "timer_q (rt_timer r') = multiset_insert ?e (timer_q (rt_timer r))" "\<not> timer_stopped (rt_timer r')"
    "rt_worker r' = rt_worker r" "rt_now r' = rt_now r"
    using assms(1,3) by (simp_all add: timer_ok_def timer_schedule_def Let_def)
  have "mset (concat (map entry_wake (multiset_insert ?e (timer_q (rt_timer r))))) =
      mset (concat (map entry_wake (?e # timer_q (rt_timer r))))"
    by (rule mset_concat_map) simp
  then show ?thesis
    using assms(1,2) q by (cases f) (auto simp: timer_ok_def entry_wake_def)
qed

lemma step_after:
  assumes "rt_inv t0 w ((th, Running) # us)" "r_phase th = At (App_after d s p)"
  shows "next_ok t0 w ((th, Running) # us)"
proof -
  let ?r = "shared w"
  note cf = current_facts [OF assms(1)]
  show ?thesis
  proof (cases "time_add (rt_now ?r) d")
    case (Inl x)
    then have "x = Signed_overflow" by (simp add: time_add_def split: if_splits)
    with Inl have step: "world_step w = Inr (w\<lparr>shared := ?r, sched := sched w,
        cur := Some (r_top th, phase_body (r_top th) Overflow)\<rparr>)"
      using cf(1) assms(2) by (simp add: world_step_def co_step_def post_all_def timer_after_def)
    show ?thesis
      by (rule moves_on [OF assms(1) step, where ls = "[]"]) (use cf assms(2) in \<open>auto dest: app_wf_kind\<close>)
  next
    case (Inr tp)
    let ?r' = "?r\<lparr>rt_timer := timer_schedule tp (Some (Say s)) cancel_token_default (rt_timer ?r)\<rparr>"
    have step: "world_step w = Inr (w\<lparr>shared := ?r', sched := sched w,
        cur := Some (r_top th, phase_body (r_top th) (At p))\<rparr>)"
      using cf(1) assms(2) Inr by (simp add: world_step_def co_step_def post_all_def timer_after_def)
    have "timer_ok ?r' ((th\<lparr>r_phase := At p\<rparr>, Running) # us)"
      by (rule timer_ok_schedule [OF cf(5) [of th] _ refl]) simp
    then show ?thesis
      by (intro moves_on [OF assms(1) step, where ls = "[]"]) (use cf assms(2) in \<open>auto intro: big_after\<close>)
  qed
qed

subsection \<open>Suspending\<close>

text \<open>The executing frame parks; \<open>st\<close> is where its handle has gone.\<close>

lemma suspends:
  assumes inv: "rt_inv t0 w ((th, Running) # us)"
    and step: "world_step w = Inr (w\<lparr>frames := fmupd (r_top th)
        (chain_frame (r_kind th) (r_stack th) (Parked (phase_body (r_top th) ph')) []) (frames w),
        cur := None, shared := r', sched := s'\<rparr>)"
    and st: "st \<in> {Queued False, Sleeping, Submitted}"
    and wf: "phase_wf (r_id th) (r_kind th) ph'" and ok: "status_ok r' (th\<lparr>r_phase := ph'\<rparr>) st"
    and same: "rt_now r' = rt_now (shared w)" "rt_tokens r' = rt_tokens (shared w)" "rt_out r' = rt_out (shared w)"
      "rt_jobs r' = rt_jobs (shared w)"
    and aw: "\<And>c. c \<noteq> r_top th \<Longrightarrow> rt_await r' c = rt_await (shared w) c"
    and big: "\<And>ls x t'. phase_big ph' (rt_now (shared w)) ls x t' \<Longrightarrow>
      phase_big (r_phase th) (rt_now (shared w)) ls x t'"
    and prog: "\<And>ks. cfg_step (ks, r_phase th) (ks, ph')"
    and services: "queues_ok s' ((th\<lparr>r_phase := ph'\<rparr>, st) # us)"
      "timer_ok r' ((th\<lparr>r_phase := ph'\<rparr>, st) # us)" "pool_ok r' ((th\<lparr>r_phase := ph'\<rparr>, st) # us)"
  shows "next_ok t0 w ((th, Running) # us)"
proof (rule next_okI [OF step])
  let ?f = "chain_frame (r_kind th) (r_stack th) (Parked (phase_body (r_top th) ph')) []"
  let ?w = "w\<lparr>frames := fmupd (r_top th) ?f (frames w), cur := None, shared := r', sched := s'\<rparr>"
  let ?u = "(th\<lparr>r_phase := ph'\<rparr>, st)"
  have frames: "unit_frames (th, Running) =
      (r_top th, chain_frame (r_kind th) (r_stack th) Executing []) # stack_frames (r_top th) (r_stack th)"
    "unit_frames ?u = (r_top th, ?f) # stack_frames (r_top th) (r_stack th)"
    using st by (auto simp: unit_frames_def)
  show "rt_inv t0 ?w (?u # us)"
  proof (rule rt_inv_update [OF inv])
    show "heap_is (frames ?w) (?u # us)"
      using rt_inv_parts(1) [OF inv] unfolding heap_is_list frames
      by simp (rule heap_list_upd)
    show "\<forall>c \<in> fst ` set (unit_frames ?u). c < fresh ?w"
      using rt_inv_parts(8) [OF inv, of "(th, Running)"] frames by auto
    show "cur_ok (cur ?w) (?u # us)" using running_alone(2) [OF inv] st by (auto simp: cur_ok_def)
    show "undisturbed (shared w) (shared ?w) (fst v)" if "v \<in> set us" for v
      using tops_differ [OF rt_inv_parts(1) [OF inv] that] same aw by (simp add: undisturbed_def)
    have "thread_spec t0 r' (th\<lparr>r_phase := ph'\<rparr>)"
      using rt_inv_parts(7) [OF inv, of "(th, Running)"] same big
      by (intro phase_step_spec [where r = "shared w" and pre = "[]"]) (auto simp: unit_ok_def)
    with rt_inv_parts(7) [OF inv, of "(th, Running)"] wf ok stack_wf_mono [OF _ cfg_step_outcomes [OF prog]]
    show "unit_ok t0 (shared ?w) ?u"
      by (simp add: unit_ok_def thread_wf_def thread_root_def)
  qed (use services in simp_all)
qed (use prog same in simp_all)

lemma suspend_chain_frame:
  "fmlookup fs c = Some (chain_frame kd st pt ow) \<Longrightarrow>
   suspend_frame c pt' fs = Inr (fmupd c (chain_frame kd st pt' ow) fs)"
  by (simp add: suspend_frame_def chain_frame_def)

lemma step_schedule:
  assumes "rt_inv t0 w ((th, Running) # us)" "r_phase th = At (App_schedule p)"
  shows "next_ok t0 w ((th, Running) # us)"
proof -
  note cf = current_facts [OF assms(1)]
  show ?thesis
    by (rule suspends [OF assms(1), where ph' = "At p" and r' = "shared w" and st = "Queued False"
          and s' = "scheduler_post_handle (Some (r_top th)) (sched w)"])
      (use cf assms(2) rt_inv_parts(3-5) [OF assms(1)] in
        \<open>auto simp: world_step_def co_step_def suspend_chain_frame queues_ok_def timer_ok_def pool_ok_def async_ops
          intro: big_schedule\<close>)
qed

lemma step_sleep_suspend:
  assumes "rt_inv t0 w ((th, Running) # us)" "r_phase th = Sleep_suspend d ct k"
  shows "next_ok t0 w ((th, Running) # us)"
proof -
  let ?r = "shared w" let ?c = "r_top th"
  note cf = current_facts [OF assms(1)]
  show ?thesis
  proof (cases "time_add (rt_now ?r) d")
    case (Inl x)
    then have "x = Signed_overflow" by (simp add: time_add_def split: if_splits)
    with Inl show ?thesis
      using cf(1,4) assms(2)
      by (simp add: next_ok_def world_step_def co_step_def suspend_chain_frame sleep_register_def
          sleep_await_suspend_def timer_after_def)
  next
    case (Inr tp)
    then have tp: "tp = rt_now ?r + d" by (simp add: time_add_def split: if_splits)
    let ?r' = "?r\<lparr>rt_timer := timer_schedule tp (Some (Wake (Some ?c))) cancel_token_default (rt_timer ?r)\<rparr>"
    have "timer_ok ?r' ((th\<lparr>r_phase := Sleep_resume tp ct k\<rparr>, Sleeping) # us)"
      by (rule timer_ok_schedule [OF cf(5) [of th] _ refl]) (simp add: deadline_def)
    then show ?thesis
      by (intro suspends [OF assms(1), where ph' = "Sleep_resume tp ct k" and r' = ?r' and st = Sleeping
            and s' = "sched w"])
        (use cf assms(2) Inr tp rt_inv_parts(3,5) [OF assms(1)] in
          \<open>auto simp: world_step_def co_step_def suspend_chain_frame sleep_register_def sleep_await_suspend_def
            timer_after_def post_all_def queues_ok_def pool_ok_def intro: big_sleep\<close>)
  qed
qed

lemma step_submit:
  assumes "rt_inv t0 w ((th, Running) # us)" "r_phase th = At (App_submit fn is_void ct k)"
  shows "next_ok t0 w ((th, Running) # us)"
proof -
  let ?r = "shared w" let ?c = "r_top th"
  note cf = current_facts [OF assms(1)]
  let ?r' = "?r\<lparr>rt_await := (rt_await ?r)(?c := submit_awaitable_new fn ct),
    rt_pool := submit_await_suspend ?c ?c (rt_pool ?r)\<rparr>"
  have "pool_ok ?r' ((th\<lparr>r_phase := Submit_resume fn is_void ct k\<rparr>, Submitted) # us)"
    using rt_inv_parts(5) [OF assms(1)]
    by (simp add: pool_ok_def submit_await_suspend_def thread_pool_enqueue_def)
  moreover have "timer_ok ?r' ((th\<lparr>r_phase := Submit_resume fn is_void ct k\<rparr>, Submitted) # us)"
    using cf(5) [of th] by (simp add: timer_ok_def)
  ultimately show ?thesis
    by (intro suspends [OF assms(1), where ph' = "Submit_resume fn is_void ct k" and r' = ?r' and st = Submitted
          and s' = "sched w"])
      (use cf assms(2) rt_inv_parts(3) [OF assms(1)] in
        \<open>auto simp: world_step_def co_step_def suspend_chain_frame submit_register_def post_all_def queues_ok_def
          intro: big_submit\<close>)
qed

subsection \<open>Calls and returns\<close>

lemma executing_elsewhere:
  "executing st \<Longrightarrow> \<not> is_queued st \<and> Waking \<noteq> st \<and> Sleeping \<noteq> st \<and> Submitted \<noteq> st"
  by (cases st) simp_all

text \<open>A step in which only frames change.\<close>

lemma frames_change:
  assumes inv: "rt_inv t0 w ((th, st) # us)" and ex: "executing st" "executing st'"
    and step: "world_step w = Inr (w\<lparr>frames := fs', fresh := n', cur := Some (r_top th', unit_body (th', st'))\<rparr>)"
    and heap: "heap_is fs' ((th', st') # us)"
    and names: "\<And>c. c \<in> fst ` set (unit_frames (th', st')) \<Longrightarrow> c \<in> fst ` set (unit_frames (th, st)) \<or> c < n'"
    and prog: "((th', st'), th, st) \<in> unit_order"
    and n': "fresh w \<le> n'" and id: "r_id th' = r_id th" "r_prog th' = r_prog th"
    and wf: "thread_wf th'" and ok: "status_ok (shared w) th' st'"
    and big: "\<And>ls x t'. stack_big (r_stack th') (phase_big (r_phase th')) (rt_now (shared w)) ls x t' \<Longrightarrow>
      stack_big (r_stack th) (phase_big (r_phase th)) (rt_now (shared w)) ls x t'"
  shows "next_ok t0 w ((th, st) # us)"
proof (rule next_okI [OF step])
  let ?w = "w\<lparr>frames := fs', fresh := n', cur := Some (r_top th', unit_body (th', st'))\<rparr>"
  show "rt_inv t0 ?w ((th', st') # us)"
  proof (rule rt_inv_update [OF inv])
    show "\<forall>c \<in> fst ` set (unit_frames (th', st')). c < fresh ?w"
    proof
      fix c
      assume "c \<in> fst ` set (unit_frames (th', st'))"
      from names [OF this] show "c < fresh ?w"
        using rt_inv_parts(8) [OF inv list.set_intros(1), of c] n' by (elim disjE) simp_all
    qed
    have spec: "thread_spec t0 (shared w) th"
      using rt_inv_parts(7) [OF inv, of "(th, st)"] by (simp add: unit_ok_def)
    have "thread_spec t0 (shared w) th'"
      by (rule thread_spec_step [OF spec id(2,1), where pre = "[]"]) (use big in simp_all)
    with wf ok show "unit_ok t0 (shared ?w) (th', st')" by (simp add: unit_ok_def)
    show "undisturbed (shared w) (shared ?w) (fst v)" for v by (simp add: undisturbed_def)
    show "cur_ok (cur ?w) ((th', st') # us)" using running_alone(2) [OF inv] ex by (simp add: cur_ok_def)
    show "queues_ok (sched ?w) ((th', st') # us)" "timer_ok (shared ?w) ((th', st') # us)"
      "pool_ok (shared ?w) ((th', st') # us)"
      using rt_inv_parts(3-5) [OF inv] executing_elsewhere [OF ex(1)] executing_elsewhere [OF ex(2)]
      by (simp_all add: queues_ok_def timer_ok_def pool_ok_def)
  qed (use heap id n' in simp_all)
qed (use prog id in simp_all)

lemma fresh_name:
  assumes "rt_inv t0 w (u # us)"
  shows "fresh w \<notin> fst ` set (unit_frames u @ concat (map unit_frames us))"
proof -
  have "\<forall>c \<in> fst ` set (unit_frames u @ concat (map unit_frames us)). c < fresh w"
    using assms unfolding rt_inv_def list.map concat.simps set_map by blast
  then show ?thesis by blast
qed

text \<open>Calling a coroutine function: the new frame, owned by the caller.\<close>

lemma called_heap:
  assumes inv: "rt_inv t0 w ((th, Running) # us)"
    and u: "unit_frames u = [(r_top th, chain_frame (r_kind th) (r_stack th) Executing [Some (fresh w)]), (fresh w, g)]
      @ stack_frames (r_top th) (r_stack th)"
  shows "heap_is (fmupd (fresh w) g (update_owned (r_top th) (\<lambda>hs. filter (\<lambda>h. h \<notin> set []) hs @ [Some (fresh w)]) (frames w))) (u # us)"
proof -
  let ?c = "r_top th" let ?L = "stack_frames ?c (r_stack th) @ concat (map unit_frames us)"
  let ?f = "chain_frame (r_kind th) (r_stack th) Executing []" and ?f' = "chain_frame (r_kind th) (r_stack th) Executing [Some (fresh w)]"
  have "heap_list (frames w) ((?c, ?f) # ?L)"
    using rt_inv_parts(1) [OF inv] by (simp add: heap_is_list unit_frames_def)
  then have "heap_list (fmupd ?c ?f' (frames w)) ((?c, ?f') # ?L)" by (rule heap_list_upd)
  moreover have "fresh w \<notin> fst ` set ((?c, ?f') # ?L)"
    using fresh_name [OF inv] by (simp add: unit_frames_def)
  ultimately have "heap_list (fmupd (fresh w) g (fmupd ?c ?f' (frames w))) ((fresh w, g) # (?c, ?f') # ?L)"
    by (rule heap_list_add)
  then have "heap_list (fmupd (fresh w) g (fmupd ?c ?f' (frames w))) ((?c, ?f') # (fresh w, g) # ?L)"
    by (rule heap_list_swap)
  moreover have "update_owned ?c (\<lambda>hs. filter (\<lambda>h. h \<notin> set []) hs @ [Some (fresh w)]) (frames w) = fmupd ?c ?f' (frames w)"
    using current_facts(4) [OF inv] by (simp add: update_owned_def chain_frame_def)
  ultimately show ?thesis by (simp add: heap_is_list u)
qed

lemma step_call:
  assumes "rt_inv t0 w ((th, Running) # us)" "r_phase th = At (App_call kd q k)"
  shows "next_ok t0 w ((th, Running) # us)"
  using current_facts [OF assms(1)] assms(2) rt_inv_parts(7) [OF assms(1), of "(th, Running)"]
  by (intro frames_change [OF assms(1) _ _ _ called_heap [OF assms(1)],
        where st' = "Calling (fresh w)" and n' = "Suc (fresh w)"])
    (auto simp: world_step_def co_step_def co_call_def unit_frames_def unit_ok_def)

lemma step_discard:
  assumes "rt_inv t0 w ((th, Running) # us)" "r_phase th = At (App_discard kd q p)"
  shows "next_ok t0 w ((th, Running) # us)"
proof -
  let ?g = "frame_new kd (app_body q) []"
  have big: "stack_big (r_stack th) (phase_big (At p)) t ls x t' \<Longrightarrow>
      stack_big (r_stack th) (phase_big (At (App_discard kd q p))) t ls x t'" for t ls x t'
    using stack_big_step [of "phase_big (At p)" t "phase_big (At (App_discard kd q p))" t "[]" "r_stack th" ls x t']
    by (simp add: big_discard)
  show ?thesis
    using current_facts [OF assms(1)] assms(2) rt_inv_parts(7) [OF assms(1), of "(th, Running)"] big
    by (intro frames_change [OF assms(1) _ _ _ called_heap [OF assms(1), where g = ?g],
          where th' = "th\<lparr>r_phase := At p\<rparr>" and st' = "Dropping (fresh w) ?g" and n' = "Suc (fresh w)"])
      (auto simp: world_step_def co_step_def co_call_def unit_frames_def unit_ok_def thread_wf_def thread_root_def
        frame_new_def frame_executing_def)
qed

lemma step_calling:
  assumes inv: "rt_inv t0 w ((th, Calling d) # us)"
  shows "next_ok t0 w ((th, Calling d) # us)"
proof -
  obtain kd q k where ph: "r_phase th = At (App_call kd q k)"
    using rt_inv_parts(7) [OF inv, of "(th, Calling d)"] by (auto simp: unit_ok_def)
  let ?c = "r_top th" let ?th = "th\<lparr>r_stack := (?c, r_kind th, k) # r_stack th, r_top := d, r_kind := kd, r_phase := At q\<rparr>"
  let ?f = "chain_frame (r_kind th) (r_stack th) Executing [Some d]" and ?g = "frame_new kd (app_body q) []"
  let ?f' = "chain_frame (r_kind th) (r_stack th) (Awaiting (Some d) (awaits d k)) [Some d]"
  let ?g' = "chain_frame kd (r_stack ?th) Executing []"
  let ?L = "stack_frames ?c (r_stack th) @ concat (map unit_frames us)"
  have heap: "heap_list (frames w) ((?c, ?f) # (d, ?g) # ?L)"
    using rt_inv_parts(1) [OF inv] ph by (simp add: heap_is_list unit_frames_def)
  then have cd: "fmlookup (frames w) ?c = Some ?f" "fmlookup (frames w) d = Some ?g" "?c \<noteq> d"
    by (auto simp: heap_list_def)
  have cur: "cur w = Some (?c, Co_await (Some d) (awaits d k))" using running_alone(1) [OF inv] ph by simp
  then have step: "world_step w = Inr (w\<lparr>frames := fmupd d ?g' (fmupd ?c ?f' (frames w)), fresh := fresh w,
      cur := Some (r_top ?th, unit_body (?th, Running))\<rparr>)"
    using await_unstarted [OF cd(1,2) _ cd(3), of "app_body q" "awaits d k"]
    by (cases w) (simp add: frame_new_def chain_frame_def cont_of_def)
  have "heap_list (fmupd ?c ?f' (frames w)) ((?c, ?f') # (d, ?g) # ?L)" using heap by (rule heap_list_upd)
  then have "heap_list (fmupd d ?g' (fmupd ?c ?f' (frames w))) ((d, ?g') # (?c, ?f') # ?L)"
    by (rule heap_list_upd [OF heap_list_swap])
  then have heap': "heap_is (fmupd d ?g' (fmupd ?c ?f' (frames w))) ((?th, Running) # us)"
    by (simp add: heap_is_list unit_frames_def)
  show ?thesis
  proof (rule frames_change [OF inv _ _ step heap'])
    fix ls x t'
    assume "stack_big (r_stack ?th) (phase_big (r_phase ?th)) (rt_now (shared w)) ls x t'"
    then have "stack_big ((?c, r_kind th, k) # r_stack th) (phase_big (At q)) (rt_now (shared w)) ls x t'"
      by simp
    then have "stack_big (r_stack th) (phase_big (r_phase th)) (rt_now (shared w)) ([] @ ls) x t'"
      unfolding stack_big.simps
      by (rule stack_big_step [rotated]) (auto simp: ph intro: big_call)
    then show "stack_big (r_stack th) (phase_big (r_phase th)) (rt_now (shared w)) ls x t'" by simp
  qed (use rt_inv_parts(7) [OF inv, of "(th, Calling d)"] ph in
      \<open>auto simp: unit_ok_def thread_wf_def thread_root_def unit_frames_def\<close>)
qed

lemma step_dropping:
  assumes inv: "rt_inv t0 w ((th, Dropping d g) # us)"
  shows "next_ok t0 w ((th, Dropping d g) # us)"
proof -
  let ?c = "r_top th"
  have ok: "\<not> frame_executing g" "owned g = []"
    using rt_inv_parts(7) [OF inv, of "(th, Dropping d g)"] by (auto simp: unit_ok_def)
  let ?f = "chain_frame (r_kind th) (r_stack th) Executing [Some d]" and ?f' = "chain_frame (r_kind th) (r_stack th) Executing []"
  let ?L = "stack_frames ?c (r_stack th) @ concat (map unit_frames us)"
  have heap: "heap_list (frames w) ((?c, ?f) # (d, g) # ?L)"
    using rt_inv_parts(1) [OF inv] by (simp add: heap_is_list unit_frames_def)
  then have cd: "fmlookup (frames w) ?c = Some ?f" "fmlookup (frames w) d = Some g" "?c \<noteq> d"
    by (auto simp: heap_list_def)
  have "cur w = Some (?c, Co_drop (Some d) (phase_body ?c (r_phase th)))" using running_alone(1) [OF inv] by simp
  then have step: "world_step w = Inr (w\<lparr>frames := fmupd ?c ?f' (fmdrop d (frames w)), fresh := fresh w,
      cur := Some (?c, unit_body (th, Running))\<rparr>)"
    using cd ok by (cases w) (simp add: world_step_def co_step_def task_destroy_def update_owned_def chain_frame_def)
  have "heap_list (fmdrop d (frames w)) ((?c, ?f) # ?L)"
    using heap by (rule heap_list_drop [OF heap_list_swap])
  then have "heap_list (fmupd ?c ?f' (fmdrop d (frames w))) ((?c, ?f') # ?L)" by (rule heap_list_upd)
  then have heap': "heap_is (fmupd ?c ?f' (fmdrop d (frames w))) ((th, Running) # us)"
    by (simp add: heap_is_list unit_frames_def)
  show ?thesis
    by (rule frames_change [OF inv _ _ step heap'])
      (use rt_inv_parts(7) [OF inv, of "(th, Dropping d g)"] in \<open>auto simp: unit_ok_def unit_frames_def\<close>)
qed

lemma completion_resumes:
  assumes "fmlookup (frames w) t = Some g" "kind (prom g) \<noteq> Detached_promise"
    and "continuation (prom g) = Some c" "exception (prom g) = None"
    and "fmlookup (frames w) c = Some f" "point f = Awaiting (Some t) k" "c \<noteq> t"
    and "outcome_typed (kind (prom g)) x"
  shows "\<exists>q. co_complete t x w =
    Inr (w\<lparr>frames := fmupd t (g\<lparr>prom := q, point := At_end\<rparr>)
            (fmupd c (f\<lparr>point := Executing\<rparr>) (frames w)), cur := Some (c, k x)\<rparr>)"
proof -
  note ops = co_complete_def Let_def promise_final_suspend_def promise_complete_def
    final_await_suspend_def promise_unhandled_exception_def promise_return_value_def promise_return_void_def
    resume_frame_def task_await_resume_def fmupd_reorder_neq
  show ?thesis
  proof (cases x)
    case (Inl e)
    then show ?thesis
      using assms by (intro exI [of _ "(prom g)\<lparr>exception := Some e\<rparr>"]; cases g) (simp add: ops)
  next
    case (Inr v)
    then show ?thesis
      using assms
      by (intro exI [of _ "case v of None \<Rightarrow> prom g | Some y \<Rightarrow> (prom g)\<lparr>pvalue := Some V_moved_from\<rparr>"]; cases g)
        (auto simp: ops outcome_typed_def)
  qed
qed

lemma outcome_app_simps:
  "app_body (outcome_app x) = outcome_body x" "app_wf i kd (outcome_app x) = outcome_typed kd x"
  "t \<le> t' \<Longrightarrow> app_big (outcome_app x) t [] x t'" "outcomes (outcome_app x) = {x}"
  by (cases x; simp add: outcome_body_def outcome_typed_def app_big.intros)+

lemma step_outcome_facts:
  assumes "rt_inv t0 w ((th, Running) # us)" "r_phase th = At (outcome_app x)"
  shows "outcome_typed (r_kind th) x" "r_kind th \<noteq> Detached_promise" "world_step w = co_complete (r_top th) x w"
proof -
  note cf = current_facts [OF assms(1)]
  show *: "outcome_typed (r_kind th) x" using cf(2) assms(2) by (simp add: outcome_app_simps)
  then show "r_kind th \<noteq> Detached_promise" by (auto simp: outcome_typed_def split: sum.splits)
  show "world_step w = co_complete (r_top th) x w"
    using cf(1) assms(2) by (intro world_step_outcome) (simp add: outcome_app_simps)
qed

lemma step_ends:
  assumes inv: "rt_inv t0 w ((th, Running) # us)" and ph: "r_phase th = At (outcome_app x)"
    and root: "r_stack th = []"
  shows "next_ok t0 w ((th, Running) # us)"
proof -
  let ?c = "r_top th" let ?f = "chain_frame (r_kind th) (r_stack th) Executing []"
  note cf = current_facts [OF inv] note facts = step_outcome_facts [OF inv ph]
  let ?f' = "\<lparr>prom = promise_complete x (promise_new (r_kind th)), point = At_end, owned = []\<rparr> :: rt frame"
  let ?w = "w\<lparr>frames := fmupd ?c ?f' (frames w), cur := None\<rparr>"
  have prom: "(promise_new (r_kind th))\<lparr>continuation := None\<rparr> = promise_new (r_kind th)"
    by (simp add: promise_new_def)
  have step: "world_step w = Inr ?w"
    unfolding facts(3) using co_complete_plain [OF cf(4), of x] facts(2) root
    by (simp add: chain_frame_def cont_of_def prom) (simp add: promise_new_def)
  show ?thesis
  proof (rule next_okI [OF step, where u' = "(th, Ended x)"])
    have frames: "unit_frames (th, Running) = [(?c, ?f)]" "unit_frames (th, Ended x) = [(?c, ?f')]"
      using root by (simp_all add: unit_frames_def)
    show "rt_inv t0 ?w ((th, Ended x) # us)"
    proof (rule rt_inv_update [OF inv])
      show "heap_is (frames ?w) ((th, Ended x) # us)"
        using rt_inv_parts(1) [OF inv] unfolding heap_is_list frames by simp (rule heap_list_upd)
      show "\<forall>c \<in> fst ` set (unit_frames (th, Ended x)). c < fresh ?w"
        using rt_inv_parts(8) [OF inv, of "(th, Running)"] frames by simp
      show "unit_ok t0 (shared ?w) (th, Ended x)"
        using rt_inv_parts(7) [OF inv, of "(th, Running)"] ph root by (simp add: unit_ok_def)
    qed (use rt_inv_parts(3-5) [OF inv] running_alone(2) [OF inv] in
        \<open>simp_all add: queues_ok_def timer_ok_def pool_ok_def cur_ok_def undisturbed_def\<close>)
  qed simp_all
qed

lemma step_returns:
  assumes inv: "rt_inv t0 w ((th, Running) # us)" and ph: "r_phase th = At (outcome_app x)"
    and caller: "r_stack th = (c, kd, k) # st"
  shows "next_ok t0 w ((th, Running) # us)"
proof -
  let ?c = "r_top th" let ?f = "chain_frame (r_kind th) (r_stack th) Executing []"
  note cf = current_facts [OF inv] note facts = step_outcome_facts [OF inv ph]
  let ?e = "chain_frame kd st (Awaiting (Some ?c) (awaits ?c k)) [Some ?c]"
  let ?e' = "chain_frame kd st Executing [Some ?c]"
  let ?L = "stack_frames c st @ concat (map unit_frames us)"
  have heap: "heap_list (frames w) ((?c, ?f) # (c, ?e) # ?L)"
    using rt_inv_parts(1) [OF inv] caller by (simp add: heap_is_list unit_frames_def)
  then have look: "fmlookup (frames w) c = Some ?e" "c \<noteq> ?c" by (auto simp: heap_list_def)
  obtain q where "co_complete ?c x w = Inr (w\<lparr>frames := fmupd ?c (?f\<lparr>prom := q, point := At_end\<rparr>)
      (fmupd c (?e\<lparr>point := Executing\<rparr>) (frames w)), cur := Some (c, awaits ?c k x)\<rparr>)"
    using completion_resumes [OF cf(4) _ _ _ look(1) _ look(2), of "awaits ?c k" x] facts caller
    by (auto simp: chain_frame_def cont_of_def promise_new_def)
  moreover define g where "g = ?f\<lparr>prom := q, point := At_end\<rparr>"
  moreover have "?e\<lparr>point := Executing\<rparr> = ?e'" by (simp add: chain_frame_def)
  ultimately have step: "world_step w = Inr (w\<lparr>frames := fmupd ?c g (fmupd c ?e' (frames w)), fresh := fresh w,
      cur := Some (c, awaits ?c k x)\<rparr>)"
    unfolding facts(3) by (cases w) simp
  let ?th = "th\<lparr>r_stack := st, r_top := c, r_kind := kd, r_phase := At (k x)\<rparr>"
  have "heap_list (fmupd c ?e' (frames w)) ((c, ?e') # (?c, ?f) # ?L)"
    using heap by (rule heap_list_upd [OF heap_list_swap])
  then have "heap_list (fmupd ?c g (fmupd c ?e' (frames w))) ((c, ?e') # (?c, g) # ?L)"
    by (rule heap_list_swap [OF heap_list_upd [OF heap_list_swap]])
  then have heap': "heap_is (fmupd ?c g (fmupd c ?e' (frames w))) ((?th, Dropping ?c g) # us)"
    by (simp add: heap_is_list unit_frames_def)
  show ?thesis
  proof (rule frames_change [OF inv _ _ _ heap'])
    show "((?th, Dropping ?c g), th, Running) \<in> unit_order" using ph caller by (simp add: cfg_outcome)
  next
    fix ls y t'
    assume "stack_big (r_stack ?th) (phase_big (r_phase ?th)) (rt_now (shared w)) ls y t'"
    then have "stack_big st (phase_big (At (k x))) (rt_now (shared w)) ls y t'" by simp
    then have "stack_big ((c, kd, k) # st) (phase_big (At (outcome_app x))) (rt_now (shared w)) ([] @ ls) y t'"
      unfolding stack_big.simps
      by (rule stack_big_step [rotated])
        (use outcome_app_simps(3) [of "rt_now (shared w)" "rt_now (shared w)" x] in fastforce)
    then show "stack_big (r_stack th) (phase_big (r_phase th)) (rt_now (shared w)) ls y t'"
      unfolding ph caller by simp
  qed (use step rt_inv_parts(7) [OF inv, of "(th, Running)"] caller ph in
      \<open>auto simp: outcome_app_simps(4) unit_ok_def thread_wf_def thread_root_def unit_frames_def g_def chain_frame_def frame_executing_def\<close>)
qed

lemma step_outcome:
  assumes "rt_inv t0 w ((th, Running) # us)" "r_phase th = At (outcome_app x)"
  shows "next_ok t0 w ((th, Running) # us)"
  using assms step_ends step_returns by (cases "r_stack th") auto

text \<open>Every step of an executing coroutine.\<close>

lemma step_running:
  assumes "rt_inv t0 w ((th, Running) # us)"
  shows "next_ok t0 w ((th, Running) # us)"
proof (cases "r_phase th")
  case (At p)
  have "p \<noteq> App_abort" using current_facts(2) [OF assms] At by auto
  with At assms step_outcome [OF assms, of "Inr v" for v] step_outcome [OF assms, of "Inl e" for e] show ?thesis
    by (cases p)
      (auto intro: step_print step_stop step_after step_call step_discard step_schedule step_sleep step_submit)
next
  case Overflow
  then show ?thesis
    using current_facts(1) [OF assms] by (simp add: next_ok_def world_step_def co_step_def)
qed (auto intro: step_sleep_suspend step_sleep_resume step_submit_resume assms)

subsection \<open>The loop between two resumptions\<close>

lemma resume_queued:
  assumes inv: "rt_inv t0 w ((th, Queued b) # us)"
    and q: "handle_q (sched w) = Some (r_top th) # hs" and idle: "cur w = None"
  shows "next_ok t0 w ((th, Queued b) # us)"
proof -
  let ?c = "r_top th" let ?s = "(sched w)\<lparr>handle_q := hs\<rparr>"
  let ?f = "chain_frame (r_kind th) (r_stack th) ((if b then At_start else Parked) (phase_body ?c (r_phase th))) []"
  let ?f' = "chain_frame (r_kind th) (r_stack th) Executing []"
  let ?w = "w\<lparr>frames := fmupd ?c ?f' (frames w), cur := Some (?c, phase_body ?c (r_phase th)), sched := ?s\<rparr>"
  have heap: "heap_list (frames w) ((?c, ?f) # stack_frames ?c (r_stack th) @ concat (map unit_frames us))"
    using rt_inv_parts(1) [OF inv] by (simp add: heap_is_list unit_frames_def)
  then have "fmlookup (frames w) ?c = Some ?f" by (simp add: heap_list_def)
  then have step: "world_step w = Inr ?w"
    unfolding loop_step_handle [OF q idle] resume_frame_def by (cases w; cases b) (simp_all add: chain_frame_def)
  show ?thesis
  proof (rule next_okI [OF step, where u' = "(th, Running)"])
    show "rt_inv t0 ?w ((th, Running) # us)"
    proof (rule rt_inv_update [OF inv])
      show "heap_is (frames ?w) ((th, Running) # us)"
        using heap_list_upd [OF heap, of ?f'] by (simp add: heap_is_list unit_frames_def)
      show "\<forall>c \<in> fst ` set (unit_frames (th, Running)). c < fresh ?w"
        using rt_inv_parts(8) [OF inv, of "(th, Queued b)"] by (auto simp: unit_frames_def)
      show "unit_ok t0 (shared ?w) (th, Running)"
        using rt_inv_parts(7) [OF inv, of "(th, Queued b)"] by (simp add: unit_ok_def)
    qed (use rt_inv_parts(2-5) [OF inv] idle q in
        \<open>simp_all add: queues_ok_def timer_ok_def pool_ok_def cur_ok_def undisturbed_def\<close>)
  qed simp_all
qed

text \<open>The first function in the queue, and the step that calls it.\<close>

lemma queued_function:
  assumes inv: "rt_inv t0 w us" and idle: "cur w = None"
    and q: "handle_q (sched w) = []" "fn_q (sched w) = g # gs"
  obtains f fs where "g = Some (rt_call f)" "gs = map (Some \<circ> rt_call) fs"
    and "mset (wake_of f) + mset (concat (map wake_of fs)) = units ((=) Waking) (\<lambda>u. Some (top_of u)) us"
    and "world_step w =
      (case rt_call f (shared w) of (d, hs) \<Rightarrow> Inr (w\<lparr>shared := d, sched := post_all hs ((sched w)\<lparr>fn_q := gs\<rparr>)\<rparr>))"
proof -
  obtain f fs where f: "g = Some (rt_call f)" "gs = map (Some \<circ> rt_call) fs"
    and wakes: "mset (wake_of f) + mset (concat (map wake_of fs)) = units ((=) Waking) (\<lambda>u. Some (top_of u)) us"
    using rt_inv_parts(3) [OF inv] q by (auto simp: queues_ok_def Cons_eq_map_conv)
  with that show thesis
    using q idle by (simp add: world_step_def loop_step_def scheduler_pick_def scheduler_wait_pred_def scheduler_select_def)
qed

lemma call_wakes:
  assumes inv: "rt_inv t0 w us" and idle: "cur w = None"
    and q: "handle_q (sched w) = []" "fn_q (sched w) = Some (rt_call (Wake h)) # map (Some \<circ> rt_call) fs"
    and wakes: "add_mset h (mset (concat (map wake_of fs))) = units ((=) Waking) (\<lambda>u. Some (top_of u)) us"
    and step: "world_step w = Inr (w\<lparr>sched := post_all [h] ((sched w)\<lparr>fn_q := map (Some \<circ> rt_call) fs\<rparr>)\<rparr>)"
  shows "next_ok t0 w us"
proof -
  let ?s = "post_all [h] ((sched w)\<lparr>fn_q := map (Some \<circ> rt_call) fs\<rparr>)"
  have "h \<in># units ((=) Waking) (\<lambda>u. Some (top_of u)) us" by (simp flip: wakes)
  then obtain u where u: "u \<in> set us" "snd u = Waking" "h = Some (top_of u)" by (rule in_unitsE) (simp add: that)
  obtain us' where "rt_inv t0 (w\<lparr>shared := shared w, sched := ?s\<rparr>) us'" "idents us' = idents us" "advance us' us"
  proof (rule moves_place [OF inv u(1), where st = "Queued False" and r' = "shared w" and s' = ?s])
    show "status_ok (shared w) (fst u) (Queued False)"
      using rt_inv_parts(7) [OF inv u(1)] u(2) by (auto simp: unit_ok_def)
    fix us'
    assume us': "mset us = mset (u # us')"
    have "queues_ok ?s ((fst u, Queued False) # us')"
      using rt_inv_parts(3) [OF inv] u(2,3) wakes unfolding queues_ok_def
      by (intro conjI exI [of _ fs]) (simp_all add: post_all_def async_ops q mset_eq_units [OF us'])
    then show "timer_ok (shared w) ((fst u, Queued False) # us') \<and> pool_ok (shared w) ((fst u, Queued False) # us') \<and>
        queues_ok ?s ((fst u, Queued False) # us')"
      using rt_inv_parts(4,5) [OF inv] u(2) by (simp add: timer_ok_def pool_ok_def mset_eq_units [OF us'])
  qed (use u(2) in simp_all)
  then show ?thesis unfolding step next_ok_def by (cases w) auto
qed

text \<open>One pass of the event loop with something to do: the threads advance, or a callback prints.\<close>

definition callback_prints :: "rt world \<Rightarrow> rt world \<Rightarrow> bool" where
  "callback_prints w w' \<longleftrightarrow>
     (\<exists>s. w' = w\<lparr>shared := (shared w)\<lparr>rt_out := rt_out (shared w) @ [(rt_now (shared w), Callback, s)]\<rparr>,
                 sched := (sched w)\<lparr>fn_q := tl (fn_q (sched w))\<rparr>\<rparr>) \<and> fn_q (sched w) \<noteq> []"

lemma call_function:
  assumes inv: "rt_inv t0 w us" and idle: "cur w = None"
    and q: "handle_q (sched w) = []" "fn_q (sched w) = g # gs"
  shows "next_ok t0 w us \<or>
    (\<exists>w'. world_step w = Inr w' \<and> callback_prints w w' \<and> rt_inv t0 w' us)"
proof -
  obtain f fs where f: "g = Some (rt_call f)" "gs = map (Some \<circ> rt_call) fs"
    and wakes: "mset (wake_of f) + mset (concat (map wake_of fs)) = units ((=) Waking) (\<lambda>u. Some (top_of u)) us"
    and step: "world_step w =
      (case rt_call f (shared w) of (d, hs) \<Rightarrow> Inr (w\<lparr>shared := d, sched := post_all hs ((sched w)\<lparr>fn_q := gs\<rparr>)\<rparr>))"
    by (rule queued_function [OF inv idle q])
  show ?thesis
  proof (cases f)
    case (Wake h)
    then have "h \<in># units ((=) Waking) (\<lambda>u. Some (top_of u)) us" by (simp add: wake_of_def flip: wakes)
    then have "h \<noteq> None" by (auto simp: in_units)
    have "next_ok t0 w us"
      using q wakes step Wake f \<open>h \<noteq> None\<close>
      by (intro call_wakes [OF inv idle]) (cases w; simp add: wake_of_def sleep_job_def)+
    then show ?thesis ..
  next
    case (Say x)
    let ?r = "(shared w)\<lparr>rt_out := rt_out (shared w) @ [(rt_now (shared w), Callback, x)]\<rparr>"
    let ?w = "w\<lparr>shared := ?r, sched := (sched w)\<lparr>fn_q := gs\<rparr>\<rparr>"
    have "rt_inv t0 ?w us"
      using rt_inv_parts(3-5) [OF inv] f(2) wakes Say q(1)
      by (intro rt_inv_services [OF inv])
        (auto simp: timer_ok_def pool_ok_def undisturbed_def own_lines_def queues_ok_def wake_of_def)
    moreover have "world_step w = Inr ?w" using step Say by (simp add: post_all_def)
    moreover have "callback_prints w ?w" using q by (auto simp: callback_prints_def)
    ultimately show ?thesis by blast
  qed
qed

lemma step_executing:
  assumes inv: "rt_inv t0 w us" and busy: "cur w = Some x"
  shows "next_ok t0 w us"
proof -
  have "x \<in># units executing (\<lambda>u. (top_of u, unit_body u)) us"
    using rt_inv_parts(2) [OF inv] busy by (simp add: cur_ok_def)
  then obtain u where u: "u \<in> set us" "executing (snd u)" by (rule in_unitsE)
  obtain us' where us': "mset us = mset (u # us')" and inv': "rt_inv t0 w (u # us')"
    using rt_inv_first [OF inv u(1)] .
  obtain th st where th: "u = (th, st)" by (cases u)
  have "next_ok t0 w (u # us')"
    using inv' u(2) unfolding th by (cases st) (auto intro: step_running step_calling step_dropping)
  then show ?thesis using us' by (rule next_ok_mset)
qed

lemma step_resumes:
  assumes inv: "rt_inv t0 w us" and idle: "cur w = None" and q: "handle_q (sched w) = h # hs"
  shows "next_ok t0 w us"
proof -
  have "h \<in># units is_queued (\<lambda>u. Some (top_of u)) us"
    using rt_inv_parts(3) [OF inv] q unfolding queues_ok_def by (metis list.set_intros(1) set_mset_mset)
  then obtain u where u: "u \<in> set us" "is_queued (snd u)" "h = Some (top_of u)" by (rule in_unitsE)
  obtain us' where us': "mset us = mset (u # us')" and inv': "rt_inv t0 w (u # us')"
    using rt_inv_first [OF inv u(1)] .
  obtain th b where th: "u = (th, Queued b)" using u(2) by (cases u; cases "snd u") auto
  have "next_ok t0 w (u # us')"
    using resume_queued [OF inv' [unfolded th] _ idle] q u(3) th by simp
  then show ?thesis using us' by (rule next_ok_mset)
qed

lemma loop_step_progress:
  assumes inv: "rt_inv t0 w us" and busy: "cur w \<noteq> None \<or> handle_q (sched w) \<noteq> [] \<or> fn_q (sched w) \<noteq> []"
  shows "next_ok t0 w us \<or>
    (\<exists>w'. world_step w = Inr w' \<and> callback_prints w w' \<and> rt_inv t0 w' us)"
proof (cases "cur w")
  case None
  with inv busy show ?thesis
    using step_resumes [OF inv None] call_function [OF inv None]
    by (cases "handle_q (sched w)"; cases "fn_q (sched w)") auto
qed (use step_executing [OF inv] in blast)

lemma loop_step_idle:
  assumes "cur w = None" "handle_q (sched w) = []" "fn_q (sched w) = []"
  shows "world_step w = Inr w"
  using assms by (cases w) (auto simp: world_step_def loop_step_def scheduler_pick_def scheduler_wait_pred_def scheduler_select_def)

section \<open>All executions\<close>

text \<open>What every step keeps; threads only ever advance.\<close>

definition keeps_ok :: "time_point \<Rightarrow> unit_of list \<Rightarrow> ub + rt_system \<Rightarrow> bool" where
  "keeps_ok t0 us res =
     (case res of
        Inl u \<Rightarrow> u = Signed_overflow
      | Inr s \<Rightarrow> \<exists>us'. rt_inv t0 (rs_world s) us' \<and> idents us' = idents us \<and> (us' = us \<or> advance us' us))"

lemma keeps_okI:
  "rt_inv t0 (rs_world s) us' \<Longrightarrow> idents us' = idents us \<Longrightarrow> us' = us \<or> advance us' us \<Longrightarrow> keeps_ok t0 us (Inr s)"
  by (auto simp: keeps_ok_def)

lemma rt_loop_step_inv:
  assumes "rt_inv t0 (rs_world s) us"
  shows "keeps_ok t0 us (rt_loop_step s)"
proof (cases "cur (rs_world s) \<noteq> None \<or> handle_q (sched (rs_world s)) \<noteq> [] \<or> fn_q (sched (rs_world s)) \<noteq> []")
  case True
  show ?thesis
    using loop_step_progress [OF assms True] assms
    by (auto simp: rt_loop_step_def next_ok_def keeps_ok_def split: sum.splits)
next
  case False
  then have "world_step (rs_world s) = Inr (rs_world s)" by (intro loop_step_idle; blast)
  with assms show ?thesis by (auto simp: rt_loop_step_def keeps_ok_def)
qed

lemma rt_step_inv:
  assumes "rt_inv t0 (rs_world s) us"
  shows "keeps_ok t0 us (rt_step s e)"
proof (cases e)
  case Timer_thread
  show ?thesis by (rule timer_thread_inv [OF assms]) (simp add: Timer_thread keeps_okI)
next
  case (Pool_finishes t)
  let ?r = "shared (rs_world s)"
  show ?thesis
  proof (cases "t < length (rt_jobs ?r) \<and> rt_started ?r t \<and> rt_jobs ?r ! t \<noteq> None")
    case True
    then show ?thesis by - (rule pool_finishes_job [OF assms, of t], simp_all add: Pool_finishes keeps_okI)
  next
    case False
    from pool_finishes_idle [OF assms this] show ?thesis by (simp add: Pool_finishes keeps_okI)
  qed
qed (use rt_loop_step_inv [OF assms] pool_takes_inv [OF assms] pool_starts_inv [OF assms] time_passes_inv [OF assms] cancels_inv [OF assms]
    in \<open>auto intro: keeps_okI [where us' = us]\<close>)

lemma rt_run_inv:
  assumes "rt_inv t0 (rs_world s) us"
  shows "case rt_run s es of
      Inl u \<Rightarrow> u = Signed_overflow
    | Inr s' \<Rightarrow> \<exists>us'. rt_inv t0 (rs_world s') us' \<and> idents us' = idents us"
  using assms
proof (induction es arbitrary: s us)
  case (Cons e es)
  show ?case
  proof (cases "rt_step s e")
    case (Inr s')
    with rt_step_inv [OF Cons.prems, of e] obtain us'
      where "rt_inv t0 (rs_world s') us'" "idents us' = idents us" by (auto simp: keeps_ok_def)
    with Cons.IH [of s' us'] Inr show ?thesis by (cases "rt_run s' es") simp_all
  qed (use rt_step_inv [OF Cons.prems, of e] in \<open>simp add: keeps_ok_def\<close>)
qed auto

text \<open>The start: every program queued.\<close>

definition start_units :: "app list \<Rightarrow> unit_of list" where
  "start_units ps =
     map (\<lambda>i. (\<lparr>r_id = i, r_prog = ps ! i, r_stack = [], r_top = i, r_kind = Void_promise,
                r_phase = At (ps ! i)\<rparr>, Queued True)) [0..<length ps]"

lemma post_handles_queue:
  "fold (\<lambda>i. io_context_post (Some i)) is s = s\<lparr>handle_q := handle_q s @ map Some is\<rparr>"
  by (induction "is" arbitrary: s) (simp_all add: async_ops)

lemma rt_start_inv:
  assumes "apps_wf ps"
  shows "rt_inv t0 (rs_world (rt_start n t0 m ps)) (start_units ps)"
proof -
  let ?us = "start_units ps" let ?w = "rs_world (rt_start n t0 m ps)"
  have frames: "concat (map unit_frames ?us) =
      map (\<lambda>i. (i, frame_new Void_promise (app_body (ps ! i)) [])) [0..<length ps]"
    by (simp add: start_units_def unit_frames_def o_def chain_frame_def cont_of_def promise_new_def
        frame_new_def concat_map_singleton)
  have none: "units P f ?us = {#}" if "\<not> P (Queued True)" for P and f :: "unit_of \<Rightarrow> 'a"
    using that by (simp add: units_def start_units_def filter_empty_conv)
  have queued: "units is_queued f ?us = mset (map f ?us)" for f :: "unit_of \<Rightarrow> 'a"
    by (simp add: units_def start_units_def o_def)
  have queue: "handle_q (sched ?w) = map Some [0..<length ps]" "fn_q (sched ?w) = []"
    by (simp_all add: rt_start_def post_handles_queue scheduler_init_def)
  have "heap_is (frames ?w) ?us"
    unfolding heap_is_def frames by (simp add: rt_start_def fmlookup_of_list o_def)
  moreover have "\<forall>c \<in> set (map fst (concat (map unit_frames ?us))). c < fresh ?w"
    unfolding frames by (simp add: rt_start_def)
  moreover have "cur_ok (cur ?w) ?us" by (simp add: cur_ok_def none rt_start_def)
  moreover have "queues_ok (sched ?w) ?us"
    unfolding queues_ok_def queue using queued [of "\<lambda>u. Some (top_of u)"] none [of "(=) Waking"]
    by (simp add: start_units_def o_def)
  moreover have "timer_ok (shared ?w) ?us"
    by (simp add: timer_ok_def none rt_start_def rt_init_def timer_init_def held_def)
  moreover have "pool_ok (shared ?w) ?us"
    by (simp add: pool_ok_def none rt_start_def rt_init_def thread_pool_new_def thread_pool_size_def)
  moreover have "distinct (map (r_id \<circ> fst) ?us)" by (simp add: start_units_def o_def)
  moreover have "unit_ok t0 (shared ?w) u" if "u \<in> set ?us" for u
    using that assms
    by (auto simp: apps_wf_def start_units_def unit_ok_def thread_wf_def thread_root_def thread_spec_def own_lines_def
        rt_start_def rt_init_def)
  ultimately show ?thesis by (simp only: rt_inv_def) blast
qed

text \<open>A frame that waits for somebody to resume it, and not for a task it awaits.\<close>

definition awaits_resumption :: "'s frame \<Rightarrow> bool" where
  "awaits_resumption f = (case point f of At_start _ \<Rightarrow> True | Parked _ \<Rightarrow> True | _ \<Rightarrow> False)"

fun suspended :: "status \<Rightarrow> bool" where
  "suspended Running = False"
| "suspended (Calling _) = False"
| "suspended (Dropping _ _) = False"
| "suspended (Ended _) = False"
| "suspended _ = True"

lemma stack_frames_await: "(c, f) \<in> set (stack_frames d st) \<Longrightarrow> \<not> awaits_resumption f"
  by (induction d st rule: stack_frames.induct) (auto simp: awaits_resumption_def chain_frame_def)

lemma unit_awaits:
  assumes "\<not> executing (snd u)"
  shows "(\<exists>f. (c, f) \<in> set (unit_frames u) \<and> awaits_resumption f) \<longleftrightarrow> suspended (snd u) \<and> c = top_of u"
  using assms stack_frames_await [of c _ "top_of u" "r_stack (fst u)"]
  by (cases u; cases "snd u") (auto simp: unit_frames_def awaits_resumption_def chain_frame_def)

lemma distinct_tops: "heap_is fs us \<Longrightarrow> distinct (map top_of us)"
proof -
  have "distinct (map fst (concat (map unit_frames us))) \<Longrightarrow> distinct (map top_of us)"
  proof (induction us)
    case (Cons u us)
    have "top_of u \<notin> top_of ` set us"
    proof
      assume "top_of u \<in> top_of ` set us"
      then obtain v where "top_of u = top_of v" "v \<in> set us" by (rule imageE)
      with tops_distinct [OF Cons.prems, of v] show False by simp
    qed
    with Cons show ?case by simp
  qed simp
  then show "heap_is fs us \<Longrightarrow> ?thesis" by (simp add: heap_is_def)
qed

lemma units_all: "units P f us = image_mset f (filter_mset (\<lambda>u. P (snd u)) (mset us))"
  by (simp add: units_def)

lemma suspended_split:
  "image_mset f (filter_mset (\<lambda>u. suspended (snd u)) M) =
     image_mset f (filter_mset (\<lambda>u. is_queued (snd u)) M) + image_mset f (filter_mset (\<lambda>u. Waking = snd u) M) +
     image_mset f (filter_mset (\<lambda>u. Sleeping = snd u) M) + image_mset f (filter_mset (\<lambda>u. Submitted = snd u) M)"
proof (induction M)
  case (add u M)
  then show ?case by (cases "snd u") simp_all
qed simp

lemma idle_units:
  assumes "rt_inv t0 w us" "cur w = None"
  shows "\<forall>u \<in> set us. \<not> executing (snd u)"
  using rt_inv_parts(2) [OF assms(1)] assms(2) by (auto simp: cur_ok_def units_def filter_empty_conv)

lemma awaiting_frames:
  assumes "rt_inv t0 w us" "cur w = None"
  shows "{c. \<exists>f. fmlookup (frames w) c = Some f \<and> awaits_resumption f} =
    top_of ` {u \<in> set us. suspended (snd u)}"
proof -
  have "fmlookup (frames w) c = Some f \<longleftrightarrow> (\<exists>u \<in> set us. (c, f) \<in> set (unit_frames u))" for c f
    using rt_inv_parts(1) [OF assms(1)] by (auto simp: heap_is_def)
  then have "{c. \<exists>f. fmlookup (frames w) c = Some f \<and> awaits_resumption f} =
      {c. \<exists>u \<in> set us. \<exists>f. (c, f) \<in> set (unit_frames u) \<and> awaits_resumption f}" by blast
  also have "\<dots> = {c. \<exists>u \<in> set us. suspended (snd u) \<and> c = top_of u}"
    using idle_units [OF assms] by (simp add: unit_awaits cong: bex_cong)
  finally show ?thesis by blast
qed

lemma each_waits_once:
  assumes inv: "rt_inv t0 w us" and idle: "cur w = None"
  shows "\<exists>fs. fn_q (sched w) = map (Some \<circ> rt_call) fs \<and>
    mset (handle_q (sched w)) + mset (concat (map wake_of fs)) +
      image_mset fst (mset (concat (map entry_wake (timer_pending (timer_view (shared w)))))) +
      {# case j of Some (Await_job a h) \<Rightarrow> Some h | _ \<Rightarrow> None. j \<in># jobs_inside (pool_view (shared w)) #} =
    image_mset Some (mset_set {c. \<exists>f. fmlookup (frames w) c = Some f \<and> awaits_resumption f})"
proof -
  let ?S = "filter_mset (\<lambda>u. suspended (snd u)) (mset us)"
  obtain fs where fs: "fn_q (sched w) = map (Some \<circ> rt_call) fs"
    "mset (concat (map wake_of fs)) = units ((=) Waking) (\<lambda>u. Some (top_of u)) us"
    using rt_inv_parts(3) [OF inv] by (auto simp: queues_ok_def)
  have "distinct (map top_of (filter (\<lambda>u. suspended (snd u)) us))"
    using distinct_tops [OF rt_inv_parts(1) [OF inv]] by (rule distinct_map_filter)
  from mset_set_set [OF this]
  have tops: "image_mset top_of ?S = mset_set (top_of ` {u \<in> set us. suspended (snd u)})" by simp
  have "image_mset Some (mset_set {c. \<exists>f. fmlookup (frames w) c = Some f \<and> awaits_resumption f}) =
      image_mset (\<lambda>u. Some (top_of u)) ?S"
    unfolding awaiting_frames [OF inv idle] by (simp add: image_mset.compositionality comp_def flip: tops)
  moreover have "image_mset fst (mset (concat (map entry_wake (timer_pending (timer_view (shared w)))))) =
      image_mset (\<lambda>u. Some (top_of u)) (filter_mset (\<lambda>u. Sleeping = snd u) (mset us))"
    using rt_inv_parts(4) [OF inv] unfolding timer_ok_def by (simp add: units_all image_mset.compositionality comp_def)
  moreover have "{# case j of Some (Await_job a h) \<Rightarrow> Some h | _ \<Rightarrow> None. j \<in># jobs_inside (pool_view (shared w)) #} =
      image_mset (\<lambda>u. Some (top_of u)) (filter_mset (\<lambda>u. Submitted = snd u) (mset us))"
    using rt_inv_parts(5) [OF inv] unfolding pool_ok_def by (simp add: units_all image_mset.compositionality comp_def)
  moreover have "mset (handle_q (sched w)) =
      image_mset (\<lambda>u. Some (top_of u)) (filter_mset (\<lambda>u. is_queued (snd u)) (mset us))"
    using rt_inv_parts(3) [OF inv] unfolding queues_ok_def by (simp add: units_all)
  ultimately show ?thesis
    using fs by (intro exI [of _ fs]) (simp add: suspended_split units_all)
qed

lemma in_start_idents: "(i, p) \<in># idents (start_units ps) \<longleftrightarrow> i < length ps \<and> p = ps ! i"
  by (auto simp: idents_def start_units_def)

lemma stack_root_frame:
  "st \<noteq> [] \<Longrightarrow> \<exists>f. (fst (last st), f) \<in> set (stack_frames d st) \<and> \<not> frame_done f"
proof (induction d st rule: stack_frames.induct)
  case (2 d c kd k st)
  then show ?case by (cases st) (auto simp: frame_done_def chain_frame_def)
qed simp

lemma root_frame:
  assumes "thread_wf th" "status_ok r th st"
  obtains g where "(r_id th, g) \<in> set (unit_frames (th, st))"
    and "frame_done g \<Longrightarrow> \<exists>x. st = Ended x \<and> g = \<lparr>prom = promise_complete x (promise_new (r_kind th)), point = At_end, owned = []\<rparr>"
proof (cases "r_stack th = []")
  case True
  then have "r_top th = r_id th" using assms(1) by (simp add: thread_wf_def thread_root_def)
  then show thesis
    by (cases st; intro that [of "snd (hd (unit_frames (th, st)))"])
      (auto simp: unit_frames_def frame_done_def chain_frame_def split: if_splits)
next
  case False
  with assms(1) have "fst (last (r_stack th)) = r_id th"
    by (auto simp: thread_wf_def thread_root_def last_map)
  with stack_root_frame [OF False, of "r_top th"] show thesis by (auto simp: unit_frames_def intro: that)
qed

lemma programs_endedD:
  "programs_ended ps s \<Longrightarrow> i < length ps \<Longrightarrow> fmlookup (frames (rs_world s)) i = Some f \<Longrightarrow> frame_done f"
  by (force simp: programs_ended_def list_all_iff)

lemma ended_units:
  assumes inv: "rt_inv t0 (rs_world s) us" and ids: "idents us = idents (start_units ps)"
    and ended: "\<forall>u \<in> set us. \<exists>x. snd u = Ended x"
  shows "programs_ended ps s"
proof -
  have "\<exists>f. fmlookup (frames (rs_world s)) i = Some f \<and> frame_done f" if "i < length ps" for i
  proof -
    have "(i, ps ! i) \<in># idents us" unfolding ids using that by (simp add: in_start_idents)
    then obtain th x where u: "(th, Ended x) \<in> set us" "r_id th = i" using ended by (fastforce simp: idents_def)
    from rt_inv_parts(7) [OF inv this(1)] have "r_top th = i" "r_stack th = []"
      using u(2) by (auto simp: unit_ok_def thread_wf_def thread_root_def)
    with rt_inv_parts(1) [OF inv] u(1) show ?thesis
      by (force simp: heap_is_def unit_frames_def frame_done_def)
  qed
  then show ?thesis by (force simp: programs_ended_def list_all_iff)
qed

text \<open>One execution: a coroutine that sleeps, computes in the pool, prints and stops the loop.\<close>

definition sample_program :: app where
  "sample_program =
     App_print 0 ''start''
       (App_call Void_promise (sleep_for 5 cancel_token_default) (\<lambda>_.
          App_call Value_promise (submit (Inr (Some (V_int 7))) False cancel_token_default) (\<lambda>_.
            App_print 0 ''done'' (App_stop (App_return None)))))"

definition sample_events :: "rt_event list" where
  "sample_events =
     replicate 10 Loop @ [Timer_thread, Time_passes 6] @ replicate 6 Timer_thread @ replicate 15 Loop @
     [Pool_takes 0, Pool_starts 0, Pool_finishes 0] @ replicate 10 Loop"

abbreviation sample_start :: rt_system where
  "sample_start \<equiv> rt_start 1 0 cancel_store_init [sample_program]"

lemma sample_wf: "apps_wf [sample_program]"
  by (auto simp: apps_wf_def sample_program_def sleep_for_def submit_def submit_typed_def split: sum.splits)

lemma sample_run:
  "case rt_run sample_start sample_events of
     Inl _ \<Rightarrow> False
   | Inr s \<Rightarrow> cur (rs_world s) = None \<and> rs_left s \<and> programs_ended [sample_program] s \<and>
       rt_out (shared (rs_world s)) = [(0, Coroutine 0, ''start''), (6, Coroutine 0, ''done'')] \<and>
       rt_now (shared (rs_world s)) = 6"
  by code_simp

lemma sample_runE:
  obtains s where "rt_run sample_start sample_events = Inr s" "cur (rs_world s) = None" "rs_left s"
    "programs_ended [sample_program] s" "rt_now (shared (rs_world s)) = 6"
    "rt_out (shared (rs_world s)) = [(0, Coroutine 0, ''start''), (6, Coroutine 0, ''done'')]"
  using sample_run by (cases "rt_run sample_start sample_events") auto

lemma sample_frame:
  assumes "programs_ended [sample_program] s"
  obtains f where "fmlookup (frames (rs_world s)) 0 = Some f" "frame_done f"
  using assms by (auto simp: programs_ended_def split: option.splits)

lemma ended_thread_refines:
  assumes "apps_wf ps"
    and "rt_run (rt_start n t0 m ps) es = Inr s" and "i < length ps"
    and "fmlookup (frames (rs_world s)) i = Some f" "frame_done f"
  shows "\<exists>x. app_big (ps ! i) t0 (own_lines i (rt_out (shared (rs_world s)))) x (rt_now (shared (rs_world s))) \<and>
    prom f = promise_complete x (promise_new Void_promise)"
proof -
  obtain us where inv: "rt_inv t0 (rs_world s) us" and ids: "idents us = idents (start_units ps)"
    using rt_run_inv [OF rt_start_inv [OF assms(1), of t0 n m], of es] assms(2) by auto
  have "(i, ps ! i) \<in># idents us" unfolding ids using assms(3) by (simp add: in_start_idents)
  then obtain u where u: "u \<in> set us" "r_id (fst u) = i" "r_prog (fst u) = ps ! i" by (auto simp: idents_def)
  obtain th st where th: "u = (th, st)" by (cases u)
  have ok: "thread_wf th" "status_ok (shared (rs_world s)) th st" "thread_spec t0 (shared (rs_world s)) th"
    using rt_inv_parts(7) [OF inv u(1)] th by (simp_all add: unit_ok_def)
  obtain g where g: "(i, g) \<in> set (unit_frames u)" "frame_done g \<Longrightarrow> \<exists>x. st = Ended x \<and>
      g = \<lparr>prom = promise_complete x (promise_new (r_kind th)), point = At_end, owned = []\<rparr>"
    using root_frame [OF ok(1,2)] u(2) th by auto
  then have "fmlookup (frames (rs_world s)) i = Some g"
    using rt_inv_parts(1) [OF inv] u(1) by (force simp: heap_is_def)
  with assms(4,5) g(2) obtain x where x: "st = Ended x"
    "f = \<lparr>prom = promise_complete x (promise_new (r_kind th)), point = At_end, owned = []\<rparr>" by auto
  have kd: "r_kind th = Void_promise" "r_stack th = []" "r_phase th = At (outcome_app x)"
    using ok(1,2) x(1) by (auto simp: thread_wf_def thread_root_def)
  have "app_big (ps ! i) t0 (own_lines i (rt_out (shared (rs_world s))) @ []) x (rt_now (shared (rs_world s)))"
    using ok(3) outcome_app_simps(3) [of "rt_now (shared (rs_world s))" "rt_now (shared (rs_world s))" x] u th kd(2,3)
    unfolding thread_spec_def by (auto dest!: spec)
  with x(2) kd(1) show ?thesis by (intro exI [of _ x]) simp
qed

section \<open>Properties\<close>



text \<open>
  C8: No interleaving runs into undefined behaviour: no frame is resumed twice, used after it was freed
  or destroyed while it executes, no empty result is read and no assertion fails, whatever the threads do.
  The one exception is arithmetic: a deadline past the range of the clock.
\<close>
theorem runtime_never_undefined:
  assumes "apps_wf ps"
  shows "rt_run (rt_start n t0 m ps) es \<in> insert (Inl Signed_overflow) (range Inr)"
  using rt_run_inv [OF rt_start_inv [OF assms, of t0 n m], of es]
  by (cases "rt_run (rt_start n t0 m ps) es") auto

theorem runtime_never_undefined_witness:
  "rt_run sample_start sample_events \<in> insert (Inl Signed_overflow) (range Inr)"
  using runtime_never_undefined [OF sample_wf] .

text \<open>
  C21: Every suspended coroutine is on its way back exactly once. Between two resumptions, the handles in
  the scheduler's queue, in the wake-up functions queued there, in the timer's entries and in the jobs of
  the pool, taken together, are the frames that wait to be resumed, each of them once; so none is
  forgotten and none is resumed twice.
\<close>
theorem suspended_coroutines_wait_once:
  assumes "apps_wf ps"
    and "rt_run (rt_start n t0 m ps) es = Inr s" and "cur (rs_world s) = None" and "w = rs_world s"
  shows "\<exists>fs. fn_q (sched w) = map (Some \<circ> rt_call) fs \<and>
    mset (handle_q (sched w)) + mset (concat (map wake_of fs)) +
      image_mset fst (mset (concat (map entry_wake (timer_pending (timer_view (shared w)))))) +
      {# case j of Some (Await_job a h) \<Rightarrow> Some h | _ \<Rightarrow> None. j \<in># jobs_inside (pool_view (shared w)) #} =
    image_mset Some (mset_set {c. \<exists>f. fmlookup (frames w) c = Some f \<and> awaits_resumption f})"
proof -
  obtain us where "rt_inv t0 (rs_world s) us"
    using rt_run_inv [OF rt_start_inv [OF assms(1), of t0 n m], of es] assms(2) by auto
  from each_waits_once [OF this assms(3)] show ?thesis unfolding assms(4) .
qed

theorem suspended_coroutines_wait_once_witness:
  "\<exists>(w :: rt world) fs. fmlookup (frames w) 1 \<noteq> None \<and> fn_q (sched w) = map (Some \<circ> rt_call) fs \<and>
    mset (handle_q (sched w)) + mset (concat (map wake_of fs)) +
      image_mset fst (mset (concat (map entry_wake (timer_pending (timer_view (shared w)))))) +
      {# case j of Some (Await_job a h) \<Rightarrow> Some h | _ \<Rightarrow> None. j \<in># jobs_inside (pool_view (shared w)) #} =
    image_mset Some (mset_set {c. \<exists>f. fmlookup (frames w) c = Some f \<and> awaits_resumption f})"
proof -
  have "case rt_run sample_start (replicate 10 Loop) of
      Inl _ \<Rightarrow> False | Inr s \<Rightarrow> cur (rs_world s) = None \<and> fmlookup (frames (rs_world s)) 1 \<noteq> None"
    by code_simp
  then obtain s where s: "rt_run sample_start (replicate 10 Loop) = Inr s" "cur (rs_world s) = None"
    "fmlookup (frames (rs_world s)) 1 \<noteq> None"
    by (cases "rt_run sample_start (replicate 10 Loop)") auto
  from suspended_coroutines_wait_once [OF sample_wf s(1,2) refl] s(3) show ?thesis
by blast
qed

text \<open>
  C22: Nothing is leaked: once all programs have ended, the only frames left are the ones \<open>main\<close> still
  owns, one per program.
\<close>
theorem ended_programs_leave_no_frames:
  assumes "apps_wf ps"
    and "rt_run (rt_start n t0 m ps) es = Inr s"
    and "programs_ended ps s"
  shows "fmdom' (frames (rs_world s)) = {..<length ps}"
proof -
  obtain us where inv: "rt_inv t0 (rs_world s) us" and ids: "idents us = idents (start_units ps)"
    using rt_run_inv [OF rt_start_inv [OF assms(1), of t0 n m], of es] assms(2) by auto
  have "map fst (unit_frames u) = [r_id (fst u)]" if u: "u \<in> set us" for u
  proof -
    obtain th st where th: "u = (th, st)" by (cases u)
    have ok: "thread_wf th" "status_ok (shared (rs_world s)) th st"
      using rt_inv_parts(7) [OF inv u] th by (simp_all add: unit_ok_def)
    obtain g where g: "(r_id th, g) \<in> set (unit_frames u)" "frame_done g \<Longrightarrow> \<exists>x. st = Ended x"
      using root_frame [OF ok] th by metis
    have "(r_id th, r_prog th) \<in># idents us" using u th by (force simp: idents_def)
    then have "r_id th < length ps" by (simp add: ids in_start_idents)
    moreover have "fmlookup (frames (rs_world s)) (r_id th) = Some g"
      using rt_inv_parts(1) [OF inv] u g(1) by (force simp: heap_is_def)
    ultimately obtain x where "st = Ended x" 
      using assms(3) g(2) by (auto dest: programs_endedD)
    with ok show ?thesis by (simp add: th unit_frames_def thread_wf_def thread_root_def)
  qed
  then have names: "map fst (concat (map unit_frames us)) = map (\<lambda>u. r_id (fst u)) us"
    by (simp add: map_concat o_def concat_map_singleton cong: map_cong)
  have roots: "set (map (\<lambda>u. r_id (fst u)) us) = {..<length ps}"
  proof -
    have "image_mset fst (idents us) = image_mset fst (idents (start_units ps))" by (simp add: ids)
    then have "mset (map (\<lambda>u. r_id (fst u)) us) = mset [0..<length ps]"
      by (simp add: idents_def start_units_def image_mset.compositionality o_def)
    from mset_eq_setD [OF this] show ?thesis by auto
  qed
  have "c \<in> fmdom' (frames (rs_world s)) \<longleftrightarrow> c \<in> set (map fst (concat (map unit_frames us)))" for c
  proof -
    have "fmlookup (frames (rs_world s)) c = None \<longleftrightarrow> c \<notin> fst ` set (concat (map unit_frames us))"
      using rt_inv_parts(1) [OF inv] by (simp only: heap_is_def map_of_eq_None_iff)
    then show ?thesis unfolding fmlookup_dom'_iff set_map by (cases "fmlookup (frames (rs_world s)) c") simp_all
  qed
  then show ?thesis unfolding names roots by (intro set_eqI)
qed

theorem ended_programs_leave_no_frames_witness:
  "\<exists>s. rt_run sample_start sample_events = Inr s \<and> fmdom' (frames (rs_world s)) = {0}"
proof -
  obtain s where s: "rt_run sample_start sample_events = Inr s" "programs_ended [sample_program] s"
    by (rule sample_runE)
  from ended_programs_leave_no_frames [OF sample_wf s] s(1) show ?thesis by (auto simp: lessThan_Suc)
qed

end
