(* ===== verification/Async_Progress.thy ===== *)
theory Async_Progress
  imports Async_Refinement "HOL-Library.Infinite_Set"
begin

text \<open>
  Progress of the running program. Under every schedule in which the event loop, the timer thread, each
  worker and the clock get their turn again and again, all programs end, unless the loop is told to stop
  or a deadline overflows.
\<close>

section \<open>Threads advance finitely often\<close>

lemma halts_outcome: "halts (ks, At (outcome_app x))"
proof (induction ks arbitrary: x)
  case Nil
  show ?case by (rule accp.accI) (cases x; auto elim: cfg_atE)
next
  case (Cons k ks)
  have *: "halts (ks, At (k y))" for y by (rule halts_app) (rule Cons.IH)
  show ?case by (rule accp.accI) (use * in \<open>cases x; auto elim: cfg_atE\<close>)
qed

lemma halts_all: "halts (ks, ph)"
proof -
  have at: "halts (ks, At p)" for p by (rule halts_app) (rule halts_outcome)
  have resume: "halts (ks, Sleep_resume dl ct k)" for dl ct k
    by (rule accp.accI) (use at in \<open>auto elim: cfg_resumeE\<close>)
  show ?thesis
  proof (cases ph)
    case (Sleep_suspend d ct k)
    then show ?thesis by - (rule accp.accI, use resume in \<open>auto elim: cfg_suspendE\<close>)
  next
    case (Submit_resume fn v ct k)
    then show ?thesis by - (rule accp.accI, use at in \<open>auto elim: cfg_submitE\<close>)
  next
    case Overflow
    then show ?thesis by - (rule accp.accI, auto elim: cfg_overflowE)
  qed (use at resume in simp_all)
qed

lemma wf_unit_order: "wf unit_order"
proof -
  have "wfp (\<lambda>c' c. cfg_step c c')" by (rule accp_wfpI) (use halts_all in auto)
  then show ?thesis unfolding unit_order_def by (intro wf_inv_image wf_lex_prod wf_less_than) (simp add: wfp_def)
qed

lemma wf_advance: "wfp advance"
proof -
  have "wf (inv_image (mult1 unit_order) mset)" by (intro wf_inv_image wf_mult1 wf_unit_order)
  then show ?thesis by (simp add: wfp_def inv_image_def advance_def [abs_def])
qed

section \<open>Fair schedules\<close>

definition fair :: "nat \<Rightarrow> (nat \<Rightarrow> rt_event) \<Rightarrow> bool" where
  "fair m \<sigma> \<longleftrightarrow>
     infinite {n. \<sigma> n = Loop} \<and> infinite {n. \<sigma> n = Timer_thread} \<and>
     (\<forall>t < m. infinite {n. \<sigma> n = Pool_takes t} \<and> infinite {n. \<sigma> n = Pool_starts t} \<and>
        infinite {n. \<sigma> n = Pool_finishes t}) \<and>
     infinite {n. \<exists>d > 0. \<sigma> n = Time_passes d}"

lemma leads_to:
  fixes n :: nat
  assumes "infinite {n. E n}" and "P n" "k \<le> n" and step: "\<And>n. k \<le> n \<Longrightarrow> P n \<Longrightarrow> \<not> E n \<Longrightarrow> P (Suc n)"
  obtains n' where "n \<le> n'" "P n'" "E n'"
proof -
  have "\<exists>i. E (n + i)"
    using assms(1) unfolding infinite_nat_iff_unbounded_le by (metis le_Suc_ex mem_Collect_eq)
  define i where "i = (LEAST i. E (n + i))"
  have "E (n + i)" using LeastI_ex [OF \<open>\<exists>i. E (n + i)\<close>] by (simp add: i_def)
  moreover have "P (n + j)" if "j \<le> i" for j
    using that
  proof (induction j)
    case (Suc j)
    then have "\<not> E (n + j)" using not_less_Least [of j "\<lambda>i. E (n + i)"] by (simp add: i_def)
    with Suc step [of "n + j"] assms(3) show ?case by simp
  qed (use assms(2) in simp)
  ultimately show thesis using that [of "n + i"] by simp
qed

text \<open>An execution in which no thread ever advances again.\<close>

definition stuck :: "time_point \<Rightarrow> (nat \<Rightarrow> rt_system) \<Rightarrow> (nat \<Rightarrow> rt_event) \<Rightarrow> nat \<Rightarrow> unit_of list \<Rightarrow> bool" where
  "stuck t0 S \<sigma> k us \<longleftrightarrow>
     (\<forall>n \<ge> k. rt_step (S n) (\<sigma> n) = Inr (S (Suc n)) \<and> \<not> rs_left (S n) \<and> rt_inv t0 (rs_world (S n)) us \<and>
        (\<forall>us'. rt_inv t0 (rs_world (S n)) us' \<and> idents us' = idents us \<longrightarrow> \<not> advance us' us))"

lemma stuckD:
  assumes "stuck t0 S \<sigma> k us" "k \<le> n"
  shows "rt_step (S n) (\<sigma> n) = Inr (S (Suc n))" "\<not> rs_left (S n)" "rt_inv t0 (rs_world (S n)) us"
    "\<And>us'. rt_inv t0 (rs_world (S (Suc n))) us' \<Longrightarrow> idents us' = idents us \<Longrightarrow> \<not> advance us' us"
    "S (Suc n) = projr (rt_step (S n) (\<sigma> n))"
proof -
  show step: "rt_step (S n) (\<sigma> n) = Inr (S (Suc n))" "\<not> rs_left (S n)" "rt_inv t0 (rs_world (S n)) us"
    and "\<And>us'. rt_inv t0 (rs_world (S (Suc n))) us' \<Longrightarrow> idents us' = idents us \<Longrightarrow> \<not> advance us' us"
    using assms(1,2) le_SucI [OF assms(2)] unfolding stuck_def by blast+
  show "S (Suc n) = projr (rt_step (S n) (\<sigma> n))" by (simp add: step)
qed

lemma rt_loop_step_busy:
  assumes "\<not> rs_left s" "cur (rs_world s) \<noteq> None \<or> handle_q (sched (rs_world s)) \<noteq> [] \<or> fn_q (sched (rs_world s)) \<noteq> []"
    and "rt_loop_step s = Inr s'"
  shows "world_step (rs_world s) = Inr (rs_world s')"
proof -
  have "\<not> (cur (rs_world s) = None \<and> fst (scheduler_pick (sched (rs_world s))) = Leave_loop)"
    using assms(2) by (cases rule: scheduler_pick_cases [of "sched (rs_world s)"]) auto
  with assms(1,3) show ?thesis by (auto simp: rt_loop_step_def split: sum.splits if_splits)
qed

text \<open>The event loop then only calls printing callbacks.\<close>

lemma stuck_loop:
  assumes stuck: "stuck t0 S \<sigma> k us" and n: "k \<le> n" and loop: "\<sigma> n = Loop"
  shows "cur (rs_world (S n)) = None" "handle_q (sched (rs_world (S n))) = []"
    and "fn_q (sched (rs_world (S n))) = [] \<and> rs_world (S (Suc n)) = rs_world (S n) \<or>
      callback_prints (rs_world (S n)) (rs_world (S (Suc n)))"
proof -
  let ?w = "rs_world (S n)"
  note facts = stuckD [OF stuck n]
  have never: "\<not> next_ok t0 ?w us" if busy: "cur ?w \<noteq> None \<or> handle_q (sched ?w) \<noteq> [] \<or> fn_q (sched ?w) \<noteq> []"
  proof
    assume "next_ok t0 ?w us"
    then obtain us' where "rt_inv t0 (rs_world (S (Suc n))) us'" "idents us' = idents us" "advance us' us"
      using rt_loop_step_busy [OF facts(2) busy, of "S (Suc n)"] facts(1) loop by (auto simp: next_ok_def)
    with facts(4) show False by blast
  qed
  show idle: "cur ?w = None" using never step_executing [OF facts(3)] by (cases "cur ?w") auto
  show handles: "handle_q (sched ?w) = []"
    using never step_resumes [OF facts(3) idle] by (cases "handle_q (sched ?w)") auto
  show "fn_q (sched ?w) = [] \<and> rs_world (S (Suc n)) = ?w \<or> callback_prints ?w (rs_world (S (Suc n)))"
  proof (cases "fn_q (sched ?w)")
    case Nil
    with idle handles facts(2) loop loop_step_idle [OF idle handles Nil] show ?thesis
      by (simp add: facts(5) rt_loop_step_def)
  next
    case (Cons f fs)
    then have "world_step ?w = Inr (rs_world (S (Suc n)))"
      using rt_loop_step_busy [OF facts(2), of "S (Suc n)"] facts(1) loop by simp
    with never loop_step_progress [OF facts(3)] Cons show ?thesis by auto
  qed
qed

lemma stuck_units:
  assumes stuck: "stuck t0 S \<sigma> k us" and "infinite {n. \<sigma> n = Loop}"
  shows "\<forall>u \<in> set us. \<not> executing (snd u) \<and> \<not> is_queued (snd u)"
proof -
  obtain n where n: "k \<le> n" "\<sigma> n = Loop" by (rule leads_to [OF assms(2), of "\<lambda>_. True" k k]) simp_all
  note idle = stuck_loop [OF stuck n] note inv = stuckD(3) [OF stuck n(1)]
  have "\<not> is_queued (snd u)" if "u \<in> set us" for u
    using rt_inv_parts(3) [OF inv] idle(2) that in_units [of "Some (top_of u)" is_queued "\<lambda>u. Some (top_of u)" us]
    by (auto simp: queues_ok_def)
  with idle_units [OF inv idle(1)] show ?thesis by blast
qed

text \<open>What one step of a stuck execution can change.\<close>

lemma stuck_loop_shared:
  assumes "stuck t0 S \<sigma> k us" "k \<le> n" "\<sigma> n = Loop"
  obtains ls where "shared (rs_world (S (Suc n))) = (shared (rs_world (S n)))\<lparr>rt_out := ls\<rparr>"
proof -
  from stuck_loop(3) [OF assms] show thesis
  proof (elim disjE conjE)
    assume "rs_world (S (Suc n)) = rs_world (S n)"
    then show thesis by (intro that [of "rt_out (shared (rs_world (S n)))"]) simp
  next
    assume "callback_prints (rs_world (S n)) (rs_world (S (Suc n)))"
    then show thesis by (auto simp: callback_prints_def intro: that)
  qed
qed

section \<open>No thread waits for ever\<close>

subsection \<open>For the event loop\<close>

definition wakes_at :: "nat \<Rightarrow> rt world \<Rightarrow> bool" where
  "wakes_at i w \<longleftrightarrow> (\<exists>fs h. fn_q (sched w) = map (Some \<circ> rt_call) fs \<and> i < length fs \<and> fs ! i = Wake h)"

lemma wakes_at_append:
  "wakes_at i w \<Longrightarrow> fn_q (sched w') = fn_q (sched w) @ map (Some \<circ> rt_call) gs \<Longrightarrow> wakes_at i w'"
  unfolding wakes_at_def by (metis (no_types, lifting) length_append map_append nth_append trans_less_add1)

lemma post_all_fn_q [simp]: "fn_q (post_all hs s) = fn_q s"
  by (induction hs arbitrary: s) (simp_all add: post_all_def async_ops)

lemma fold_post_fn:
  "handle_q (fold (\<lambda>f. scheduler_post_fn (g f)) fs s) = handle_q s"
  "fn_q (fold (\<lambda>f. scheduler_post_fn (g f)) fs s) = fn_q s @ map g fs"
  by (induction fs arbitrary: s) simp_all

lemma timer_posts_fn_q:
  assumes "rt_inv t0 w us"
  obtains gs where "fn_q (sched (rt_timer_step w)) = fn_q (sched w) @ map (Some \<circ> rt_call) gs" "length gs \<le> 1"
proof -
  have "\<exists>gs. fn_q (tctx (timer_event_step (timer_view (shared w)) Worker_step)) = map Some gs \<and> length gs \<le> 1"
    by (rule timer_thread_cases(2) [OF rt_inv_parts(4) [OF assms]])
      (force intro: exI [of _ "[]"], metis One_nat_def le_refl length_Cons list.simps(8,9) list.size(3))
  then show thesis
    by (auto simp: rt_timer_step_def Let_def fold_post_fn comp_def intro: that)
qed

lemma wakes_at_waits:
  assumes stuck: "stuck t0 S \<sigma> k us" and n: "k \<le> n" and at: "wakes_at i (rs_world (S n))" and "\<sigma> n \<noteq> Loop"
  shows "wakes_at i (rs_world (S (Suc n)))"
proof -
  note facts = stuckD [OF stuck n]
  have "\<exists>gs. fn_q (sched (rs_world (S (Suc n)))) = fn_q (sched (rs_world (S n))) @ map (Some \<circ> rt_call) gs"
  proof (cases "\<sigma> n")
    case Timer_thread
    then have "rs_world (S (Suc n)) = rt_timer_step (rs_world (S n))" by (simp add: facts(5))
    then show ?thesis using timer_posts_fn_q [OF facts(3)] by metis
  qed (use assms(4) in \<open>auto simp: facts(5) rt_pool_step_def Let_def intro!: exI [of _ "[]"]\<close>)
  with at show ?thesis by (auto intro: wakes_at_append)
qed

lemma wakes_at_moves:
  assumes stuck: "stuck t0 S \<sigma> k us" and n: "k \<le> n" and at: "wakes_at i (rs_world (S n))" and loop: "\<sigma> n = Loop"
  shows "0 < i \<and> wakes_at (i - 1) (rs_world (S (Suc n)))"
proof -
  let ?w = "rs_world (S n)" let ?w' = "rs_world (S (Suc n))"
  note idle = stuck_loop [OF stuck n loop] note facts = stuckD [OF stuck n]
  obtain fs h where fs: "fn_q (sched ?w) = map (Some \<circ> rt_call) fs" "i < length fs" "fs ! i = Wake h"
    using at by (auto simp: wakes_at_def)
  then have "fn_q (sched ?w) \<noteq> []" by auto
  then have prints: "callback_prints ?w ?w'" and step: "world_step ?w = Inr ?w'"
    using idle(3) rt_loop_step_busy [OF facts(2), of "S (Suc n)"] facts(1) loop by auto
  have "i \<noteq> 0"
  proof
    assume "i = 0"
    with fs obtain gs where "fn_q (sched ?w) = Some (rt_call (Wake h)) # gs" by (cases fs) auto
    with idle(1,2) obtain s' where "world_step ?w = Inr (?w\<lparr>sched := s'\<rparr>)"
      by (simp add: world_step_def loop_step_def scheduler_pick_def scheduler_wait_pred_def scheduler_select_def sleep_job_def)
    with step have "?w' = ?w\<lparr>sched := s'\<rparr>" by simp
    then have "shared ?w' = shared ?w" by simp
    moreover have "length (rt_out (shared ?w')) = Suc (length (rt_out (shared ?w)))"
      using prints by (auto simp: callback_prints_def)
    ultimately show False by simp
  qed
  moreover have "fn_q (sched ?w') = map (Some \<circ> rt_call) (tl fs)"
    using prints fs(1) by (auto simp: callback_prints_def map_tl)
  ultimately show ?thesis using fs by (auto simp: wakes_at_def nth_tl intro!: exI [of _ "tl fs"])
qed

lemma stuck_no_wake:
  assumes stuck: "stuck t0 S \<sigma> k us" and "infinite {n. \<sigma> n = Loop}" and "k \<le> n"
  shows "\<not> wakes_at i (rs_world (S n))"
  using assms(3)
proof (induction i arbitrary: n rule: less_induct)
  case (less i)
  show ?case
  proof
    assume "wakes_at i (rs_world (S n))"
    then obtain n' where n': "n \<le> n'" "wakes_at i (rs_world (S n'))" "\<sigma> n' = Loop"
      using wakes_at_waits [OF stuck] less.prems by - (rule leads_to [OF assms(2)])
    have "k \<le> n'" using less.prems n'(1) by simp
    from wakes_at_moves [OF stuck this n'(2,3)] less.IH [of "i - 1" "Suc n'"] \<open>k \<le> n'\<close> show False by simp
  qed
qed

lemma stuck_not_waking:
  assumes stuck: "stuck t0 S \<sigma> k us" and "infinite {n. \<sigma> n = Loop}" "u \<in> set us"
  shows "snd u \<noteq> Waking"
proof
  assume "snd u = Waking"
  obtain fs where fs: "fn_q (sched (rs_world (S k))) = map (Some \<circ> rt_call) fs"
    "mset (concat (map wake_of fs)) = units ((=) Waking) (\<lambda>u. Some (top_of u)) us"
    using rt_inv_parts(3) [OF stuckD(3) [OF stuck order_refl]] by (auto simp: queues_ok_def)
  have "Some (top_of u) \<in># units ((=) Waking) (\<lambda>u. Some (top_of u)) us"
    using assms(3) \<open>snd u = Waking\<close> unfolding in_units by (intro bexI [of _ u]) simp_all
  then have "Some (top_of u) \<in> set (concat (map wake_of fs))" unfolding fs(2) [symmetric] by simp
  then obtain f where "f \<in> set fs" "f = Wake (Some (top_of u))" by (auto simp: wake_of_def split: rt_fn.splits)
  then obtain i where "i < length fs" "fs ! i = Wake (Some (top_of u))" by (auto simp: in_set_conv_nth)
  with fs(1) have "wakes_at i (rs_world (S k))" by (auto simp: wakes_at_def)
  with stuck_no_wake [OF stuck assms(2) order_refl] show False by blast
qed

subsection \<open>For a worker\<close>

lemma stuck_jobs:
  assumes stuck: "stuck t0 S \<sigma> k us" and n: "k \<le> n"
  defines "r \<equiv> shared (rs_world (S n))" and "r' \<equiv> shared (rs_world (S (Suc n)))"
  shows "length (rt_jobs r') = length (rt_jobs r)"
    and "\<sigma> n \<noteq> Pool_finishes t \<Longrightarrow> t < length (rt_jobs r) \<Longrightarrow> rt_jobs r ! t \<noteq> None \<Longrightarrow>
      rt_jobs r' ! t \<noteq> None \<and> (rt_started r t \<or> \<sigma> n = Pool_starts t \<longrightarrow> rt_started r' t)"
proof -
  note facts = stuckD [OF stuck n]
  have loop: "rt_jobs r' = rt_jobs r \<and> rt_started r' = rt_started r" if "\<sigma> n = Loop"
    using stuck_loop_shared [OF stuck n that] unfolding r_def r'_def by (metis rt.ext_inject rt.surjective rt.update_convs(10))
  show "length (rt_jobs r') = length (rt_jobs r)"
    using loop pool_step_keeps(2) [of "Worker_take _" _ r] pool_step_keeps(2) [of "Worker_start _" _ r]
      pool_step_keeps(2) [of "Worker_finish _" _ r]
    by (cases "\<sigma> n")
      (auto simp: r'_def r_def facts(5) rt_timer_step_def rt_pool_step_def Let_def simp del: pool_step.simps)
  show "rt_jobs r' ! t \<noteq> None \<and> (rt_started r t \<or> \<sigma> n = Pool_starts t \<longrightarrow> rt_started r' t)"
    if "\<sigma> n \<noteq> Pool_finishes t" "t < length (rt_jobs r)" "rt_jobs r ! t \<noteq> None"
  proof (cases "\<sigma> n")
    case (Pool_takes t')
    with that show ?thesis
      by (auto simp: r'_def r_def facts(5) rt_pool_step_def Let_def pool_view_def pool_take_def nth_list_update
          split: list.splits if_splits)
  next
    case (Pool_starts t')
    with that show ?thesis
      by (auto simp: r'_def r_def facts(5) rt_pool_step_def Let_def pool_view_def)
  next
    case (Pool_finishes t')
    with that show ?thesis
      by (auto simp: r'_def r_def facts(5) rt_pool_step_def Let_def pool_view_def)
  qed (use that loop in \<open>auto simp: r'_def r_def facts(5) rt_timer_step_def Let_def\<close>)
qed

lemma stuck_workers_idle:
  assumes stuck: "stuck t0 S \<sigma> k us" and fair: "fair m \<sigma>"
    and m: "length (rt_jobs (shared (rs_world (S k)))) = m" and n: "k \<le> n" and t: "t < m"
  shows "length (rt_jobs (shared (rs_world (S n)))) = m" "rt_jobs (shared (rs_world (S n))) ! t = None"
proof -
  have len: "length (rt_jobs (shared (rs_world (S n)))) = m" if "k \<le> n" for n
    using that m stuck_jobs(1) [OF stuck] by (induction n rule: dec_induct) auto
  then show "length (rt_jobs (shared (rs_world (S n)))) = m" using n .
  show "rt_jobs (shared (rs_world (S n))) ! t = None"
  proof (rule ccontr)
    define busy where "busy n \<longleftrightarrow> rt_jobs (shared (rs_world (S n))) ! t \<noteq> None" for n
    define started where "started n \<longleftrightarrow> busy n \<and> rt_started (shared (rs_world (S n))) t" for n
    have fin: False if "k \<le> n'" "started n'" "\<sigma> n' = Pool_finishes t" for n'
      by (rule pool_finishes_job [OF stuckD(3) [OF stuck that(1)], of t])
        (use that len [OF that(1)] t stuckD(4,5) [OF stuck that(1)] in \<open>auto simp: busy_def started_def\<close>)
    have keeps: "busy (Suc n) \<and> (started n \<or> \<sigma> n = Pool_starts t \<longrightarrow> started (Suc n))"
      if "k \<le> n" "busy n" "\<sigma> n \<noteq> Pool_finishes t" for n
      using stuck_jobs(2) [OF stuck that(1,3)] that(2) len [OF that(1)] t unfolding busy_def started_def by blast
    assume "rt_jobs (shared (rs_world (S n))) ! t \<noteq> None"
    then have "busy n" by (simp add: busy_def)
    have inf: "infinite {n. \<sigma> n = Pool_starts t}" "infinite {n. \<sigma> n = Pool_finishes t}"
      using fair t by (simp_all add: fair_def)
    have "busy (Suc n)" if "k \<le> n" "busy n" "\<sigma> n \<noteq> Pool_starts t" for n
    proof (cases "\<sigma> n = Pool_finishes t \<and> \<not> started n")
      case True
      with that have "rt_jobs (shared (rs_world (S (Suc n)))) = rt_jobs (shared (rs_world (S n)))"
        by (simp add: stuckD(5) [OF stuck that(1)] rt_pool_step_def Let_def pool_view_def started_def)
      with that(2) show ?thesis by (simp add: busy_def)
    qed (use keeps [OF that(1,2)] fin [OF that(1)] in blast)
    from leads_to [OF inf(1) \<open>busy n\<close> n this] obtain n1 where n1: "n \<le> n1" "busy n1" "\<sigma> n1 = Pool_starts t" .
    then have "started (Suc n1)" "k \<le> Suc n1" using keeps [of n1] n by simp_all
    moreover have "started (Suc n)" if "k \<le> n" "started n" "\<sigma> n \<noteq> Pool_finishes t" for n
      using keeps [OF that(1) _ that(3)] that(2) by (auto simp: started_def)
    ultimately obtain n2 where "Suc n1 \<le> n2" "started n2" "\<sigma> n2 = Pool_finishes t"
      using leads_to [OF inf(2), of started "Suc n1" k] by blast
    with fin [of n2] \<open>k \<le> Suc n1\<close> show False by simp
  qed
qed

lemma stuck_not_submitted:
  assumes stuck: "stuck t0 S \<sigma> k us" and fair: "fair m \<sigma>"
    and m: "length (rt_jobs (shared (rs_world (S k)))) = m" and u: "u \<in> set us"
  shows "snd u \<noteq> Submitted"
proof
  assume sub: "snd u = Submitted"
  have "0 < m" using rt_inv_parts(5) [OF stuckD(3) [OF stuck order_refl]] m by (auto simp: pool_ok_def)
  then have "infinite {n. \<sigma> n = Pool_takes 0}" using fair by (simp add: fair_def)
  then obtain n where n: "k \<le> n" "\<sigma> n = Pool_takes 0"
    by (rule leads_to [of _ "\<lambda>_. True" k k]) simp_all
  let ?r = "shared (rs_world (S n))"
  note facts = stuckD [OF stuck n(1)] note idle = stuck_workers_idle [OF stuck fair m]
  note pool = rt_inv_parts(5) [OF facts(3), unfolded pool_ok_def]
  have "rt_jobs ?r = replicate m None" using idle [OF n(1)] \<open>0 < m\<close> by (auto intro: nth_equalityI)
  then have none: "present (rt_jobs ?r) = {#}" by simp
  have "(Some (Await_job (top_of u) (top_of u)) :: rt_fn job func) \<in># units ((=) Submitted) (\<lambda>u. Some (Await_job (top_of u) (top_of u))) us"
    using u sub unfolding in_units by (intro bexI [of _ u]) simp_all
  then have "pool_q (rt_pool ?r) \<noteq> []" using pool none by auto
  then obtain j q where q: "pool_q (rt_pool ?r) = Some j # q" 
    using pool by (metis list.exhaust list.set_intros(1) option.exhaust)
  have "rt_jobs (shared (rs_world (S (Suc n)))) ! 0 = Some j"
    using q n(2) idle [OF n(1) \<open>0 < m\<close>] \<open>0 < m\<close> pool
    by (simp add: facts(5) rt_pool_step_def Let_def pool_view_def pool_wait_pred_def pool_take_def)
  with idle(2) [of "Suc n" 0] n(1) \<open>0 < m\<close> show False by simp
qed

subsection \<open>For the timer\<close>

abbreviation pending_at :: "rt_system \<Rightarrow> rt_fn entry list" where
  "pending_at s \<equiv> timer_pending (timer_view (shared (rs_world s)))"

lemma timer_step_pending:
  assumes "rt_inv t0 w us"
  shows "set (timer_pending (timer_view (shared (rt_timer_step w)))) \<subseteq> set (timer_pending (timer_view (shared w)))"
proof -
  let ?v = "timer_event_step (timer_view (shared w)) Worker_step"
  have "timer_pending (timer_view (shared (rt_timer_step w))) = timer_pending ?v"
    by (simp add: rt_timer_step_def Let_def timer_pending_def [of ?v] del: timer_event_step.simps)
  moreover have "set (timer_pending ?v) \<subseteq> set (timer_pending (timer_view (shared w)))"
    by (rule timer_thread_cases(2) [OF rt_inv_parts(4) [OF assms]])
      (metis mset_eq_setD subset_refl, metis set_mset_add_mset_insert set_mset_mset subset_insertI)
  ultimately show ?thesis by simp
qed

lemma stuck_timer:
  assumes stuck: "stuck t0 S \<sigma> k us" and n: "k \<le> n"
  defines "r \<equiv> shared (rs_world (S n))" and "r' \<equiv> shared (rs_world (S (Suc n)))"
  shows "\<sigma> n \<noteq> Timer_thread \<Longrightarrow> rt_timer r' = rt_timer r \<and> rt_worker r' = rt_worker r"
    and "set (pending_at (S (Suc n))) \<subseteq> set (pending_at (S n))"
    and "rt_now r' = rt_now r + (case \<sigma> n of Time_passes d \<Rightarrow> max 0 d | _ \<Rightarrow> 0)"
    and "rt_now r \<le> rt_now r'"
proof -
  note facts = stuckD [OF stuck n]
  have loop: "rt_timer r' = rt_timer r \<and> rt_worker r' = rt_worker r \<and> rt_now r' = rt_now r" if "\<sigma> n = Loop"
    by (rule stuck_loop_shared [OF stuck n that]) (simp add: r_def r'_def)
  show same: "\<sigma> n \<noteq> Timer_thread \<Longrightarrow> rt_timer r' = rt_timer r \<and> rt_worker r' = rt_worker r"
    using loop by (cases "\<sigma> n") (auto simp: r'_def r_def facts(5) rt_pool_step_def Let_def)
  show now: "rt_now r' = rt_now r + (case \<sigma> n of Time_passes d \<Rightarrow> max 0 d | _ \<Rightarrow> 0)"
    using loop by (cases "\<sigma> n") (auto simp: r'_def r_def facts(5) rt_pool_step_def rt_timer_step_def Let_def)
  then show "rt_now r \<le> rt_now r'" by (simp split: rt_event.splits)
  show "set (pending_at (S (Suc n))) \<subseteq> set (pending_at (S n))"
  proof (cases "\<sigma> n = Timer_thread")
    case True
    then show ?thesis using timer_step_pending [OF facts(3)] by (simp add: facts(5))
  qed (use same in \<open>simp add: r_def r'_def\<close>)
qed

lemma stuck_time_passes:
  assumes stuck: "stuck t0 S \<sigma> k us" and fair: "fair m \<sigma>"
  shows "\<exists>n \<ge> k. rt_now (shared (rs_world (S k))) + int j \<le> rt_now (shared (rs_world (S n)))"
proof (induction j)
  case (Suc j)
  then obtain n where n: "k \<le> n" "rt_now (shared (rs_world (S k))) + int j \<le> rt_now (shared (rs_world (S n)))"
    by blast
  have "infinite {n. \<exists>d > 0. \<sigma> n = Time_passes d}" using fair by (simp add: fair_def)
  moreover note n(2,1)
  moreover have "rt_now (shared (rs_world (S k))) + int j \<le> rt_now (shared (rs_world (S (Suc n))))"
    if "k \<le> n" "rt_now (shared (rs_world (S k))) + int j \<le> rt_now (shared (rs_world (S n)))" for n
    using stuck_timer(4) [OF stuck that(1)] that(2) by linarith
  ultimately obtain n' where n': "n \<le> n'" "\<exists>d > 0. \<sigma> n' = Time_passes d"
    and "rt_now (shared (rs_world (S k))) + int j \<le> rt_now (shared (rs_world (S n')))"
    by (rule leads_to)
  moreover from n'(2) obtain d where "0 < d" "\<sigma> n' = Time_passes d" by blast
  ultimately show ?case using n(1) stuck_timer(3) [OF stuck, of n'] by (intro exI [of _ "Suc n'"]) simp
qed auto

lemma stuck_all_due:
  assumes stuck: "stuck t0 S \<sigma> k us" and fair: "fair m \<sigma>"
  shows "\<exists>n0 \<ge> k. \<forall>n \<ge> n0. \<forall>e \<in> set (pending_at (S n)). entry_when e \<le> rt_now (shared (rs_world (S n)))"
proof -
  let ?now = "\<lambda>n. rt_now (shared (rs_world (S n)))"
  define d where "d = Max (insert 0 ((\<lambda>e. nat (entry_when e - ?now k)) ` set (pending_at (S k))))"
  have late: "entry_when e \<le> ?now k + int d" if "e \<in> set (pending_at (S k))" for e
  proof -
    have "nat (entry_when e - ?now k) \<le> d" unfolding d_def using that by (intro Max_ge) simp_all
    then show ?thesis by linarith
  qed
  obtain n0 where n0: "k \<le> n0" "?now k + int d \<le> ?now n0" using stuck_time_passes [OF stuck fair] by blast
  have fewer: "set (pending_at (S n)) \<subseteq> set (pending_at (S k))" if "k \<le> n" for n
    using that stuck_timer(2) [OF stuck] by (induction n rule: dec_induct) blast+
  have later: "?now n0 \<le> ?now n" if "n0 \<le> n" for n
    using that n0(1) stuck_timer(4) [OF stuck] by (induction n rule: dec_induct) (auto intro: order_trans)
  show ?thesis
  proof (intro exI [of _ n0] conjI allI impI ballI n0(1))
    fix n e
    assume "n0 \<le> n" "e \<in> set (pending_at (S n))"
    with late [of e] fewer [of n] later [of n] n0 show "entry_when e \<le> ?now n" by (meson order_trans subsetD)
  qed
qed

lemma stuck_not_sleeping:
  assumes stuck: "stuck t0 S \<sigma> k us" and fair: "fair m \<sigma>" and u: "u \<in> set us"
  shows "snd u \<noteq> Sleeping"
proof
  assume sleeping: "snd u = Sleeping"
  obtain n0 where n0: "k \<le> n0"
    and due: "\<forall>n \<ge> n0. \<forall>e \<in> set (pending_at (S n)). entry_when e \<le> rt_now (shared (rs_world (S n)))"
    using stuck_all_due [OF stuck fair] by blast
  let ?view = "\<lambda>n. timer_view (shared (rs_world (S n)))"
  have inf: "infinite {n. \<sigma> n = Timer_thread}" using fair by (simp add: fair_def)
  have "False" if "n0 \<le> n" for n
    using that
  proof (induction "worker_weight (?view n)" arbitrary: n rule: less_induct)
    case less
    have wait: "worker_weight (?view (Suc i)) = worker_weight (?view n)"
      if "n0 \<le> i" "worker_weight (?view i) = worker_weight (?view n)" "\<sigma> i \<noteq> Timer_thread" for i
      using stuck_timer(1) [OF stuck, of i] that n0 by (simp add: worker_weight_def timer_view_def)
    obtain n' where n': "n \<le> n'" "worker_weight (?view n') = worker_weight (?view n)" "\<sigma> n' = Timer_thread"
      using leads_to [OF inf, of "\<lambda>i. worker_weight (?view i) = worker_weight (?view n)" n n0] wait less.prems by blast
    have "k \<le> n'" "n0 \<le> n'" using n0 less.prems n'(1) by simp_all
    note facts = stuckD [OF stuck this(1)]
    note ok = rt_inv_parts(4) [OF facts(3), unfolded timer_ok_def]
    have "(Some (top_of u), deadline u) \<in># units ((=) Sleeping) (\<lambda>u. (Some (top_of u), deadline u)) us"
      using u sleeping unfolding in_units by (intro bexI [of _ u]) simp_all
    then have "pending_at (S n') \<noteq> []" using ok by auto
    then have "worker_weight (timer_event_step (?view n') Worker_step) < worker_weight (?view n')"
      using due \<open>n0 \<le> n'\<close> ok by (intro due_worker_step(1)) (simp_all add: timer_view_def)
    moreover have "worker_weight (?view (Suc n')) = worker_weight (timer_event_step (?view n') Worker_step)"
      using n'(3) by (simp add: facts(5) rt_timer_step_def Let_def worker_weight_def timer_view_def del: timer_event_step.simps)
    ultimately show False using less.hyps [of "Suc n'"] n'(2) \<open>n0 \<le> n'\<close> by simp
  qed
  then show False by blast
qed

section \<open>Fair executions\<close>

lemma stuck_ended:
  assumes "stuck t0 S \<sigma> k us" "fair m \<sigma>" "length (rt_jobs (shared (rs_world (S k)))) = m" "u \<in> set us"
  shows "\<exists>x. snd u = Ended x"
proof -
  have loop: "infinite {n. \<sigma> n = Loop}" using assms(2) by (simp add: fair_def)
  have "\<not> executing (snd u)" "\<not> is_queued (snd u)" using stuck_units [OF assms(1) loop] assms(4) by simp_all
  with stuck_not_waking [OF assms(1) loop assms(4)] stuck_not_submitted [OF assms] stuck_not_sleeping [OF assms(1,2,4)]
  show ?thesis by (cases "snd u") simp_all
qed

lemma rt_step_workers:
  assumes inv: "rt_inv t0 (rs_world s) us" and step: "rt_step s e = Inr s'"
  shows "length (rt_jobs (shared (rs_world s'))) = length (rt_jobs (shared (rs_world s)))"
proof (cases e)
  case Loop
  show ?thesis
  proof (cases "\<not> rs_left s \<and>
      (cur (rs_world s) \<noteq> None \<or> handle_q (sched (rs_world s)) \<noteq> [] \<or> fn_q (sched (rs_world s)) \<noteq> [])")
    case True
    then have "world_step (rs_world s) = Inr (rs_world s')" using rt_loop_step_busy [of s s'] step Loop by simp
    with loop_step_progress [OF inv] True show ?thesis by (auto simp: next_ok_def callback_prints_def)
  next
    case False
    then have "rs_left s \<or> world_step (rs_world s) = Inr (rs_world s)" using loop_step_idle [of "rs_world s"] by blast
    with step Loop show ?thesis by (auto simp: rt_loop_step_def split: if_splits)
  qed
next
  case (Pool_takes t)
  with step pool_step_keeps(2) [of "Worker_take t" t "shared (rs_world s)"] show ?thesis
    by (auto simp: rt_pool_step_def Let_def simp del: pool_step.simps)
next
  case (Pool_starts t)
  with step pool_step_keeps(2) [of "Worker_start t" t "shared (rs_world s)"] show ?thesis
    by (auto simp: rt_pool_step_def Let_def simp del: pool_step.simps)
next
  case (Pool_finishes t)
  with step pool_step_keeps(2) [of "Worker_finish t" t "shared (rs_world s)"] show ?thesis
    by (auto simp: rt_pool_step_def Let_def simp del: pool_step.simps)
qed (use step in \<open>auto simp: rt_timer_step_def Let_def\<close>)

text \<open>The states of an infinite execution that never leaves.\<close>

definition executes :: "(nat \<Rightarrow> rt_system) \<Rightarrow> (nat \<Rightarrow> rt_event) \<Rightarrow> bool" where
  "executes S \<sigma> \<longleftrightarrow> (\<forall>n. rt_step (S n) (\<sigma> n) = Inr (S (Suc n)) \<and> \<not> rs_left (S n))"

lemma executes_stuck:
  assumes run: "executes S \<sigma>" and inv: "rt_inv t0 (rs_world (S k)) us"
    and never: "\<And>n us'. k \<le> n \<Longrightarrow> rt_inv t0 (rs_world (S n)) us' \<Longrightarrow> idents us' = idents us \<Longrightarrow> \<not> advance us' us"
  shows "stuck t0 S \<sigma> k us"
proof -
  have "rt_inv t0 (rs_world (S n)) us" if "k \<le> n" for n
    using that
  proof (induction n rule: dec_induct)
    case (step n)
    have "keeps_ok t0 us (Inr (S (Suc n)))" using rt_step_inv [OF step.IH, of "\<sigma> n"] run by (simp add: executes_def)
    with never [of "Suc n"] step.hyps show ?case by (auto simp: keeps_ok_def)
  qed (rule inv)
  with run never show ?thesis by (auto simp: stuck_def executes_def)
qed

lemma executes_workers:
  assumes run: "executes S \<sigma>" and inv: "rt_inv t0 (rs_world (S k)) us" and "k \<le> n"
  shows "length (rt_jobs (shared (rs_world (S n)))) = length (rt_jobs (shared (rs_world (S k)))) \<and>
    (\<exists>us'. rt_inv t0 (rs_world (S n)) us')"
  using assms(3)
proof (induction n rule: dec_induct)
  case (step n)
  then obtain us' where inv': "rt_inv t0 (rs_world (S n)) us'" by blast
  have "rt_step (S n) (\<sigma> n) = Inr (S (Suc n))" using run by (simp add: executes_def)
  with rt_step_workers [OF inv'] rt_step_inv [OF inv', of "\<sigma> n"] step.IH show ?case
    by (auto simp: keeps_ok_def)
qed (use inv in blast)

lemma executes_ends:
  assumes run: "executes S \<sigma>" and fair: "fair m \<sigma>"
    and "rt_inv t0 (rs_world (S k)) us" "length (rt_jobs (shared (rs_world (S k)))) = m"
  shows "\<exists>n us'. rt_inv t0 (rs_world (S n)) us' \<and> idents us' = idents us \<and> (\<forall>u \<in> set us'. \<exists>x. snd u = Ended x)"
  using assms(3,4)
proof (induction us arbitrary: k rule: wfp_induct_rule [OF wf_advance])
  case (1 us)
  show ?case
  proof (cases "\<exists>n us'. k \<le> n \<and> rt_inv t0 (rs_world (S n)) us' \<and> idents us' = idents us \<and> advance us' us")
    case True
    then obtain n us' where n: "k \<le> n" "rt_inv t0 (rs_world (S n)) us'" "idents us' = idents us" "advance us' us"
      by blast
    with executes_workers [OF run 1(2) n(1)] 1(3) have "length (rt_jobs (shared (rs_world (S n)))) = m" by simp
    with 1(1) [OF n(4,2)] n(3) show ?thesis by simp
  next
    case False
    then have "stuck t0 S \<sigma> k us" using executes_stuck [OF run 1(2)] by blast
    from stuck_ended [OF this fair 1(3)] 1(2) show ?thesis by blast
  qed
qed

lemma rt_run_snoc:
  "rt_run s (es @ [e]) = (case rt_run s es of Inl u \<Rightarrow> Inl u | Inr s' \<Rightarrow> rt_step s' e)"
  by (induction es arbitrary: s) (auto split: sum.splits)

lemma post_fn_stop_flag: "stop_flag (fold (\<lambda>f. scheduler_post_fn (g f)) fs s) = stop_flag s"
  by (induction fs arbitrary: s) (simp_all add: async_ops)

lemma post_all_stop_flag: "stop_flag (post_all hs s) = stop_flag s"
  by (induction hs arbitrary: s) (simp_all add: post_all_def async_ops)

lemma rt_step_left:
  assumes "rt_step s e = Inr s'" "rs_left s \<Longrightarrow> stop_flag (sched (rs_world s))" "rs_left s'"
  shows "stop_flag (sched (rs_world s'))"
proof -
  have "stop_flag q" if "fst (scheduler_pick q) = Leave_loop" for q :: "(rt \<Rightarrow> rt \<times> handle list) scheduler"
    using that by (cases rule: scheduler_pick_cases [of q]) auto
  with assms show ?thesis
    by (cases e) (auto simp: rt_loop_step_def rt_timer_step_def rt_pool_step_def Let_def post_fn_stop_flag post_all_stop_flag
      simp del: timer_event_step.simps pool_step.simps split: if_splits sum.splits)
qed

lemma rt_run_left:
  "rt_run s es = Inr s' \<Longrightarrow> (rs_left s \<Longrightarrow> stop_flag (sched (rs_world s))) \<Longrightarrow> rs_left s' \<Longrightarrow>
   stop_flag (sched (rs_world s'))"
proof (induction es arbitrary: s)
  case (Cons e es)
  then obtain s1 where s1: "rt_step s e = Inr s1" "rt_run s1 es = Inr s'" by (auto split: sum.splits)
  show ?case by (rule Cons.IH [OF s1(2) _ Cons.prems(3)]) (rule rt_step_left [OF s1(1) Cons.prems(2)])
qed simp

text \<open>A fair schedule: everybody in turn.\<close>

definition round_robin :: "nat \<Rightarrow> nat \<Rightarrow> rt_event" where
  "round_robin m n =
     (let i = n mod (3 * m + 3)
      in if i = 0 then Loop else if i = 1 then Timer_thread else if i = 2 then Time_passes 1
         else if i < m + 3 then Pool_takes (i - 3)
         else if i < 2 * m + 3 then Pool_starts (i - 3 - m) else Pool_finishes (i - 3 - 2 * m))"

lemma infinite_mod: "c < M \<Longrightarrow> (\<And>n. n mod M = c \<Longrightarrow> P n) \<Longrightarrow> infinite {n. P (n :: nat)}"
proof -
  assume c: "c < M" and P: "\<And>n. n mod M = c \<Longrightarrow> P n"
  have "k \<le> k * M + c \<and> P (k * M + c)" for k
    using c by (auto intro!: P trans_le_add1)
  then show ?thesis unfolding infinite_nat_iff_unbounded_le by blast
qed

lemma fair_round_robin: "fair m (round_robin m)"
  unfolding fair_def
proof (intro conjI allI impI)
  show "infinite {n. round_robin m n = Loop}"
    by (rule infinite_mod [of 0 "3 * m + 3"]) (simp_all add: round_robin_def)
  show "infinite {n. round_robin m n = Timer_thread}"
    by (rule infinite_mod [of 1 "3 * m + 3"]) (simp_all add: round_robin_def)
  show "infinite {n. \<exists>d > 0. round_robin m n = Time_passes d}"
    by (rule infinite_mod [of 2 "3 * m + 3"]) (simp_all add: round_robin_def)
  fix t
  assume t: "t < m"
  show "infinite {n. round_robin m n = Pool_takes t}"
    by (rule infinite_mod [of "t + 3" "3 * m + 3"]) (use t in \<open>simp_all add: round_robin_def\<close>)
  show "infinite {n. round_robin m n = Pool_starts t}"
    by (rule infinite_mod [of "t + 3 + m" "3 * m + 3"]) (use t in \<open>simp_all add: round_robin_def\<close>)
  show "infinite {n. round_robin m n = Pool_finishes t}"
    by (rule infinite_mod [of "t + 3 + 2 * m" "3 * m + 3"]) (use t in \<open>simp_all add: round_robin_def\<close>)
qed

section \<open>Properties\<close>

text \<open>
  C2: Every fair execution finishes. When the event loop, the timer thread, every worker and the clock
  get their turn again and again, in whatever order, then after finitely many steps all programs have
  ended, unless the loop was left after a stop, or a deadline was past the range of the clock. No
  coroutine that sleeps, waits for the pool or waits for another one waits for ever.
\<close>
theorem fair_executions_finish:
  assumes "apps_wf ps" and "fair (if n = 0 then 1 else n) \<sigma>"
  shows "\<exists>k. case rt_run (rt_start n t0 m ps) (map \<sigma> [0..<k]) of
      Inl u \<Rightarrow> u = Signed_overflow
    | Inr s \<Rightarrow> programs_ended ps s \<or> (rs_left s \<and> stop_flag (sched (rs_world s)))"
proof (rule ccontr)
  let ?run = "\<lambda>k. rt_run (rt_start n t0 m ps) (map \<sigma> [0..<k])"
  assume never: "\<not> ?thesis"
  define S where "S k = projr (?run k)" for k
  note start = rt_start_inv [OF assms(1), of t0 n m]
  have run: "?run k = Inr (S k)" for k
    using never rt_run_inv [OF start, of "map \<sigma> [0..<k]"] by (cases "?run k") (auto simp: S_def dest!: spec [of _ k])
  have stays: "\<not> rs_left (S k)" for k
    using never rt_run_left [OF run [of k]] run [of k] by (auto simp: rt_start_def dest!: spec [of _ k])
  have "rt_step (S k) (\<sigma> k) = Inr (S (Suc k))" for k
    using run [of "Suc k"] run [of k] by (simp add: rt_run_snoc)
  with stays have exec: "executes S \<sigma>" by (simp add: executes_def)
  have "rt_inv t0 (rs_world (S 0)) (start_units ps)" using start by (simp add: S_def)
  moreover have "length (rt_jobs (shared (rs_world (S 0)))) = (if n = 0 then 1 else n)"
    by (simp add: S_def rt_start_def rt_init_def thread_pool_size_def thread_pool_new_def)
  ultimately obtain k us where inv: "rt_inv t0 (rs_world (S k)) us" and ids: "idents us = idents (start_units ps)"
    and ended: "\<forall>u \<in> set us. \<exists>x. snd u = Ended x"
    using executes_ends [OF exec assms(2)] by blast
  from ended_units [OF inv ids ended] have "programs_ended ps (S k)" .
  with never run [of k] show False by (auto dest!: spec [of _ k])
qed

theorem fair_executions_finish_witness:
  "\<exists>k. case rt_run (rt_start 2 0 cancel_store_init [sample_program]) (map (round_robin 2) [0..<k]) of
      Inl u \<Rightarrow> u = Signed_overflow
    | Inr s \<Rightarrow> programs_ended [sample_program] s \<or> (rs_left s \<and> stop_flag (sched (rs_world s)))"
  using fair_executions_finish [OF sample_wf, of 2 "round_robin 2" 0 cancel_store_init] by (simp add: fair_round_robin)

end
