(* ===== verification/Async_Examples.thy ===== *)
theory Async_Examples
  imports Async_Progress Async_Net "HOL-Library.Signed_Division"
begin

text \<open>
  The example programs \<open>examples/00_hello_task.cpp\<close>, \<open>01_timer.cpp\<close> and \<open>02_thread_pool.cpp\<close> as
  coroutine code of \<open>Async_Runtime\<close>, with the loops their pool jobs run, in 32-bit arithmetic whose
  overflow is undefined. What they print is derived from the refinement of the runtime, for all
  executions.
\<close>

section \<open>Arithmetic\<close>

text \<open>\<open>int\<close> is 32 bits wide.\<close>

definition int_value :: "int \<Rightarrow> ub + int" where
  "int_value x = (if -2147483648 \<le> x \<and> x \<le> 2147483647 then Inr x else Inl Signed_overflow)"

definition int_add :: "int \<Rightarrow> int \<Rightarrow> ub + int" where
  "int_add a b = int_value (a + b)"

definition int_mul :: "int \<Rightarrow> int \<Rightarrow> ub + int" where
  "int_mul a b = int_value (a * b)"

text \<open>\<open>for (int i = i0; k more times; ++i) acc = f(i, acc)\<close>\<close>

primrec for_loop :: "nat \<Rightarrow> (int \<Rightarrow> int \<Rightarrow> ub + int) \<Rightarrow> int \<Rightarrow> int \<Rightarrow> ub + int" where
  "for_loop 0 f i acc = Inr acc"
| "for_loop (Suc k) f i acc = (case f i acc of Inl u \<Rightarrow> Inl u | Inr acc' \<Rightarrow> for_loop k f (i + 1) acc')"

definition hello_work :: "ub + int" where
  "hello_work = for_loop 100000 (\<lambda>i sum. int_add sum (i smod 7)) 0 0"

definition heavy_step :: "int \<Rightarrow> int \<Rightarrow> int \<Rightarrow> ub + int" where
  "heavy_step n i acc = (case int_mul i n of Inl u \<Rightarrow> Inl u | Inr p \<Rightarrow> int_add acc (p smod 97))"

definition heavy_work :: "int \<Rightarrow> ub + int" where
  "heavy_work n = for_loop 200000 (heavy_step n) 0 0"

text \<open>The job of the last \<open>submit\<close> in \<open>02_thread_pool.cpp\<close>.\<close>

definition background_work :: "ub + int" where
  "background_work = for_loop 100000 (\<lambda>i x. int_add x i) 0 0"

section \<open>Programs\<close>

definition milliseconds :: "int \<Rightarrow> duration" where
  "milliseconds n = n * 1000000"

text \<open>What \<open>std::cout\<close> prints for an \<open>int\<close>.\<close>

fun digits :: "int \<Rightarrow> string" where
  "digits v = (if v < 10 then [char_of (48 + nat v)] else digits (v div 10) @ [char_of (48 + nat (v mod 10))])"

declare digits.simps [simp del]

definition show_int :: "int \<Rightarrow> string" where
  "show_int v = (if v < 0 then ''-'' @ digits (- v) else digits v)"

text \<open>
  \<open>co_await\<close> of a task without a value, and of a \<open>task<int>\<close>; an exception propagates. By its type the
  latter yields an \<open>int\<close>.
\<close>

definition await_void :: "app \<Rightarrow> app \<Rightarrow> app" where
  "await_void q p = App_call Void_promise q (\<lambda>x. case x of Inl e \<Rightarrow> App_throw e | Inr _ \<Rightarrow> p)"

definition await_int :: "app \<Rightarrow> (int \<Rightarrow> app) \<Rightarrow> app" where
  "await_int q k =
     App_call Value_promise q (\<lambda>x. case x of
        Inl e \<Rightarrow> App_throw e
      | Inr (Some (V_int v)) \<Rightarrow> k v
      | Inr _ \<Rightarrow> App_abort)"

definition app_assert :: "bool \<Rightarrow> app \<Rightarrow> app" where
  "app_assert b p = (if b then p else App_abort)"

text \<open>A callable that returns what a loop computes; the loops of the examples do not overflow.\<close>

definition submit_int :: "ub + int \<Rightarrow> app" where
  "submit_int r = submit (Inr (Some (V_int (projr r)))) False cancel_token_default"

definition hello_app :: app where
  "hello_app =
     App_print 0 ''[async] hello from task''
       (await_void (sleep_for (milliseconds 50) cancel_token_default)
         (App_print 0 ''[async] after timer''
           (await_int (submit_int hello_work) (\<lambda>v.
             App_print 0 (''[async] cpu_pool result = '' @ show_int v)
               (app_assert (0 \<le> v) (App_stop (App_return None)))))))"

definition timer_app :: app where
  "timer_app =
     App_print 0 ''[async] timer demo start''
       (await_void (sleep_for (milliseconds 100) cancel_token_default)
         (App_print 0 ''[async] +100ms''
           (await_void (sleep_for (milliseconds 200) cancel_token_default)
             (App_print 0 ''[async] +200ms''
               (App_after (milliseconds 150) ''[async] after(150ms) callback''
                 (await_void (sleep_for (milliseconds 250) cancel_token_default)
                   (App_print 0 ''[async] timer demo done'' (App_stop (App_return None)))))))))"

definition pool_app :: app where
  "pool_app =
     App_print 0 ''[async] thread_pool demo start''
       (await_int (submit_int (heavy_work 1)) (\<lambda>a.
        await_int (submit_int (heavy_work 2)) (\<lambda>b.
        await_int (submit_int (heavy_work 3)) (\<lambda>c.
          App_print 0 (''[async] results: '' @ show_int a @ '', '' @ show_int b @ '', '' @ show_int c)
            (app_assert (a \<noteq> 0 \<or> b \<noteq> 0 \<or> c \<noteq> 0)
              (App_discard Void_promise (submit (Inr None) True cancel_token_default)
                (App_print 0 ''[async] demo done'' (App_stop (App_return None)))))))))"

text \<open>
  \<open>main()\<close>: \<open>00_hello_task.cpp\<close> prints once more when \<open>run()\<close> has returned.
\<close>

definition hello_main_output :: "rt_system \<Rightarrow> string list" where
  "hello_main_output s =
     map (snd \<circ> snd) (rt_out (shared (rs_world s))) @ (if rs_left s then [''[async] done''] else [])"

section \<open>Loops\<close>

lemma for_loop_sum:
  assumes "\<And>j acc. j < k \<Longrightarrow> acc = a + (\<Sum>i < j. g (i0 + int i)) \<Longrightarrow>
      f (i0 + int j) acc = Inr (acc + g (i0 + int j))"
  shows "for_loop k f i0 a = Inr (a + (\<Sum>i < k. g (i0 + int i)))"
  using assms
proof (induction k arbitrary: i0 a)
  case (Suc k)
  have "f i0 a = Inr (a + g i0)" using Suc.prems [of 0 a] by simp
  moreover have "for_loop k f (i0 + 1) (a + g i0) = Inr (a + g i0 + (\<Sum>i < k. g (i0 + 1 + int i)))"
  proof (rule Suc.IH)
    fix j acc
    assume "j < k" "acc = a + g i0 + (\<Sum>i < j. g (i0 + 1 + int i))"
    then have "Suc j < Suc k" "acc = a + (\<Sum>i < Suc j. g (i0 + int i))"
      by (simp_all add: sum.lessThan_Suc_shift algebra_simps del: sum.lessThan_Suc)
    from Suc.prems [OF this] show "f (i0 + 1 + int j) acc = Inr (acc + g (i0 + 1 + int j))"
      by (simp add: algebra_simps)
  qed
  ultimately show ?case by (simp add: sum.lessThan_Suc_shift algebra_simps del: sum.lessThan_Suc)
qed simp

lemma for_loop_fails:
  assumes "\<And>j acc. j < k \<Longrightarrow> acc = a + (\<Sum>i < j. g (i0 + int i)) \<Longrightarrow>
      f (i0 + int j) acc = Inr (acc + g (i0 + int j))"
    and "f (i0 + int k) (a + (\<Sum>i < k. g (i0 + int i))) = Inl u" "k < m"
  shows "for_loop m f i0 a = Inl u"
  using assms
proof (induction k arbitrary: i0 a m)
  case 0
  then show ?case by (cases m) simp_all
next
  case (Suc k)
  then obtain m' where m: "m = Suc m'" by (cases m) simp_all
  have "f i0 a = Inr (a + g i0)" using Suc.prems(1) [of 0 a] by simp
  moreover have "for_loop m' f (i0 + 1) (a + g i0) = Inl u"
  proof (rule Suc.IH)
    fix j acc
    assume "j < k" "acc = a + g i0 + (\<Sum>i < j. g (i0 + 1 + int i))"
    then have "Suc j < Suc k" "acc = a + (\<Sum>i < Suc j. g (i0 + int i))"
      by (simp_all add: sum.lessThan_Suc_shift algebra_simps del: sum.lessThan_Suc)
    from Suc.prems(1) [OF this] show "f (i0 + 1 + int j) acc = Inr (acc + g (i0 + 1 + int j))"
      by (simp add: algebra_simps)
  next
    show "f (i0 + 1 + int k) (a + g i0 + (\<Sum>i < k. g (i0 + 1 + int i))) = Inl u"
      using Suc.prems(2) by (simp add: sum.lessThan_Suc_shift algebra_simps del: sum.lessThan_Suc)
  qed (use Suc.prems(3) m in simp)
  ultimately show ?case by (simp add: m)
qed

lemma smod_bound: "0 < m \<Longrightarrow> \<bar>p smod m\<bar> \<le> m - (1::int)"
  by (simp add: signed_modulo_int_def abs_mult sgn_if)

lemma sum_bound:
  fixes g :: "nat \<Rightarrow> int"
  assumes "\<And>i. \<bar>g i\<bar> \<le> b"
  shows "\<bar>\<Sum>i < k. g i\<bar> \<le> int k * b"
proof (induction k)
  case (Suc k)
  with assms [of k] show ?case by (simp add: algebra_simps)
qed simp

text \<open>Where the product \<open>i * n\<close> of \<open>heavy_work\<close> stays in range, the loop goes on.\<close>

definition product_fits :: "int \<Rightarrow> nat \<Rightarrow> bool" where
  "product_fits n i \<longleftrightarrow> -2147483648 \<le> int i * n \<and> int i * n \<le> 2147483647"

lemma heavy_step_fits:
  assumes "product_fits n j" "int j \<le> 200000" "acc = 0 + (\<Sum>i < j. ((0 + int i) * n) smod 97)"
  shows "heavy_step n (0 + int j) acc = Inr (acc + ((0 + int j) * n) smod 97)"
proof -
  have "\<bar>acc\<bar> \<le> int j * 96"
    using sum_bound [of "\<lambda>i. (int i * n) smod 97" 96 j] smod_bound [of 97] assms(3) by simp
  then have "\<bar>acc\<bar> \<le> 200000 * 96" using assms(2) by linarith
  moreover have "\<bar>(int j * n) smod 97\<bar> \<le> 96" using smod_bound [of 97 "int j * n"] by simp
  ultimately have "int_add acc ((int j * n) smod 97) = Inr (acc + (int j * n) smod 97)"
    unfolding int_add_def int_value_def by (simp add: abs_le_iff)
  with assms(1) show ?thesis by (simp add: heavy_step_def int_mul_def int_value_def product_fits_def)
qed

lemma heavy_work_fits:
  assumes "\<bar>n\<bar> \<le> 10737"
  shows "heavy_work n = Inr (\<Sum>i < 200000. (int i * n) smod 97)"
proof -
  have fits: "product_fits n j" if "int j \<le> 199999" for j
  proof -
    have "\<bar>int j * n\<bar> \<le> 199999 * 10737" unfolding abs_mult using that assms by (intro mult_mono) simp_all
    then show ?thesis by (simp add: product_fits_def abs_le_iff)
  qed
  have "for_loop 200000 (heavy_step n) 0 0 = Inr (0 + (\<Sum>i < 200000. ((0 + int i) * n) smod 97))"
  proof (rule for_loop_sum)
    fix j acc
    assume j: "j < 200000" and acc: "acc = 0 + (\<Sum>i < j. ((0 + int i) * n) smod 97)"
    from j have "int j \<le> 199999" by linarith
    then show "heavy_step n (0 + int j) acc = Inr (acc + ((0 + int j) * n) smod 97)"
      by (intro heavy_step_fits fits acc) simp_all
  qed
  then show ?thesis unfolding heavy_work_def by (simp only: add_0)
qed

lemma heavy_work_overflows:
  assumes "10737 < \<bar>n\<bar>"
  shows "heavy_work n = Inl Signed_overflow"
proof -
  have last: "\<not> product_fits n 199999" using assms unfolding product_fits_def by (simp add: abs_if split: if_splits)
  define k where "k = (LEAST i. \<not> product_fits n i)"
  have k: "\<not> product_fits n k" unfolding k_def by (rule LeastI) (rule last)
  have "k \<le> 199999" unfolding k_def by (rule Least_le) (rule last)
  then have le: "int k \<le> 199999" by linarith
  show ?thesis
    unfolding heavy_work_def
  proof (rule for_loop_fails)
    fix j acc
    assume j: "j < k" and acc: "acc = 0 + (\<Sum>i < j. ((0 + int i) * n) smod 97)"
    have "product_fits n j" using not_less_Least [OF j [unfolded k_def]] by simp
    moreover have "int j \<le> 200000" using j le by simp
    ultimately show "heavy_step n (0 + int j) acc = Inr (acc + ((0 + int j) * n) smod 97)"
      using acc by (rule heavy_step_fits)
  next
    show "heavy_step n (0 + int k) (0 + (\<Sum>i < k. ((0 + int i) * n) smod 97)) = Inl Signed_overflow"
      using k by (auto simp: heavy_step_def int_mul_def int_value_def product_fits_def)
    show "k < 200000" using le by linarith
  qed
qed

text \<open>Sums of residues: whole periods and a rest.\<close>

lemma residue_sum:
  "(\<Sum>i < m * k + r. (int i * n) mod int m) =
     int k * (\<Sum>i < m. (int i * n) mod int m) + (\<Sum>i < r. (int i * n) mod int m)"
proof (induction k)
  case (Suc k)
  have "int (m + i) * n = int i * n + int m * n" for i by (simp add: algebra_simps)
  then have period: "(int (m + i) * n) mod int m = (int i * n) mod int m" for i by (metis mod_mult_self2)
  have "(\<Sum>i < m + q. g i) = (\<Sum>i < m. g i) + (\<Sum>i < q. g (m + i))" for q and g :: "nat \<Rightarrow> int"
    by (induction q) simp_all
  from this [of "\<lambda>i. (int i * n) mod int m" "m * k + r"]
  have "(\<Sum>i < m + (m * k + r). (int i * n) mod int m) =
      (\<Sum>i < m. (int i * n) mod int m) + (\<Sum>i < m * k + r. (int i * n) mod int m)"
    by (simp only: period)
  with Suc show ?case by (simp add: algebra_simps)
qed simp

lemma smod_mod: "0 \<le> p \<Longrightarrow> 0 < m \<Longrightarrow> p smod m = p mod (m::int)"
  by (simp add: signed_modulo_int_def sgn_if)

lemma hello_work_value: "hello_work = Inr 299995"
proof -
  have "for_loop 100000 (\<lambda>i sum. int_add sum (i smod 7)) 0 0 = Inr (0 + (\<Sum>i < 100000. (0 + int i) smod 7))"
  proof (rule for_loop_sum)
    fix j acc
    assume j: "j < 100000" and acc: "acc = 0 + (\<Sum>i < j. (0 + int i) smod 7)"
    have "\<bar>acc\<bar> \<le> int j * 6" using sum_bound [of "\<lambda>i. int i smod 7" 6 j] smod_bound [of 7] acc by simp
    moreover have "\<bar>int j smod 7\<bar> \<le> 6" using smod_bound [of 7 "int j"] by simp
    ultimately show "int_add acc ((0 + int j) smod 7) = Inr (acc + (0 + int j) smod 7)"
      using j unfolding int_add_def int_value_def by (simp add: abs_le_iff)
  qed
  moreover have "(\<Sum>i < 100000. (0 + int i) smod 7) = 299995"
  proof -
    have "(\<Sum>i < 7. (int i * 1) mod int 7) = 21" "(\<Sum>i < 5. (int i * 1) mod int 7) = 10" by code_simp+
    with residue_sum [of 1 7 14285 5] have "(\<Sum>i < 7 * 14285 + 5. (int i * 1) mod int 7) = 299995" by simp
    moreover have "(7 * 14285 + 5 :: nat) = 100000" by simp
    ultimately have "(\<Sum>i < 100000. (int i * 1) mod int 7) = 299995" by (simp only:)
    moreover have "(0 + int i) smod 7 = (int i * 1) mod int 7" for i by (simp add: smod_mod)
    ultimately show ?thesis by (simp only:)
  qed
  ultimately show ?thesis by (simp only: hello_work_def add_0)
qed

lemma heavy_work_values: "heavy_work 1 = Inr 9599419" "heavy_work 2 = Inr 9599524" "heavy_work 3 = Inr 9599629"
proof -
  have closed: "heavy_work n = Inr (2061 * (\<Sum>i < 97. (int i * n) mod int 97) + (\<Sum>i < 83. (int i * n) mod int 97))"
    if "0 \<le> n" "n \<le> 10737" for n
  proof -
    have "heavy_work n = Inr (\<Sum>i < 200000. (int i * n) smod 97)" using that by (intro heavy_work_fits) simp
    also have "(\<Sum>i < 200000. (int i * n) smod 97) = (\<Sum>i < 200000. (int i * n) mod int 97)"
      using that by (intro sum.cong refl) (simp add: smod_mod)
    also have "\<dots> = (\<Sum>i < 97 * 2061 + 83. (int i * n) mod int 97)"
    proof -
      have "(200000 :: nat) = 97 * 2061 + 83" by simp
      then show ?thesis by (simp only:)
    qed
    finally show ?thesis unfolding residue_sum by simp
  qed
  have "(\<Sum>i < 97. (int i * 1) mod int 97) = 4656" "(\<Sum>i < 97. (int i * 2) mod int 97) = 4656"
    "(\<Sum>i < 97. (int i * 3) mod int 97) = 4656" by code_simp+
  moreover have "(\<Sum>i < 83. (int i * 1) mod int 97) = 3403" "(\<Sum>i < 83. (int i * 2) mod int 97) = 3508"
    "(\<Sum>i < 83. (int i * 3) mod int 97) = 3613" by code_simp+
  ultimately show "heavy_work 1 = Inr 9599419" "heavy_work 2 = Inr 9599524" "heavy_work 3 = Inr 9599629"
    using closed [of 1] closed [of 2] closed [of 3] by simp_all
qed

lemma sum_upto: "(\<Sum>i < k. int i) = int k * (int k - 1) div 2"
  by (induction k) (simp_all add: algebra_simps)

lemma background_work_overflows: "background_work = Inl Signed_overflow"
  unfolding background_work_def
proof (rule for_loop_fails [where k = 65536 and g = "\<lambda>i. i"])
  fix j acc
  assume j: "j < 65536" and acc: "acc = 0 + (\<Sum>i < j. 0 + int i)"
  have small: "0 \<le> int j" "int j \<le> 65535" using j by linarith+
  have "int j * int j \<le> 65535 * 65535" using small by (intro mult_mono) simp_all
  moreover have "int j \<le> int j * int j" using small by (cases "int j = 0") simp_all
  ultimately have "int j * (int j - 1) \<le> 4294836225" "0 \<le> int j * (int j - 1)" by (simp_all add: algebra_simps)
  then have "0 \<le> acc" "acc \<le> 2147418112" using acc by (auto simp: sum_upto)
  with small show "int_add acc (0 + int j) = Inr (acc + (0 + int j))" by (simp add: int_add_def int_value_def)
next
  show "int_add (0 + (\<Sum>i < 65536. 0 + int i)) (0 + int 65536) = Inl Signed_overflow"
    unfolding add_0 sum_upto by (simp add: int_add_def int_value_def)
  show "(65536 :: nat) < 100000" by simp
qed

section \<open>What the programs do\<close>

lemma big_await_sleep:
  "app_big (await_void (sleep_for d cancel_token_default) p) t ls x t' \<longleftrightarrow>
     (\<exists>t1. t \<le> t1 \<and> t + d \<le> t1 \<and> app_big p t1 ls x t')" (is "?l = ?r")
proof
  assume ?l
  then show ?r unfolding await_void_def sleep_for_def
    by (elim big_callE big_sleepE) (auto intro: order_trans)
next
  assume ?r
  then obtain t1 where t1: "t \<le> t1" "t + d \<le> t1" "app_big p t1 ls x t'" by blast
  have "app_big (sleep_for d cancel_token_default) t [] (Inr None) t1"
    unfolding sleep_for_def by (rule big_sleep [of _ "Inr ()" t t1]) (use t1 in \<open>auto intro: big_return\<close>)
  from big_call [OF this, of "\<lambda>x. case x of Inl e \<Rightarrow> App_throw e | Inr _ \<Rightarrow> p" ls x t'] t1(3)
  show ?l by (simp add: await_void_def)
qed

lemma big_await_submit:
  "app_big (await_int (submit_int (Inr v)) k) t ls x t' \<longleftrightarrow> (\<exists>t1. t \<le> t1 \<and> app_big (k v) t1 ls x t')" (is "?l = ?r")
proof
  assume ?l
  then show ?r unfolding await_int_def submit_int_def submit_def
    by (elim big_callE big_submitE) (auto intro: order_trans)
next
  assume ?r
  then obtain t1 where t1: "t \<le> t1" "app_big (k v) t1 ls x t'" by blast
  have "app_big (submit_int (Inr v)) t [] (Inr (Some (V_int v))) t1"
    unfolding submit_int_def submit_def
    by (rule big_submit [of _ _ "Inr (Some (V_int v))" t t1]) (use t1 in \<open>auto intro: big_return\<close>)
  from big_call [OF this, of "\<lambda>x. case x of Inl e \<Rightarrow> App_throw e | Inr (Some (V_int v)) \<Rightarrow> k v | Inr _ \<Rightarrow> App_abort"
      ls x t'] t1(2)
  show ?l by (simp add: await_int_def)
qed

lemmas example_big = big_iffs big_await_sleep big_await_submit app_assert_def

text \<open>The examples are well-formed; in particular their assertions hold.\<close>

lemma wf_await_sleep: "app_wf i kd p \<Longrightarrow> app_wf i kd (await_void (sleep_for d cancel_token_default) p)"
  by (simp add: await_void_def sleep_for_def)

lemma wf_await_submit: "app_wf i kd (k v) \<Longrightarrow> app_wf i kd (await_int (submit_int (Inr v)) k)"
  by (simp add: await_int_def submit_int_def submit_def submit_typed_def)

lemma examples_wf: "apps_wf [hello_app]" "apps_wf [timer_app]" "apps_wf [pool_app]"
proof -
  have "app_wf 0 Void_promise hello_app" unfolding hello_app_def hello_work_value
    by (simp add: wf_await_sleep wf_await_submit app_assert_def)
  moreover have "app_wf 0 Void_promise timer_app" unfolding timer_app_def by (simp add: wf_await_sleep)
  moreover have "app_wf 0 Void_promise pool_app" unfolding pool_app_def heavy_work_values
    by (simp add: wf_await_submit app_assert_def)
  ultimately show "apps_wf [hello_app]" "apps_wf [timer_app]" "apps_wf [pool_app]" by (simp_all add: apps_wf_def)
qed

lemma example_lines:
  assumes wf: "apps_wf [p]" and run: "rt_run (rt_start n t0 m [p]) es = Inr s" and ended: "programs_ended [p] s"
  obtains x where "app_big p t0 (own_lines 0 (rt_out (shared (rs_world s)))) x (rt_now (shared (rs_world s)))"
proof -
  obtain f where f: "fmlookup (frames (rs_world s)) 0 = Some f" "frame_done f"
    using ended by (auto simp: programs_ended_def split: option.splits)
  from ended_thread_refines [OF wf run _ f] that show thesis by auto
qed

text \<open>One execution of \<open>00_hello_task\<close> with two workers.\<close>

definition hello_events :: "rt_event list" where
  "hello_events =
     replicate 10 Loop @ [Timer_thread, Time_passes 60000000] @ replicate 6 Timer_thread @ replicate 15 Loop @
     [Pool_takes 1, Pool_starts 1, Pool_finishes 1] @ replicate 10 Loop"

lemma hello_run:
  "case rt_run (rt_start 2 0 cancel_store_init [hello_app]) hello_events of
     Inl _ \<Rightarrow> False
   | Inr s \<Rightarrow> programs_ended [hello_app] s \<and>
       hello_main_output s = [''[async] hello from task'', ''[async] after timer'',
         ''[async] cpu_pool result = 299995'', ''[async] done'']"
  unfolding hello_app_def hello_work_value by code_simp

definition pool_events :: "rt_event list" where
  "pool_events = concat (replicate 3 (replicate 12 Loop @ [Pool_takes 0, Pool_starts 0, Pool_finishes 0])) @ replicate 20 Loop"

lemma pool_run:
  "case rt_run (rt_start 1 0 cancel_store_init [pool_app]) pool_events of
     Inl _ \<Rightarrow> False | Inr s \<Rightarrow> programs_ended [pool_app] s \<and> rs_left s"
  unfolding pool_app_def heavy_work_values by code_simp

definition timer_events :: "rt_event list" where
  "timer_events =
     concat (replicate 3 (replicate 12 Loop @ Time_passes 260000000 # replicate 20 Timer_thread)) @ replicate 20 Loop"

lemma timer_run:
  "case rt_run (rt_start 1 0 cancel_store_init [timer_app]) timer_events of
     Inl _ \<Rightarrow> False
   | Inr s \<Rightarrow> programs_ended [timer_app] s \<and> rs_left s \<and>
       rt_out (shared (rs_world s)) =
         [(0, Coroutine 0, ''[async] timer demo start''), (260000000, Coroutine 0, ''[async] +100ms''),
          (520000000, Coroutine 0, ''[async] +200ms''), (780000000, Callback, ''[async] after(150ms) callback''),
          (780000000, Coroutine 0, ''[async] timer demo done'')]"
  by code_simp

section \<open>Properties\<close>

text \<open>
  \<open>heavy_work\<close> overflows exactly for arguments beyond 10737 in size; otherwise it returns the sum of
  the residues, which is at most 19200000 in size.
\<close>
lemma heavy_work_bounds:
  "if \<bar>n\<bar> \<le> 10737
   then \<exists>v. heavy_work n = Inr v \<and> v = (\<Sum>i < 200000. (int i * n) smod 97) \<and> \<bar>v\<bar> \<le> 19200000
   else heavy_work n = Inl Signed_overflow"
proof (cases "\<bar>n\<bar> \<le> 10737")
  case True
  have "\<bar>\<Sum>i < 200000. (int i * n) smod 97\<bar> \<le> int 200000 * 96" using smod_bound [of 97] by (intro sum_bound) simp
  with heavy_work_fits [OF True] True show ?thesis by auto
qed (simp add: heavy_work_overflows)

text \<open>
  Whatever the threads do, when the task of \<open>00_hello_task\<close> has ended it has printed its three lines
  in order, the second at least 50 ms after the first, and the third with the sum the pool computed; its
  assertion held.
\<close>
lemma hello_task_output:
  assumes "rt_run (rt_start n t0 m [hello_app]) es = Inr s" "programs_ended [hello_app] s"
  shows "\<exists>t1 t2 t3. own_lines 0 (rt_out (shared (rs_world s))) =
      [(t1, Coroutine 0, ''[async] hello from task''), (t2, Coroutine 0, ''[async] after timer''),
       (t3, Coroutine 0, ''[async] cpu_pool result = 299995'')] \<and>
    t0 \<le> t1 \<and> t1 + milliseconds 50 \<le> t2 \<and> t2 \<le> t3"
proof -
  let ?now = "rt_now (shared (rs_world s))" let ?out = "own_lines 0 (rt_out (shared (rs_world s)))"
  obtain x where *: "app_big hello_app t0 ?out x ?now" by (rule example_lines [OF examples_wf(1) assms])
  have "show_int 299995 = ''299995''" by code_simp
  with * obtain t1 t2 u t3 v where "?out = [(t1, Coroutine 0, ''[async] hello from task''),
      (t2, Coroutine 0, ''[async] after timer''), (t3, Coroutine 0, ''[async] cpu_pool result = 299995'')]"
    and "t0 \<le> t1" "t1 + milliseconds 50 \<le> u" "u \<le> t2" "t2 \<le> v" "v \<le> t3"
    unfolding hello_app_def hello_work_value by (auto simp: example_big)
  then show ?thesis by (intro exI [of _ t1] exI [of _ t2] exI [of _ t3]) simp
qed

text \<open>
  The lines of \<open>01_timer\<close>, in every execution: the sleeps take at least 100, 200 and 250 ms.
\<close>
lemma timer_demo_output:
  assumes "rt_run (rt_start n t0 m [timer_app]) es = Inr s" "programs_ended [timer_app] s"
  shows "\<exists>t1 t2 t3 t4. own_lines 0 (rt_out (shared (rs_world s))) =
      [(t1, Coroutine 0, ''[async] timer demo start''), (t2, Coroutine 0, ''[async] +100ms''),
       (t3, Coroutine 0, ''[async] +200ms''), (t4, Coroutine 0, ''[async] timer demo done'')] \<and>
    t0 \<le> t1 \<and> t1 + milliseconds 100 \<le> t2 \<and> t2 + milliseconds 200 \<le> t3 \<and> t3 + milliseconds 250 \<le> t4"
proof -
  let ?now = "rt_now (shared (rs_world s))" let ?out = "own_lines 0 (rt_out (shared (rs_world s)))"
  obtain x where "app_big timer_app t0 ?out x ?now" by (rule example_lines [OF examples_wf(2) assms])
  then obtain t1 u2 t2 u3 t3 u4 t4 where "?out = [(t1, Coroutine 0, ''[async] timer demo start''),
      (t2, Coroutine 0, ''[async] +100ms''), (t3, Coroutine 0, ''[async] +200ms''),
      (t4, Coroutine 0, ''[async] timer demo done'')]"
    and "t0 \<le> t1" "t1 + milliseconds 100 \<le> u2" "u2 \<le> t2" "t2 + milliseconds 200 \<le> u3" "u3 \<le> t3"
      "t3 + milliseconds 250 \<le> u4" "u4 \<le> t4"
    unfolding timer_app_def by (auto simp: example_big)
  then show ?thesis by (intro exI [of _ t1] exI [of _ t2] exI [of _ t3] exI [of _ t4]) simp
qed

text \<open>
  The lines of \<open>02_thread_pool\<close>, in every execution: the three results are those of \<open>heavy_work\<close>
  at 1, 2 and 3, and the assertion on them held.
\<close>
lemma pool_demo_output:
  assumes "rt_run (rt_start n t0 m [pool_app]) es = Inr s" "programs_ended [pool_app] s"
  shows "map (snd \<circ> snd) (own_lines 0 (rt_out (shared (rs_world s)))) =
      [''[async] thread_pool demo start'', ''[async] results: 9599419, 9599524, 9599629'', ''[async] demo done'']"
proof -
  let ?now = "rt_now (shared (rs_world s))" let ?out = "own_lines 0 (rt_out (shared (rs_world s)))"
  obtain x where "app_big pool_app t0 ?out x ?now" by (rule example_lines [OF examples_wf(3) assms])
  moreover have "show_int 9599419 = ''9599419''" "show_int 9599524 = ''9599524''" "show_int 9599629 = ''9599629''"
    by code_simp+
  ultimately show ?thesis unfolding pool_app_def heavy_work_values by (auto simp: example_big)
qed

text \<open>
  A task that is created and discarded does nothing: two steps later its frame is gone and the
  services, the queues and all other frames are as they were. So the last \<open>submit\<close> of \<open>02_thread_pool\<close>,
  whose task nobody awaits, never hands its job to the pool.
\<close>
lemma discarded_task_never_runs:
  assumes "heap_ok (fresh w) (frames w)" "fmlookup (frames w) c = Some f" "point f = Executing"
    and "cur w = Some (c, app_body (App_discard kd q p))"
  shows "world_run 2 w = Inr (w\<lparr>fresh := Suc (fresh w), cur := Some (c, app_body p)\<rparr>)"
proof -
  let ?d = "fresh w"
  have new: "fmlookup (frames w) ?d = None" "c \<noteq> ?d" "Some ?d \<notin> set (owned f)"
    using assms(1,2) by (auto simp: heap_ok_def) (metis less_irrefl_nat not_None_eq)
  then have "filter (\<lambda>x. x \<noteq> Some ?d) (owned f @ [Some ?d]) = owned f" by (auto simp: filter_id_conv)
  moreover have "fmupd c f (frames w) = frames w" using assms(2) by (rule fmupd_same)
  ultimately show ?thesis
    using new assms(2-4)
    by (cases w; cases f)
      (simp add: numeral_2_eq_2 machine_ops task_destroy_def fmdrop_fmupd fmdrop_fresh fmupd_reorder_neq)
qed

end
