(* ===== verification/Async_Servers.thy ===== *)
theory Async_Servers
  imports Async_Net Async_Signal Async_Examples
begin

text \<open>
  The example programs that wait for the outside world: the echo server \<open>examples/03_tcp_echo_server.cpp\<close>
  over the TCP streams and listeners of \<open>Async_Net\<close>, and \<open>examples/01_signal_stop.cpp\<close> over the signal
  set of \<open>Async_Signal\<close>. What the network and the operating system answer is an input; a list of answers
  that ends too early leaves the coroutine suspended. Also here: closing a socket object twice, and the
  native handle of a stream.
\<close>

section \<open>Sockets\<close>

text \<open>
  \<open>close()\<close> on the socket the object holds. \<open>is_open\<close> and \<open>call\<close> are Asio's.
\<close>

definition tcp_stream_close_on :: "('s \<Rightarrow> bool) \<Rightarrow> (socket_call \<Rightarrow> 's \<Rightarrow> 's) \<Rightarrow> 's \<Rightarrow> 's" where
  "tcp_stream_close_on is_open call s = fold call (tcp_stream_close (is_open s)) s"

definition udp_socket_close_on :: "('s \<Rightarrow> bool) \<Rightarrow> (socket_call \<Rightarrow> 's \<Rightarrow> 's) \<Rightarrow> 's \<Rightarrow> 's" where
  "udp_socket_close_on is_open call s = fold call (udp_socket_close (is_open s)) s"

definition tcp_stream_is_open :: "('s \<Rightarrow> bool) \<Rightarrow> 's \<Rightarrow> bool" where
  "tcp_stream_is_open is_open s = is_open s"

definition udp_socket_is_open :: "('s \<Rightarrow> bool) \<Rightarrow> 's \<Rightarrow> bool" where
  "udp_socket_is_open is_open s = is_open s"

text \<open>The default of the interface, and the Asio stream, which casts the socket's descriptor to \<open>int\<close>.\<close>

definition tcp_stream_native_handle :: "exn + int" where
  "tcp_stream_native_handle =
     Inl (Runtime_error ''tcp_stream implementation does not expose a native socket handle'')"

definition tcp_stream_asio_native_handle :: "int \<Rightarrow> exn + int" where
  "tcp_stream_asio_native_handle fd = Inr fd"

section \<open>One client of the echo server\<close>

type_synonym byte = "8 word"

text \<open>
  What one pass of the loop meets: whether the stream is open, how the read completes and which bytes it
  has put into the buffer, and how the write completes.
\<close>

record client_turn =
  turn_open :: bool
  turn_data :: "byte list"
  turn_read :: "nat asio_op"
  turn_write :: "nat asio_op"

record client_log =
  cl_out :: "string list"
  cl_sent :: "byte list"
  cl_calls :: "socket_call list"

datatype client_status = Client_waits | Client_leaves | Client_throws exn

definition client_says :: "string \<Rightarrow> client_log \<Rightarrow> client_log" where
  "client_says s l = l\<lparr>cl_out := cl_out l @ [s]\<rparr>"

text \<open>\<open>catch (const std::system_error &e)\<close>: report and leave the loop; other exceptions propagate.\<close>

definition client_catches ::
  "(error_code \<Rightarrow> string) \<Rightarrow> string \<Rightarrow> exn \<Rightarrow> client_log \<Rightarrow> ub + client_log \<times> client_status" where
  "client_catches message what e l =
     (case e of
        System_error ec \<Rightarrow> Inr (client_says (what @ message ec) l, Client_leaves)
      | _ \<Rightarrow> Inr (l, Client_throws e))"

primrec client_loop ::
  "(error_code \<Rightarrow> string) \<Rightarrow> cancel_store \<Rightarrow> client_turn list \<Rightarrow> client_log \<Rightarrow>
   ub + client_log \<times> client_status" where
  "client_loop message m [] l = Inr (l, Client_waits)"
| "client_loop message m (t # ts) l =
     (if \<not> turn_open t then Inr (l, Client_leaves)
      else (case tcp_async_read (\<lambda>_. turn_read t) m m cancel_token_default 4096 of
              Inl u \<Rightarrow> Inl u
            | Inr (Inl e) \<Rightarrow> client_catches message ''[async] read error: '' e l
            | Inr (Inr n) \<Rightarrow>
                if n = 0 then Inr (l, Client_leaves)
                else (case tcp_async_write (\<lambda>_. turn_write t) m m cancel_token_default n of
                        Inl u \<Rightarrow> Inl u
                      | Inr (Inl e) \<Rightarrow> client_catches message ''[async] write error: '' e l
                      | Inr (Inr k) \<Rightarrow>
                          client_loop message m ts
                            (l\<lparr>cl_sent := cl_sent l @ take k (take n (turn_data t))\<rparr>))))"

text \<open>
  \<open>handle_client\<close>: \<open>client\<close> says that the pointer is not null, \<open>open_at_end\<close> that the socket is still open
  when \<open>close()\<close> is called. The second component: the coroutine has ended, with an exception or not.
\<close>

definition handle_client ::
  "(error_code \<Rightarrow> string) \<Rightarrow> cancel_store \<Rightarrow> bool \<Rightarrow> bool \<Rightarrow> client_turn list \<Rightarrow>
   ub + client_log \<times> (exn + unit) option" where
  "handle_client message m client open_at_end turns =
     (let l = \<lparr>cl_out = [''[async] client connected''], cl_sent = [], cl_calls = []\<rparr>
      in case (if client then client_loop message m turns l else Inr (l, Client_leaves)) of
           Inl u \<Rightarrow> Inl u
         | Inr (l, Client_waits) \<Rightarrow> Inr (l, None)
         | Inr (l, Client_throws e) \<Rightarrow> Inr (l, Some (Inl e))
         | Inr (l, Client_leaves) \<Rightarrow>
             if \<not> client then Inl Null_dereference
             else Inr (client_says ''[async] client disconnected''
                         (l\<lparr>cl_calls := tcp_stream_close open_at_end\<rparr>), Some (Inr ())))"

section \<open>The server\<close>

text \<open>What one pass of the accepting loop meets: \<open>is_running()\<close>, and how \<open>async_accept\<close> goes.\<close>

record accept_turn =
  turn_running :: bool
  turn_net :: "exn option"
  turn_accept :: "unit asio_op"

record server_log =
  sv_out :: "string list"
  sv_clients :: nat
  sv_listener :: tcp_listener
  sv_stops :: bool

datatype server_status = Server_waits | Server_leaves | Server_throws exn

definition server_says :: "string \<Rightarrow> server_log \<Rightarrow> server_log" where
  "server_says s l = l\<lparr>sv_out := sv_out l @ [s]\<rparr>"

text \<open>Each accepted client is handed to \<open>spawn_detached\<close>; \<open>sv_clients\<close> counts them.\<close>

primrec accept_loop ::
  "(error_code \<Rightarrow> string) \<Rightarrow> cancel_store \<Rightarrow> accept_turn list \<Rightarrow> server_log \<Rightarrow> server_log \<times> server_status" where
  "accept_loop message m [] l = (l, Server_waits)"
| "accept_loop message m (t # ts) l =
     (if \<not> turn_running t then (l, Server_leaves)
      else (case tcp_async_accept (turn_net t) m m m cancel_token_default (turn_accept t) (sv_listener l) of
              Inr _ \<Rightarrow> accept_loop message m ts (l\<lparr>sv_clients := Suc (sv_clients l)\<rparr>)
            | Inl (System_error ec) \<Rightarrow> (server_says (''[async] accept error: '' @ message ec) l, Server_leaves)
            | Inl e \<Rightarrow> (l, Server_throws e)))"

text \<open>The third component of the result: the coroutine has ended, with an exception or not.\<close>

definition server ::
  "(error_code \<Rightarrow> string) \<Rightarrow> cancel_store \<Rightarrow> listen_calls \<Rightarrow> bool \<Rightarrow> accept_turn list \<Rightarrow>
   server_log \<times> (exn + unit) option" where
  "server message m lc post_throws turns =
     (let (res, listener) = tcp_async_listen lc tcp_listener_new;
          l = \<lparr>sv_out = [], sv_clients = 0, sv_listener = listener, sv_stops = False\<rparr>
      in case res of
           Inl e \<Rightarrow> (l, Some (Inl e))
         | Inr _ \<Rightarrow>
             (case accept_loop message m turns
                (server_says ''[async] echo server listening on 0.0.0.0:9090'' l) of
                (l, Server_waits) \<Rightarrow> (l, None)
              | (l, Server_throws e) \<Rightarrow> (l, Some (Inl e))
              | (l, Server_leaves) \<Rightarrow>
                  (l\<lparr>sv_listener := tcp_listener_close post_throws (sv_listener l), sv_stops := True\<rparr>,
                   Some (Inr ()))))"

section \<open>Waiting for a signal\<close>

text \<open>
  \<open>01_signal_stop\<close>: the coroutine \<open>c\<close>, its callback, and the function the watcher posts. \<open>sg_stops\<close>
  counts the calls of \<open>ctx.stop()\<close>.
\<close>

record signal_demo =
  sg_sys :: "unit signal_system"
  sg_out :: "string list"
  sg_stops :: nat

definition on_sigs :: "unit signal_event list \<Rightarrow> signal_demo \<Rightarrow> signal_demo" where
  "on_sigs es d = d\<lparr>sg_sys := run_events signal_step (sg_sys d) es\<rparr>"

definition demo_says :: "string \<Rightarrow> signal_demo \<Rightarrow> signal_demo" where
  "demo_says s d = d\<lparr>sg_out := sg_out d @ [s]\<rparr>"

definition demo_stops :: "signal_demo \<Rightarrow> signal_demo" where
  "demo_stops d = d\<lparr>sg_stops := Suc (sg_stops d)\<rparr>"

text \<open>The code up to the suspension in \<open>async_wait\<close>.\<close>

definition signal_demo_begin :: "coro \<Rightarrow> signal_demo \<Rightarrow> signal_demo" where
  "signal_demo_begin c d =
     on_sigs [Set_handler (Some ()), Async_wait 0 c cancel_token_default, Async_suspend]
       (demo_says ''[async] waiting for SIGINT/SIGTERM (Ctrl+C)''
         (on_sigs [Add_signal 2, Add_signal 15] d))"

text \<open>The callback, called with the signal, and the code after the \<open>co_await\<close>.\<close>

definition signal_demo_callback :: "int \<Rightarrow> signal_demo \<Rightarrow> signal_demo" where
  "signal_demo_callback s d =
     demo_stops (demo_says (''[async] signal received: '' @ show_int s @ '' -> stopping'') d)"

definition signal_demo_resume :: "signal_demo \<Rightarrow> signal_demo \<times> (exn + unit)" where
  "signal_demo_resume d =
     (case signal_await_resume (sig_tokens (sg_sys d)) (wait_objects (sg_sys d) 0) of
        Inl e \<Rightarrow> (d, Inl e)
      | Inr s \<Rightarrow>
          (demo_stops (demo_says (''[async] async_wait got signal: '' @ show_int s @ '' -> stopping'') d), Inr ()))"

text \<open>The watcher takes a signal in; the function it posts calls the callback and resumes the coroutine.\<close>

definition signal_arrives :: "int \<Rightarrow> signal_demo \<Rightarrow> signal_demo" where
  "signal_arrives sig d = on_sigs [Watch_step, Sigwait_returns 0 sig] d"

definition signal_dispatched :: "signal_demo \<Rightarrow> signal_demo \<times> handle list" where
  "signal_dispatched d =
     (let calls = handler_calls (sg_sys d) Dispatch_begins;
          d1 = fold (\<lambda>(_, s). signal_demo_callback s) calls (on_sigs [Dispatch_begins] d)
      in (on_sigs [Dispatch_ends] d1, waiter_posts (sg_sys d1) Dispatch_ends))"

definition signal_demo_new :: "cancel_store \<Rightarrow> signal_demo" where
  "signal_demo_new m = \<lparr>sg_sys = signal_system_init m, sg_out = [], sg_stops = 0\<rparr>"

section \<open>Lemmas\<close>

lemma default_not_cancelled [simp]: "\<not> cancel_token_is_cancelled m cancel_token_default"
  by (simp add: cancel_token_is_cancelled_def cancel_token_default_def)

lemma tcp_ops_outcome:
  "tcp_async_read rd m m cancel_token_default len = Inr (op_outcome (rd len))"
  "tcp_async_write wr m m cancel_token_default len = Inr (op_outcome (wr len))"
  unfolding tcp_async_read_def tcp_async_write_def by (subst co_asio_value_outcome; simp)+

text \<open>A pass that echoes: the read brings bytes, the write is accepted for some of them.\<close>

definition echoes :: "client_turn \<Rightarrow> bool" where
  "echoes t \<longleftrightarrow>
     turn_open t \<and> turn_data t \<noteq> [] \<and> op_outcome (turn_read t) = Inr (length (turn_data t)) \<and>
     (case op_outcome (turn_write t) of Inl _ \<Rightarrow> False | Inr k \<Rightarrow> k \<le> length (turn_data t))"

definition accepted :: "client_turn \<Rightarrow> nat" where
  "accepted t = (case op_outcome (turn_write t) of Inl _ \<Rightarrow> 0 | Inr k \<Rightarrow> k)"

lemma client_loop_echoes:
  "\<forall>t \<in> set ts. echoes t \<Longrightarrow>
   client_loop message m (ts @ rest) l =
     client_loop message m rest (l\<lparr>cl_sent := cl_sent l @ concat (map (\<lambda>t. take (accepted t) (turn_data t)) ts)\<rparr>)"
proof (induction ts arbitrary: l)
  case (Cons t ts)
  then show ?case
    by (auto simp: echoes_def accepted_def tcp_ops_outcome split: sum.splits)
qed simp

lemma concat_takes_eq:
  assumes "\<forall>t \<in> set ts. f t \<le> length (g t)"
  shows "concat (map (\<lambda>t. take (f t) (g t)) ts) = concat (map g ts) \<longleftrightarrow> (\<forall>t \<in> set ts. f t = length (g t))"
proof
  have le: "length (concat (map (\<lambda>t. take (f t) (g t)) ts)) \<le> length (concat (map g ts))" for ts
    by (induction ts) simp_all
  assume "concat (map (\<lambda>t. take (f t) (g t)) ts) = concat (map g ts)"
  then have "length (concat (map (\<lambda>t. take (f t) (g t)) ts)) = length (concat (map g ts))" by simp
  then show "\<forall>t \<in> set ts. f t = length (g t)"
    using assms
  proof (induction ts)
    case (Cons t ts)
    from Cons.prems le [of ts] have "f t = length (g t)"
      "length (concat (map (\<lambda>t. take (f t) (g t)) ts)) = length (concat (map g ts))" by auto
    with Cons.IH Cons.prems(2) show ?case by simp
  qed simp
next
  assume "\<forall>t \<in> set ts. f t = length (g t)"
  then show "concat (map (\<lambda>t. take (f t) (g t)) ts) = concat (map g ts)" by (induction ts) simp_all
qed

lemma accept_loop_facts:
  assumes "accept_loop message m turns l = (l', st)"
  shows "sv_listener l' = sv_listener l" "sv_stops l' = sv_stops l" "sv_clients l \<le> sv_clients l'"
  using assms
  by (induction turns arbitrary: l) (force simp: server_says_def split: if_splits sum.splits exn.splits)+

section \<open>Properties\<close>

text \<open>
  A client that sends and then closes its side gets everything back in order, as long as each write
  takes all bytes it is given; then the stream is closed. The end of the stream is reported as a read error.
\<close>
lemma echo_returns_all_bytes:
  assumes "\<forall>t \<in> set ts. echoes t \<and> accepted t = length (turn_data t)"
    and "turn_open e" "op_outcome (turn_read e) = Inl (System_error ec)"
  shows "handle_client message m True open_at_end (ts @ [e]) =
    Inr (\<lparr>cl_out = [''[async] client connected'', ''[async] read error: '' @ message ec, ''[async] client disconnected''],
          cl_sent = concat (map turn_data ts), cl_calls = tcp_stream_close open_at_end\<rparr>, Some (Inr ()))"
proof -
  have "concat (map (\<lambda>t. take (accepted t) (turn_data t)) ts) = concat (map turn_data ts)"
    using assms(1) by (subst concat_takes_eq) simp_all
  with assms show ?thesis
    by (simp add: handle_client_def client_loop_echoes tcp_ops_outcome client_catches_def client_says_def)
qed

definition sample_turn :: client_turn where
  "sample_turn =
     \<lparr>turn_open = True, turn_data = [104, 105], turn_read = Completes no_error 2, turn_write = Completes no_error 2\<rparr>"

definition end_of_file :: error_code where
  "end_of_file = \<lparr>ec_value = 2, ec_category = Foreign_category 0\<rparr>"



text \<open>
  The server stops the runtime when its accepting loop ends, and then its listener is closed. If it
  cannot listen, it throws before it has printed anything, and nobody ever stops the runtime.
\<close>
lemma server_stops_runtime:
  "case server message m lc post_throws turns of
     (l, r) \<Rightarrow>
       (sv_stops l = (r = Some (Inr ()))) \<and> (\<not> sv_stops l \<or> \<not> tcp_listener_is_open (sv_listener l)) \<and>
       (case fst (tcp_async_listen lc tcp_listener_new) of
          Inl e \<Rightarrow> r = Some (Inl e) \<and> \<not> sv_stops l \<and> sv_out l = [] \<and> sv_clients l = 0
        | Inr _ \<Rightarrow> True)"
proof (cases "tcp_async_listen lc tcp_listener_new")
  case (Pair res listener)
  let ?l = "\<lparr>sv_out = [], sv_clients = 0, sv_listener = listener, sv_stops = False\<rparr>"
  show ?thesis
  proof (cases res)
    case (Inr x)
    obtain l st where "accept_loop message m turns (server_says ''[async] echo server listening on 0.0.0.0:9090'' ?l) = (l, st)"
      by (rule prod.exhaust)
    with accept_loop_facts(2) [OF this] Pair Inr show ?thesis
      by (cases st) (auto simp: server_def server_says_def tcp_listener_close_def tcp_listener_is_open_def)
  qed (use Pair in \<open>simp add: server_def\<close>)
qed

text \<open>
  As documented, closing a stream or a UDP socket twice is closing it once, provided that Asio's
  \<open>close\<close> leaves a socket that is not open.
\<close>
lemma close_is_idempotent:
  assumes "\<And>s. \<not> is_open (call Close_call s)"
  shows "tcp_stream_close_on is_open call (tcp_stream_close_on is_open call s) = tcp_stream_close_on is_open call s \<and>
    udp_socket_close_on is_open call (udp_socket_close_on is_open call s) = udp_socket_close_on is_open call s \<and>
    \<not> tcp_stream_is_open is_open (tcp_stream_close_on is_open call s) \<and>
    \<not> udp_socket_is_open is_open (udp_socket_close_on is_open call s)"
  using assms
  by (simp add: tcp_stream_close_on_def udp_socket_close_on_def tcp_stream_close_def udp_socket_close_def
      tcp_stream_is_open_def udp_socket_is_open_def)

text \<open>
  One signal makes \<open>01_signal_stop\<close> print it in the callback and resumes the waiting coroutine, which
  reports signal 0; both ask the runtime to stop.
\<close>
lemma signal_demo_reports_zero:
  "let d0 = signal_demo_begin c (signal_demo_new m);
       (d1, hs) = signal_dispatched (signal_arrives sig d0);
       (d2, r) = signal_demo_resume d1
   in hs = [Some c] \<and> r = Inr () \<and> sg_stops d2 = 2 \<and>
      sg_out d2 = [''[async] waiting for SIGINT/SIGTERM (Ctrl+C)'',
        ''[async] signal received: '' @ show_int sig @ '' -> stopping'',
        ''[async] async_wait got signal: 0 -> stopping'']"
proof -
  have "show_int 0 = ''0''" by code_simp
  then show ?thesis
    by (simp add: signal_demo_begin_def signal_demo_new_def signal_dispatched_def signal_arrives_def
        signal_demo_resume_def signal_demo_callback_def demo_says_def demo_stops_def on_sigs_def
        signal_system_init_def signal_set_init_def signal_await_resume_def signal_worker_top_def async_ops)
qed

end
