(* ===== verification/Spec2Isabelle.thy ===== *)
theory Spec2Isabelle
  imports Async_Spawn Async_Gather Async_Io_Context Async_Log Async_Servers
begin

text \<open>
  A verification library for the C++20 asynchronous runtime \<open>vix::async\<close>.

  \<^bold>\<open>The program.\<close> User code runs as coroutines on one event loop. \<open>scheduler\<close> keeps a queue of coroutine
  handles and a queue of functions and runs them in \<open>run()\<close>. \<open>task<T>\<close> is a lazily started coroutine with
  one awaiter; \<open>spawn_detached\<close>, \<open>when_all\<close> and \<open>when_any\<close> combine tasks. \<open>io_context\<close> owns the scheduler
  and four services it creates on first use: \<open>thread_pool\<close>, \<open>timer\<close>, \<open>signal_set\<close> and the Asio based
  network service. Each service has threads of its own and hands its completions back by posting to the
  scheduler. \<open>cancel_source\<close> and \<open>cancel_token\<close> carry cancellation, \<open>errc\<close> the library's error codes.

  \<^bold>\<open>Theories.\<close>
  \<^item> \<open>Async_Prelude\<close>: handles, undefined behaviour as the values of \<open>ub\<close>, event sequences with their logs
    (\<open>run_events\<close>, \<open>log_events\<close>), and two interfaces as locales: \<open>fifo_component\<close> (what is served followed
    by what is held is what was held followed by what was accepted) and the weaker \<open>bag_component\<close>
    (the same as multisets), with a \<open>sublocale\<close> from the first to the second.
  \<^item> \<open>Async_Monitor\<close>: the skeleton "mutex, condition variable, waiting threads" as an inductive step
    relation, at the granularity at which a wake-up can get lost. The locale \<open>monitor_work\<close> states what the
    code around it has to respect for the work it queues, its extension \<open>monitor_discipline\<close> what it has to
    respect for stop requests; then no thread is left sleeping on either. What counts as work is a
    parameter that each client states in terms of its own queues.
  \<^item> \<open>Async_Error\<close> (\<open>core/error.hpp\<close>), \<open>Async_Cancel\<close> (\<open>core/cancel.hpp\<close>): error codes; the shared
    cancellation states in a store, with the interface \<open>cancel_view\<close> (cancelled tokens stay cancelled)
    that the awaitables of pool, timer and network use.
  \<^item> \<open>Async_Scheduler\<close> (\<open>core/scheduler.hpp\<close>): the record \<open>scheduler\<close> and every operation. The critical
    section of \<open>run()\<close> is \<open>scheduler_pick\<close>; the loop is \<open>scheduler_run_loop\<close>, a partial function whose
    value \<open>None\<close> means that \<open>run()\<close> does not return. It interprets \<open>fifo_component\<close> twice and
    \<open>monitor_work\<close> once.
  \<^item> \<open>Async_Ctx\<close> (\<open>core/io_context.hpp\<close>): posting through the context, with the interface \<open>ctx_port\<close>.
  \<^item> \<open>Async_Task\<close> (\<open>core/task.hpp\<close>): promises, final awaiters, the task object, the task awaiter, and the
    machine that runs coroutine bodies: a heap of frames, the coroutine that executes, the scheduler and
    the shared data (\<open>world_step\<close>). A frame that is destroyed twice, resumed while it is not suspended or
    reached through a null handle makes the machine return a value of \<open>ub\<close>. Bodies are a codatatype of
    the runtime operations a coroutine performs. \<open>prog\<close> is task code that returns, throws and awaits, with
    its meaning \<open>prog_eval\<close> by plain recursion, the reference the machine is compared with.
  \<^item> \<open>Async_Spawn\<close> (\<open>core/spawn.hpp\<close>), \<open>Async_When\<close> and \<open>Async_Gather\<close> (\<open>core/when.hpp\<close>): detached
    coroutines; the shared states, runners and awaitables of \<open>when_all\<close> and \<open>when_any\<close>, first for
    completions in any order, then as coroutines on the machine.
  \<^item> \<open>Async_Thread_Pool\<close> (\<open>core/thread_pool.hpp\<close>, \<open>core/thread_pool.cpp\<close>): queue, worker loop, and the
    awaitable of \<open>submit\<close>; executions are sequences of steps of submitters and workers, where a worker
    takes a job, starts it (the moment at which it reads the token) and finishes it (\<open>pool_step\<close>).
    \<open>closing_step\<close> adds a thread in \<open>shutdown()\<close>, which visits the workers one by one and blocks in \<open>join\<close>
    until the worker has left.
  \<^item> \<open>Async_Timer\<close> (\<open>core/timer.hpp\<close>, \<open>core/timer.cpp\<close>): ordered entries, scheduling, the worker thread
    as a step function over its program points, \<open>sleep_for\<close>. The worker reads the token of a due entry in
    one step and posts the job in the next, since it holds no mutex there.
  \<^item> \<open>Async_Signal\<close> (\<open>core/signal.hpp\<close>, \<open>core/signal.cpp\<close>): registration, \<open>async_wait\<close>, the worker around
    \<open>sigwait\<close>, and the function posted for each signal, split where it releases the mutex.
  \<^item> \<open>Async_Net\<close> (\<open>net\<close>): the bridge from Asio completions to coroutines, the network service, TCP
    streams and listeners, UDP, DNS.
  \<^item> \<open>Async_Io_Context\<close> (\<open>core/io_context.hpp\<close>, \<open>core/io_context.cpp\<close>): lazy creation and shutdown.
    \<open>ctx_built\<close> records every construction of a service.
  \<^item> \<open>Async_Log\<close> (\<open>detail/log.hpp\<close>, \<open>detail/asserts.hpp\<close>): levels, filter, abort.
  \<^item> \<open>Async_Runtime\<close>: the machine, the timer thread and the pool workers over one scheduler, in any
    interleaving (\<open>rt_step\<close>, \<open>rt_run\<close>), by composing the step functions of the components. Coroutine code
    that prints, awaits, sleeps, submits and stops is a term of \<open>app\<close>; \<open>app_body\<close> is the coroutine the
    machine runs for it, the big-step relation \<open>app_big\<close> the abstract specification: the same code read as
    a sequential program with a clock.
  \<^item> \<open>Async_Threads\<close>: the simulation relation \<open>rt_inv\<close> between a state of the runtime and its coroutine
    threads, kept by every step of the services. \<open>Async_Refinement\<close>: kept by every step of the event loop
    too; so the runtime refines the sequential reading, without undefined behaviour, with every suspended
    coroutine registered in exactly one place and no frame left at the end. \<open>Async_Progress\<close>: under every
    fair schedule the programs end.
  \<^item> \<open>Async_Examples\<close> and \<open>Async_Servers\<close> (\<open>examples\<close>): the example programs as clients: what the timer,
    pool and hello programs print in every execution, derived from the refinement, with their 32-bit
    arithmetic; the echo server over streams and listeners; the signal demo.

  \<^bold>\<open>Modelling decisions.\<close> An operation that holds a mutex is one atomic step; where the code releases it
  in between, or never holds it, the model has several steps. Executions with any number of threads are then sequences of
  events, and theorems quantify over all of them. \<open>std::size_t\<close> and \<open>std::uint64_t\<close> are 64-bit words,
  \<open>errc\<close> has 8 bits, ports have 16; clock ticks are integers whose addition checks the signed 64-bit
  range. Errors and early returns are values: exceptions are the left side of a sum, undefined behaviour
  is \<open>ub\<close>. Memory orders weaker than sequential consistency are not modelled; the atomics used are read
  and written as single steps. Asio, \<open>sigwait\<close>, the clock and user callables are parameters or inputs.

  \<^bold>\<open>What is shown.\<close> Tasks: a task evaluates like a call of the same code, started and detached tasks free
  their frames, \<open>when_all\<close> yields all values in order or the first exception, all without undefined
  behaviour and without leaks; \<open>when_any\<close> is characterised exactly, including the case in which it reads
  results that do not exist yet. Scheduler: first in first out, exactly once, handles before functions,
  \<open>run()\<close> returns once a stop is requested and the work is finite; posting never loses a wake-up, while
  \<open>stop()\<close> can. Pool: jobs start in order, every awaiting coroutine comes back exactly once with the right
  result, no wake-up is lost, workers leave only when everything is done, \<open>shutdown()\<close> returns and leaves
  nothing behind when it could join. Timer: never early, in the order of deadlines with ties in the order
  of scheduling, nothing lost or doubled, entries cancelled before the worker's check skipped, due entries
  posted after boundedly many steps, at most one post after a stop; and that an earlier deadline does not
  wake the worker. What is posted is read off the queue of the context in these statements. Signals:
  conservation of signals and waiters, and the two ways in which delivery goes wrong. Network: when an
  operation is started and what awaiting it yields, when a connection attempt succeeds, when the state of a
  listener can be trusted. Context: each service built at most once and destroyed once in a fixed order,
  nothing usable after shutdown. Runtime: refinement of the sequential reading, no undefined behaviour, no
  leaks, and progress under fairness, for all programs of \<open>app\<close> and all interleavings. Examples: the echo
  server returns exactly the bytes its writes took.

  \<^bold>\<open>Fuel and termination.\<close> The machine is run by \<open>world_run n\<close>; \<open>world_reaches\<close> asserts that some number
  of steps leads from one state to another, so the theorems on tasks are statements of termination.
  \<open>scheduler_run_loop\<close> needs no fuel; that it returns is proved from a weight that executing an item
  decreases. The timer's progress is bounded by \<open>worker_weight\<close>, at most four steps per queued entry and
  five for the one the worker holds. Fairness (\<open>fair\<close>) asks that the loop, the timer thread, each worker and
  the clock take infinitely many steps; the proof is by a well-founded order on what the threads have left.

  \<^bold>\<open>Not modelled.\<close> Memory orders and data races on plain members; the inside of Asio and of sockets;
  signal masks; formatting of the time in log lines; \<open>task<void>\<close> arguments of \<open>when_all\<close> and \<open>when_any\<close>,
  for which the source does not compile; the version, configuration, platform and trait headers, which
  hold no behaviour; the factories of the network objects; the tests and the example of the combinators.
  \<open>app\<close> has no loops, no \<open>when_all\<close> and no signals or sockets: these are covered by their own theories.
\<close>

end
